(* ===== verification/Prelude.thy ===== *)
theory Prelude
  imports Main "HOL-Library.Char_ord" "HOL-Library.List_Lexorder" "HOL-Library.Product_Lexorder"
begin

text \<open>
  Shared vocabulary of the development: Go's \<open>int64\<close> arithmetic, the outcome of a Go call
  (value, error or run-time panic), slices, the decimal formatting of \<open>fmt\<close> and
  \<open>strconv\<close>, and generic facts on lists and maps that several components use.
\<close>

section \<open>Proof collections\<close>

named_theorems op_defs \<open>definitions of the operations of a component\<close>
named_theorems inv_intros \<open>preservation of a component's invariant\<close>

section \<open>Go integers and time\<close>

text \<open>
  An \<open>int64\<close> is an \<open>int\<close> in the range \<open>[-2^63, 2^63)\<close>; \<open>i64\<close> reduces the result of an
  arithmetic operation into that range, as Go's wrapping arithmetic does.
\<close>

definition i64 :: "int \<Rightarrow> int" where
  "i64 x = (x + 2 ^ 63) mod 2 ^ 64 - 2 ^ 63"

text \<open>The stores that keep 64-bit integers refuse a result outside that range instead.\<close>

definition int8 :: "int \<Rightarrow> bool" where
  "int8 x \<longleftrightarrow> - (2 ^ 63) \<le> x \<and> x < 2 ^ 63"

text \<open>
  A \<open>time.Time\<close> is the number of nanoseconds since Go's zero time, so the zero value of a time
  field is \<open>0\<close> and \<open>IsZero\<close> tests for it; a \<open>time.Duration\<close> is its nanosecond count.
\<close>

type_synonym time = int
type_synonym duration = int

definition IsZero :: "time \<Rightarrow> bool" where
  "IsZero t \<longleftrightarrow> t = 0"

text \<open>Integer division of Go truncates towards zero.\<close>

definition go_div :: "int \<Rightarrow> int \<Rightarrow> int" where
  "go_div a b = sgn a * sgn b * (\<bar>a\<bar> div \<bar>b\<bar>)"

definition go_mod :: "int \<Rightarrow> int \<Rightarrow> int" where
  "go_mod a b = a - b * go_div a b"

lemma go_div_nonneg: "0 \<le> a \<Longrightarrow> 0 < b \<Longrightarrow> go_div a b = a div b"
  by (cases "a = 0") (simp_all add: go_div_def)

lemma go_mod_nonneg: "0 \<le> a \<Longrightarrow> 0 < b \<Longrightarrow> go_mod a b = a mod b"
  by (simp add: go_mod_def go_div_nonneg minus_mult_div_eq_mod)

lemma i64_id: "- (2 ^ 63) \<le> x \<Longrightarrow> x < 2 ^ 63 \<Longrightarrow> i64 x = x"
  by (simp add: i64_def)

lemma i64_range: "- (2 ^ 63) \<le> i64 x" "i64 x < 2 ^ 63"
  by (simp_all add: i64_def)

lemma i64_add [simp]: "i64 (i64 a + b) = i64 (a + b)"
proof -
  have "((a + 2 ^ 63) mod 2 ^ 64 + b) mod 2 ^ 64 = (a + 2 ^ 63 + b) mod (2 ^ 64 :: int)"
    by (rule mod_add_left_eq)
  then show ?thesis by (simp add: i64_def algebra_simps)
qed

lemma i64_diff [simp]: "i64 (i64 a - b) = i64 (a - b)"
  using i64_add [of a "- b"] by simp

lemma i64_i64 [simp]: "i64 (i64 a) = i64 a"
  using i64_add [of a 0] by simp

section \<open>Outcomes of calls\<close>

text \<open>
  The errors the contract names (\<open>queue.ErrLeaseLost\<close>, \<open>queue.ErrUnimplemented\<close>) and the
  errors a driver passes on. A Go call returns a value, returns an error, or panics.
\<close>

datatype qerror = ErrLeaseLost | ErrUnimplemented | ErrNoDSN | ErrNoAddr | ErrDriver string

datatype 'a result = Ok 'a | Err qerror | Panic

text \<open>\<open>xs[i:]\<close> panics when \<open>i\<close> exceeds the length (\<open>None\<close>).\<close>

definition slice_from :: "nat \<Rightarrow> 'a list \<Rightarrow> 'a list option" where
  "slice_from i xs = (if i \<le> length xs then Some (drop i xs) else None)"

text \<open>\<open>xs[0]\<close> panics on an empty slice (\<open>None\<close>).\<close>

definition index0 :: "'a list \<Rightarrow> 'a option" where
  "index0 xs = (case xs of [] \<Rightarrow> None | x # _ \<Rightarrow> Some x)"

lemma slice_from_Some [simp]: "i \<le> length xs \<Longrightarrow> slice_from i xs = Some (drop i xs)"
  by (simp add: slice_from_def)

lemma index0_simps [simp]: "index0 [] = None" "index0 (x # xs) = Some x"
  by (simp_all add: index0_def)

lemma index0_hd: "xs \<noteq> [] \<Longrightarrow> index0 xs = Some (hd xs)"
  by (cases xs) simp_all

section \<open>Decimal formatting\<close>

text \<open>\<open>fmt.Sprintf("%d", i)\<close> and \<open>strconv.FormatInt(i, 10)\<close>.\<close>

definition digit :: "nat \<Rightarrow> char" where
  "digit d = ''0123456789'' ! d"

fun show_nat :: "nat \<Rightarrow> string" where
  "show_nat n = (if n < 10 then [digit n] else show_nat (n div 10) @ [digit (n mod 10)])"

declare show_nat.simps [simp del]

definition fmt_d :: "int \<Rightarrow> string" where
  "fmt_d i = (if i < 0 then CHR ''-'' # show_nat (nat (- i)) else show_nat (nat i))"

lemma less10_cases: "(d::nat) < 10 \<Longrightarrow> d \<in> {0, 1, 2, 3, 4, 5, 6, 7, 8, 9}"
  by auto

lemma digit_in: "d < 10 \<Longrightarrow> digit d \<in> set ''0123456789''"
  unfolding digit_def by (rule nth_mem) simp

lemma digit_inj: "d < 10 \<Longrightarrow> e < 10 \<Longrightarrow> digit d = digit e \<longleftrightarrow> d = e"
  unfolding digit_def by (rule nth_eq_iff_index_eq) simp_all

lemma show_nat_nonempty [simp]: "show_nat n \<noteq> []" "[] \<noteq> show_nat n"
  by (subst show_nat.simps, simp)+

lemma set_show_nat: "set (show_nat n) \<subseteq> set ''0123456789''"
proof (induction n rule: show_nat.induct)
  case (1 n)
  show ?case
  proof (cases "n < 10")
    case True
    then show ?thesis using digit_in [of n] by (simp add: show_nat.simps [of n])
  next
    case False
    then show ?thesis
      using "1.IH" digit_in [of "n mod 10"] by (simp add: show_nat.simps [of n])
  qed
qed

lemma show_nat_hd: "c \<notin> set ''0123456789'' \<Longrightarrow> hd (show_nat n) \<noteq> c"
  using set_show_nat [of n] hd_in_set [OF show_nat_nonempty(1), of n] by blast

lemma show_nat_inj: "show_nat m = show_nat n \<Longrightarrow> m = n"
proof (induction m arbitrary: n rule: show_nat.induct)
  case (1 m)
  show ?case
  proof (cases "m < 10")
    case True
    with "1.prems" have "n < 10"
      by (auto simp: show_nat.simps [of m] show_nat.simps [of n] split: if_splits)
    with True "1.prems" show ?thesis
      by (simp add: show_nat.simps [of m] show_nat.simps [of n] digit_inj)
  next
    case False
    with "1.prems" have n: "\<not> n < 10"
      by (auto simp: show_nat.simps [of m] show_nat.simps [of n] split: if_splits)
    with False "1.prems" have "show_nat (m div 10) = show_nat (n div 10)"
      and "digit (m mod 10) = digit (n mod 10)"
      by (simp_all add: show_nat.simps [of m] show_nat.simps [of n])
    with False "1.IH" have "m div 10 = n div 10" and "m mod 10 = n mod 10"
      by (simp_all add: digit_inj)
    then show ?thesis by (metis div_mult_mod_eq)
  qed
qed

lemma fmt_d_nonneg: "0 \<le> i \<Longrightarrow> fmt_d i = show_nat (nat i)"
  by (simp add: fmt_d_def)

lemma fmt_d_inj: "0 \<le> i \<Longrightarrow> 0 \<le> j \<Longrightarrow> fmt_d i = fmt_d j \<longleftrightarrow> i = j"
  by (auto simp: fmt_d_nonneg dest: show_nat_inj)

lemma notin_show_nat: "c \<notin> set ''0123456789'' \<Longrightarrow> c \<notin> set (show_nat n)"
  using set_show_nat by blast

text \<open>A separator that does not occur in the right parts splits a string at its last occurrence.\<close>

lemma append_sep_inj_last:
  assumes "xs @ c # ys = xs' @ c # ys'" and "c \<notin> set ys" and "c \<notin> set ys'"
  shows "xs = xs' \<and> ys = ys'"
  using assms by (auto simp: append_eq_append_conv2 append_eq_Cons_conv Cons_eq_append_conv)

text \<open>And one that does not occur in the left parts splits it at its first occurrence.\<close>

lemma append_sep_inj_first:
  assumes "xs @ c # ys = xs' @ c # ys'" and "c \<notin> set xs" and "c \<notin> set xs'"
  shows "xs = xs' \<and> ys = ys'"
  using assms by (auto simp: append_eq_append_conv2 append_eq_Cons_conv Cons_eq_append_conv)

section \<open>Lists\<close>

lemma dropWhile_eq_drop_takeWhile: "dropWhile P xs = drop (length (takeWhile P xs)) xs"
  by (metis append_eq_conv_conj takeWhile_dropWhile_id)

lemma takeWhile_dropWhile_sum:
  "sum_list (map f xs) = sum_list (map f (takeWhile P xs)) + (sum_list (map f (dropWhile P xs)) :: int)"
  by (metis map_append sum_list_append takeWhile_dropWhile_id)

end
