(* ===== verification/Queue_Types.thy ===== *)
theory Queue_Types
  imports Prelude
begin

text \<open>
  Package \<open>internal/queue\<close>, the contract: the core types of \<open>types.go\<close>, the \<open>Backend\<close>
  interface of \<open>backend.go\<close> as a record of methods, and the stub implementation of
  \<open>unimplemented.go\<close>. Keys carry the lexicographic order of their three parts, the order in which
  the Postgres driver breaks ties.
\<close>

section \<open>Core types\<close>

record WorkUnitKey =
  Workspace :: string
  Session :: string
  Peer :: string

definition String :: "WorkUnitKey \<Rightarrow> string" where
  "String k = Workspace k @ ''/'' @ Session k @ ''/'' @ Peer k"

type_synonym WorkerID = string
type_synonym LeaseToken = string

record Task =
  Seq :: int
  Payload :: string
  Cost :: int

record ClaimedUnit =
  Key :: WorkUnitKey
  Worker :: WorkerID
  Lease :: LeaseToken
  LeaseTill :: time

text \<open>The point-in-time depth snapshot of \<open>stats.go\<close>.\<close>

record Stats =
  TotalUnits :: int
  EligibleUnits :: int
  PendingTasks :: int
  DeadLetters :: int
  OldestBelowT :: duration

section \<open>Keys are linearly ordered\<close>

definition key_tuple :: "'a WorkUnitKey_scheme \<Rightarrow> string \<times> string \<times> string \<times> 'a" where
  "key_tuple k = (Workspace k, Session k, Peer k, WorkUnitKey.more k)"

lemma key_tuple_inj: "key_tuple a = key_tuple b \<longleftrightarrow> a = b"
  by (auto simp: key_tuple_def intro: WorkUnitKey.equality)

instantiation WorkUnitKey_ext :: (linorder) linorder
begin

definition less_eq_WorkUnitKey_ext :: "'a WorkUnitKey_ext \<Rightarrow> 'a WorkUnitKey_ext \<Rightarrow> bool" where
  "less_eq_WorkUnitKey_ext a b \<longleftrightarrow> key_tuple a \<le> key_tuple b"

definition less_WorkUnitKey_ext :: "'a WorkUnitKey_ext \<Rightarrow> 'a WorkUnitKey_ext \<Rightarrow> bool" where
  "less_WorkUnitKey_ext a b \<longleftrightarrow> key_tuple a < key_tuple b"

instance
  by standard
    (auto simp: less_eq_WorkUnitKey_ext_def less_WorkUnitKey_ext_def key_tuple_inj
      dest: antisym order.trans)

end

text \<open>
  \<open>String\<close> separates the parts with a slash, so it identifies a key only among keys whose workspace
  and session contain none.
\<close>

definition slash_free :: "WorkUnitKey \<Rightarrow> bool" where
  "slash_free k \<longleftrightarrow> CHR ''/'' \<notin> set (Workspace k) \<and> CHR ''/'' \<notin> set (Session k)"

lemma String_inj:
  assumes "slash_free a" and "slash_free b" and "String a = String b"
  shows "a = b"
proof -
  from assms(1,2) have free: "CHR ''/'' \<notin> set (Workspace a)" "CHR ''/'' \<notin> set (Workspace b)"
      "CHR ''/'' \<notin> set (Session a)" "CHR ''/'' \<notin> set (Session b)"
    unfolding slash_free_def by blast+
  from assms(3) have "Workspace a @ CHR ''/'' # (Session a @ CHR ''/'' # Peer a)
      = Workspace b @ CHR ''/'' # (Session b @ CHR ''/'' # Peer b)"
    by (simp add: String_def)
  from append_sep_inj_first [OF this free(1,2)] have ws: "Workspace a = Workspace b"
    and rest: "Session a @ CHR ''/'' # Peer a = Session b @ CHR ''/'' # Peer b"
    by blast+
  from append_sep_inj_first [OF rest free(3,4)] have "Session a = Session b \<and> Peer a = Peer b" .
  with ws show ?thesis by simp
qed

section \<open>The Backend interface\<close>

text \<open>
  A Go interface value is a table of methods. Each method takes what it reads from outside the
  queue (clock readings, the iteration order of a Go map, a fresh UUID) as a value of type \<open>'o\<close>,
  its arguments, and the state; it returns its outcome and the new state. The context argument
  carries no data the methods use.
\<close>

record ('o, 's) Backend =
  be_Enqueue :: "'o \<Rightarrow> WorkUnitKey \<Rightarrow> string \<Rightarrow> int \<Rightarrow> 's \<Rightarrow> int result \<times> 's"
  be_Claim :: "'o \<Rightarrow> WorkerID \<Rightarrow> duration \<Rightarrow> 's \<Rightarrow> ClaimedUnit option result \<times> 's"
  be_Drain :: "'o \<Rightarrow> ClaimedUnit \<Rightarrow> int \<Rightarrow> 's \<Rightarrow> Task list result \<times> 's"
  be_Ack :: "'o \<Rightarrow> ClaimedUnit \<Rightarrow> int \<Rightarrow> 's \<Rightarrow> bool result \<times> 's"
  be_Release :: "'o \<Rightarrow> ClaimedUnit \<Rightarrow> 's \<Rightarrow> unit result \<times> 's"
  be_Heartbeat :: "'o \<Rightarrow> ClaimedUnit \<Rightarrow> duration \<Rightarrow> 's \<Rightarrow> unit result \<times> 's"
  be_Fail :: "'o \<Rightarrow> ClaimedUnit \<Rightarrow> int \<Rightarrow> string \<Rightarrow> 's \<Rightarrow> unit result \<times> 's"
  be_ReapExpired :: "'o \<Rightarrow> time \<Rightarrow> 's \<Rightarrow> (int \<times> int) result \<times> 's"

definition Unimplemented :: "('o, 's) Backend" where
  "Unimplemented =
    \<lparr> be_Enqueue = (\<lambda>_ _ _ _ s. (Err ErrUnimplemented, s)),
      be_Claim = (\<lambda>_ _ _ s. (Err ErrUnimplemented, s)),
      be_Drain = (\<lambda>_ _ _ s. (Err ErrUnimplemented, s)),
      be_Ack = (\<lambda>_ _ _ s. (Err ErrUnimplemented, s)),
      be_Release = (\<lambda>_ _ s. (Err ErrUnimplemented, s)),
      be_Heartbeat = (\<lambda>_ _ _ s. (Err ErrUnimplemented, s)),
      be_Fail = (\<lambda>_ _ _ _ s. (Err ErrUnimplemented, s)),
      be_ReapExpired = (\<lambda>_ _ s. (Err ErrUnimplemented, s)) \<rparr>"

end
