(* ===== verification/Memory.thy ===== *)
theory Memory
  imports Queue_Types
begin

text \<open>
  Package \<open>internal/memory\<close>: the in-memory backend, the correctness oracle of the repository. One
  mutex guards the state, so every method is one atomic state transformer. What a method reads from
  outside is an argument: the readings of \<open>time.Now()\<close>, and the order in which \<open>range\<close> visits the map of
  units, which Go leaves unspecified.
\<close>

section \<open>State\<close>

record wunit =
  key :: WorkUnitKey
  tasks :: "Task list"
  enqAt :: "time list"
  nextSeq :: int
  pendingCost :: int
  threshold :: int
  maxWait :: duration
  oldestPending :: time
  flushDeadline :: time
  eligible :: bool
  claimedBy :: WorkerID
  lease :: LeaseToken
  leaseDur :: duration
  leaseExpires :: time
  attempts :: int

record DeadLetter =
  dl_Key :: WorkUnitKey
  dl_Task :: Task
  dl_Reason :: string

record Options =
  DefaultThreshold :: int
  DefaultMaxWait :: duration
  MaxAttempts :: int

record memory =
  units :: "WorkUnitKey \<rightharpoonup> wunit"
  dlq :: "DeadLetter list"
  leaseCounter :: int
  defThreshold :: int
  defMaxWait :: duration
  maxAttempts :: int

definition mem_New :: "Options \<Rightarrow> memory" where
  "mem_New opt =
    \<lparr> units = Map.empty, dlq = [], leaseCounter = 0,
      defThreshold = DefaultThreshold opt, defMaxWait = DefaultMaxWait opt,
      maxAttempts = (if MaxAttempts opt \<le> 0 then 3 else MaxAttempts opt) \<rparr>"

text \<open>The zero value of the struct with the three fields the composite literal sets.\<close>

definition new_unit :: "WorkUnitKey \<Rightarrow> int \<Rightarrow> duration \<Rightarrow> wunit" where
  "new_unit k T w =
    \<lparr> key = k, tasks = [], enqAt = [], nextSeq = 0, pendingCost = 0, threshold = T, maxWait = w,
      oldestPending = 0, flushDeadline = 0, eligible = False, claimedBy = '''', lease = '''',
      leaseDur = 0, leaseExpires = 0, attempts = 0 \<rparr>"

section \<open>Operations\<close>

definition enqueue_unit :: "time \<Rightarrow> string \<Rightarrow> int \<Rightarrow> wunit \<Rightarrow> wunit" where
  "enqueue_unit now payload cost u =
    (let seq = nextSeq u;
         u = u\<lparr>nextSeq := i64 (nextSeq u + 1)\<rparr>;
         u = (if tasks u = [] then u\<lparr>oldestPending := now, flushDeadline := now + maxWait u\<rparr> else u);
         u = u\<lparr>tasks := tasks u @ [\<lparr>Seq = seq, Payload = payload, Cost = cost\<rparr>],
               enqAt := enqAt u @ [now], pendingCost := i64 (pendingCost u + cost)\<rparr>
     in if pendingCost u \<ge> threshold u then u\<lparr>eligible := True\<rparr> else u)"

definition mem_Enqueue :: "time \<Rightarrow> WorkUnitKey \<Rightarrow> string \<Rightarrow> int \<Rightarrow> memory \<Rightarrow> int result \<times> memory" where
  "mem_Enqueue now k payload cost b =
    (let u = (case units b k of None \<Rightarrow> new_unit k (defThreshold b) (defMaxWait b) | Some u \<Rightarrow> u)
     in (Ok (nextSeq u), b\<lparr>units := (units b)(k \<mapsto> enqueue_unit now payload cost u)\<rparr>))"

text \<open>The loop of \<open>Claim\<close>; \<open>best\<close> is the unit found so far with the map slot it was found in.\<close>

definition claimable :: "wunit \<Rightarrow> bool" where
  "claimable u \<longleftrightarrow> \<not> (\<not> eligible u \<or> claimedBy u \<noteq> '''' \<or> tasks u = [])"

definition beats :: "wunit \<Rightarrow> wunit \<Rightarrow> bool" where
  "beats u best \<longleftrightarrow> flushDeadline u < flushDeadline best \<or>
     (flushDeadline u = flushDeadline best \<and> String (key u) < String (key best))"

fun claim_scan :: "(WorkUnitKey \<rightharpoonup> wunit) \<Rightarrow> WorkUnitKey list \<Rightarrow> (WorkUnitKey \<times> wunit) option
    \<Rightarrow> (WorkUnitKey \<times> wunit) option" where
  "claim_scan m [] best = best"
| "claim_scan m (k # ks) best =
    (case m k of
      None \<Rightarrow> claim_scan m ks best
    | Some u \<Rightarrow>
        if \<not> claimable u then claim_scan m ks best
        else if (case best of None \<Rightarrow> True | Some (_, v) \<Rightarrow> beats u v) then claim_scan m ks (Some (k, u))
        else claim_scan m ks best)"

definition lease_token :: "WorkerID \<Rightarrow> int \<Rightarrow> LeaseToken" where
  "lease_token w n = w @ ''-'' @ fmt_d n"

definition mem_Claim :: "WorkUnitKey list \<Rightarrow> time \<Rightarrow> WorkerID \<Rightarrow> duration \<Rightarrow> memory
    \<Rightarrow> ClaimedUnit option result \<times> memory" where
  "mem_Claim ord now w d b =
    (case claim_scan (units b) ord None of
      None \<Rightarrow> (Ok None, b)
    | Some (k, u) \<Rightarrow>
        let n = i64 (leaseCounter b + 1);
            tok = lease_token w n;
            u = u\<lparr>claimedBy := w, lease := tok, leaseDur := d, leaseExpires := now + d\<rparr>
        in (Ok (Some \<lparr>Key = key u, Worker = w, Lease = tok, LeaseTill = leaseExpires u\<rparr>),
            b\<lparr>leaseCounter := n, units := (units b)(k \<mapsto> u)\<rparr>))"

definition held :: "memory \<Rightarrow> ClaimedUnit \<Rightarrow> wunit result" where
  "held b c =
    (case units b (Key c) of
      None \<Rightarrow> Err ErrLeaseLost
    | Some u \<Rightarrow> if claimedBy u \<noteq> Worker c \<or> lease u \<noteq> Lease c then Err ErrLeaseLost else Ok u)"

definition mem_Drain :: "ClaimedUnit \<Rightarrow> int \<Rightarrow> memory \<Rightarrow> Task list result \<times> memory" where
  "mem_Drain c limit b =
    (case held b c of
      Err e \<Rightarrow> (Err e, b)
    | Panic \<Rightarrow> (Panic, b)
    | Ok u \<Rightarrow>
        let n = (if limit > int (length (tasks u)) then int (length (tasks u)) else limit)
        in if n < 0 then (Panic, b) else (Ok (take (nat n) (tasks u)), b))"

text \<open>\<open>recompute\<close> reads \<open>enqAt[0]\<close>: \<open>None\<close> stands for the index panic on an empty slice.\<close>

definition recompute :: "time \<Rightarrow> wunit \<Rightarrow> wunit option" where
  "recompute now u =
    (case index0 (enqAt u) of
      None \<Rightarrow> None
    | Some t \<Rightarrow>
        let u = u\<lparr>oldestPending := t, flushDeadline := t + maxWait u\<rparr>
        in Some (u\<lparr>eligible := pendingCost u \<ge> threshold u \<or>
                     (\<not> IsZero (flushDeadline u) \<and> \<not> now < flushDeadline u)\<rparr>))"

text \<open>The loop of \<open>Ack\<close>: how many head tasks go, and the pending cost that is left.\<close>

fun ack_loop :: "int \<Rightarrow> Task list \<Rightarrow> nat \<Rightarrow> int \<Rightarrow> nat \<times> int" where
  "ack_loop th [] i pc = (i, pc)"
| "ack_loop th (t # ts) i pc =
    (if Seq t \<le> th then ack_loop th ts (Suc i) (i64 (pc - Cost t)) else (i, pc))"

definition mem_Ack :: "time \<Rightarrow> time \<Rightarrow> ClaimedUnit \<Rightarrow> int \<Rightarrow> memory \<Rightarrow> bool result \<times> memory" where
  "mem_Ack now now' c throughSeq b =
    (case held b c of
      Err e \<Rightarrow> (Err e, b)
    | Panic \<Rightarrow> (Panic, b)
    | Ok u \<Rightarrow>
        let (i, pc) = ack_loop throughSeq (tasks u) 0 (pendingCost u);
            u = u\<lparr>pendingCost := pc, tasks := drop i (tasks u)\<rparr>;
            put = (\<lambda>u. b\<lparr>units := (units b)(Key c \<mapsto> u)\<rparr>)
        in case slice_from i (enqAt u) of
            None \<Rightarrow> (Panic, put u)
          | Some ea \<Rightarrow>
              let u = u\<lparr>enqAt := ea, attempts := 0\<rparr>
              in if tasks u = [] then (Ok False, b\<lparr>units := ((units b)(Key c \<mapsto> u))(key u := None)\<rparr>)
                 else case recompute now u of
                    None \<Rightarrow> (Panic, put u)
                  | Some u \<Rightarrow>
                      if eligible u then (Ok True, put (u\<lparr>leaseExpires := now' + leaseDur u\<rparr>))
                      else (Ok False, put (u\<lparr>claimedBy := '''', lease := ''''\<rparr>)))"

definition mem_Release :: "ClaimedUnit \<Rightarrow> memory \<Rightarrow> unit result \<times> memory" where
  "mem_Release c b =
    (case held b c of
      Err e \<Rightarrow> (Err e, b)
    | Panic \<Rightarrow> (Panic, b)
    | Ok u \<Rightarrow> (Ok (), b\<lparr>units := (units b)(Key c \<mapsto> u\<lparr>claimedBy := '''', lease := ''''\<rparr>)\<rparr>))"

definition mem_Heartbeat :: "time \<Rightarrow> ClaimedUnit \<Rightarrow> duration \<Rightarrow> memory \<Rightarrow> unit result \<times> memory" where
  "mem_Heartbeat now c ext b =
    (case held b c of
      Err e \<Rightarrow> (Err e, b)
    | Panic \<Rightarrow> (Panic, b)
    | Ok u \<Rightarrow> (Ok (), b\<lparr>units := (units b)(Key c \<mapsto> u\<lparr>leaseExpires := now + ext\<rparr>)\<rparr>))"

definition mem_Fail :: "time \<Rightarrow> ClaimedUnit \<Rightarrow> int \<Rightarrow> string \<Rightarrow> memory \<Rightarrow> unit result \<times> memory" where
  "mem_Fail now c seq reason b =
    (case held b c of
      Err e \<Rightarrow> (Err e, b)
    | Panic \<Rightarrow> (Panic, b)
    | Ok u \<Rightarrow>
        let u = u\<lparr>attempts := i64 (attempts u + 1)\<rparr>;
            put = (\<lambda>b u. b\<lparr>units := (units b)(Key c \<mapsto> u)\<rparr>);
            release = (\<lambda>b u. (Ok (), put b (u\<lparr>claimedBy := '''', lease := ''''\<rparr>)))
        in if attempts u \<ge> maxAttempts b \<and> tasks u \<noteq> [] \<and> Seq (hd (tasks u)) = seq then
             let t = hd (tasks u);
                 b = b\<lparr>dlq := dlq b @ [\<lparr>dl_Key = key u, dl_Task = t, dl_Reason = reason\<rparr>]\<rparr>;
                 u = u\<lparr>pendingCost := i64 (pendingCost u - Cost t), tasks := tl (tasks u)\<rparr>
             in case slice_from 1 (enqAt u) of
                 None \<Rightarrow> (Panic, put b u)
               | Some ea \<Rightarrow>
                   let u = u\<lparr>enqAt := ea, attempts := 0\<rparr>
                   in if tasks u = [] then (Ok (), b\<lparr>units := ((units b)(Key c \<mapsto> u))(key u := None)\<rparr>)
                      else case recompute now u of None \<Rightarrow> (Panic, put b u) | Some u \<Rightarrow> release b u
           else release b u)"

text \<open>One iteration of the reaper's loop: the unit afterwards, and whether it was reclaimed, flushed.\<close>

definition reap_unit :: "time \<Rightarrow> wunit \<Rightarrow> wunit \<times> bool \<times> bool" where
  "reap_unit now u =
    (let r = (claimedBy u \<noteq> '''' \<and> leaseExpires u < now);
         u = (if r then u\<lparr>claimedBy := '''', lease := ''''\<rparr> else u);
         f = (claimedBy u = '''' \<and> \<not> eligible u \<and> tasks u \<noteq> [] \<and>
              \<not> IsZero (flushDeadline u) \<and> \<not> now < flushDeadline u)
     in (if f then u\<lparr>eligible := True\<rparr> else u, r, f))"

fun reap_loop :: "time \<Rightarrow> WorkUnitKey list \<Rightarrow> (WorkUnitKey \<rightharpoonup> wunit) \<Rightarrow> int \<Rightarrow> int
    \<Rightarrow> (WorkUnitKey \<rightharpoonup> wunit) \<times> int \<times> int" where
  "reap_loop now [] m reclaimed flushed = (m, reclaimed, flushed)"
| "reap_loop now (k # ks) m reclaimed flushed =
    (case m k of
      None \<Rightarrow> reap_loop now ks m reclaimed flushed
    | Some u \<Rightarrow>
        let (u', r, f) = reap_unit now u
        in reap_loop now ks (m(k \<mapsto> u')) (reclaimed + of_bool r) (flushed + of_bool f))"

definition mem_ReapExpired :: "WorkUnitKey list \<Rightarrow> time \<Rightarrow> memory \<Rightarrow> (int \<times> int) result \<times> memory" where
  "mem_ReapExpired ord now b =
    (let (m, r, f) = reap_loop now ord (units b) 0 0 in (Ok (r, f), b\<lparr>units := m\<rparr>))"

definition mem_DeadLetters :: "memory \<Rightarrow> DeadLetter list" where
  "mem_DeadLetters b = dlq b"

lemmas [op_defs] = mem_Enqueue_def mem_Claim_def mem_Drain_def mem_Ack_def mem_Release_def
  mem_Heartbeat_def mem_Fail_def mem_ReapExpired_def held_def

section \<open>The method table\<close>

text \<open>
  What one call reads from outside: up to two readings of the clock and the order in which the map
  is visited. An order is possible for a state when it lists every key once.
\<close>

record mem_env =
  clock :: time
  clock' :: time
  order :: "WorkUnitKey list"

definition range_order :: "memory \<Rightarrow> WorkUnitKey list \<Rightarrow> bool" where
  "range_order b ord \<longleftrightarrow> distinct ord \<and> set ord = dom (units b)"

definition memory_Backend :: "(mem_env, memory) Backend" where
  "memory_Backend =
    \<lparr> be_Enqueue = (\<lambda>e. mem_Enqueue (clock e)),
      be_Claim = (\<lambda>e. mem_Claim (order e) (clock e)),
      be_Drain = (\<lambda>e. mem_Drain),
      be_Ack = (\<lambda>e. mem_Ack (clock e) (clock' e)),
      be_Release = (\<lambda>e. mem_Release),
      be_Heartbeat = (\<lambda>e. mem_Heartbeat (clock e)),
      be_Fail = (\<lambda>e. mem_Fail (clock e)),
      be_ReapExpired = (\<lambda>e. mem_ReapExpired (order e)) \<rparr>"

end
