(* ===== verification/Memory_Inv.thy ===== *)
theory Memory_Inv
  imports Memory
begin

text \<open>
  The invariant of the in-memory backend and its preservation by every method: the parallel slices
  agree, sequence numbers are consecutive and end just below \<open>nextSeq\<close>, the maintained aggregate is
  the (wrapped) sum of the pending costs, the flush clock belongs to the head task, and live leases
  carry distinct tokens issued by the lease counter.
\<close>

section \<open>Well-formed units\<close>

definition costs :: "Task list \<Rightarrow> int" where
  "costs ts = sum_list (map Cost ts)"

definition wf_unit :: "WorkUnitKey \<Rightarrow> wunit \<Rightarrow> bool" where
  "wf_unit k u \<longleftrightarrow>
     key u = k \<and> tasks u \<noteq> [] \<and> length (enqAt u) = length (tasks u) \<and>
     map Seq (tasks u) = [nextSeq u - int (length (tasks u)) .. nextSeq u - 1] \<and>
     int (length (tasks u)) \<le> nextSeq u \<and>
     pendingCost u = i64 (costs (tasks u)) \<and>
     oldestPending u = hd (enqAt u) \<and> flushDeadline u = hd (enqAt u) + maxWait u"

lemma costs_simps [simp]: "costs [] = 0" "costs (t # ts) = Cost t + costs ts"
    "costs (ts @ ts') = costs ts + costs ts'"
  by (simp_all add: costs_def)

lemma drop_upto: "drop n [a..b] = [a + int n..b]"
proof (induction n arbitrary: a)
  case (Suc n)
  show ?case
  proof (cases "a \<le> b")
    case True
    then show ?thesis using Suc.IH [of "a + 1"] by (simp add: upto_rec1 [of a b] ac_simps)
  qed simp
qed simp

lemma upto_snoc: "a \<le> b + 1 \<Longrightarrow> [a..b] @ [b + 1] = [a..b + 1]"
  by (simp add: upto_rec2 [of a "b + 1"])

text \<open>Sequence numbers of a well-formed unit ascend strictly.\<close>

lemma wf_unit_sorted: "wf_unit k u \<Longrightarrow> sorted_wrt (\<lambda>t t'. Seq t < Seq t') (tasks u)"
  using sorted_wrt_upto unfolding wf_unit_def by (metis sorted_wrt_map)

section \<open>Leases\<close>

definition lease_ok :: "int \<Rightarrow> wunit \<Rightarrow> bool" where
  "lease_ok n u \<longleftrightarrow>
     (if claimedBy u = '''' then lease u = ''''
      else \<exists>i. 1 \<le> i \<and> i \<le> n \<and> lease u = lease_token (claimedBy u) i)"

definition leases_distinct :: "(WorkUnitKey \<rightharpoonup> wunit) \<Rightarrow> bool" where
  "leases_distinct m \<longleftrightarrow>
     (\<forall>k k' u u'. m k = Some u \<longrightarrow> m k' = Some u' \<longrightarrow> k \<noteq> k' \<longrightarrow> lease u = lease u' \<longrightarrow> lease u = '''')"

lemma lease_token_nonempty [simp]: "lease_token w n \<noteq> []" "[] \<noteq> lease_token w n"
  by (simp_all add: lease_token_def)

text \<open>A token determines the worker and the counter value it was made from.\<close>

lemma lease_token_inj:
  assumes "lease_token w i = lease_token w' j" and "0 \<le> i" and "0 \<le> j"
  shows "w = w' \<and> i = j"
proof -
  have "CHR ''-'' \<notin> set (fmt_d i)" and "CHR ''-'' \<notin> set (fmt_d j)"
    using assms(2,3) by (simp_all add: fmt_d_nonneg notin_show_nat)
  with assms(1) have "w = w' \<and> fmt_d i = fmt_d j"
    by (intro append_sep_inj_last [where c = "CHR ''-''"]) (simp_all add: lease_token_def)
  with assms(2,3) show ?thesis by (simp add: fmt_d_inj)
qed

text \<open>The next token differs from every token issued so far.\<close>

lemma lease_fresh:
  assumes "lease_ok n v" and "0 \<le> n"
  shows "lease v \<noteq> lease_token w (n + 1)"
proof (cases "claimedBy v = []")
  case True
  with assms(1) show ?thesis by (simp add: lease_ok_def)
next
  case False
  with assms(1) obtain i where "1 \<le> i" "i \<le> n" "lease v = lease_token (claimedBy v) i"
    by (auto simp: lease_ok_def)
  with assms(2) show ?thesis using lease_token_inj [of "claimedBy v" i w "n + 1"] by auto
qed

definition mem_inv :: "memory \<Rightarrow> bool" where
  "mem_inv b \<longleftrightarrow>
     finite (dom (units b)) \<and> 0 \<le> leaseCounter b \<and> leases_distinct (units b) \<and>
     (\<forall>k u. units b k = Some u \<longrightarrow> wf_unit k u \<and> lease_ok (leaseCounter b) u)"

lemma mem_invD:
  assumes "mem_inv b"
  shows "finite (dom (units b))" and "0 \<le> leaseCounter b" and "leases_distinct (units b)"
    and "units b k = Some u \<Longrightarrow> wf_unit k u" and "units b k = Some u \<Longrightarrow> lease_ok (leaseCounter b) u"
  using assms by (simp_all add: mem_inv_def)

lemma mem_inv_New [inv_intros]: "mem_inv (mem_New opt)"
  by (simp add: mem_inv_def mem_New_def leases_distinct_def)

lemma mem_inv_dlq [simp]: "mem_inv (b\<lparr>dlq := d\<rparr>) = mem_inv b"
  by (simp add: mem_inv_def)

text \<open>Writing one unit back keeps the invariant when its lease is unchanged or cleared.\<close>

lemma leases_distinct_upd:
  assumes "leases_distinct m" and "lease u = '''' \<or> (\<exists>v. m k = Some v \<and> lease u = lease v)"
  shows "leases_distinct (m(k \<mapsto> u))"
  using assms unfolding leases_distinct_def by (auto split: if_splits)

lemma leases_distinct_del: "leases_distinct m \<Longrightarrow> leases_distinct (m(k := None))"
  by (simp add: leases_distinct_def)

lemma mem_inv_upd [inv_intros]:
  assumes "mem_inv b" and "wf_unit k u" and "lease_ok (leaseCounter b) u"
    and "lease u = '''' \<or> (\<exists>v. units b k = Some v \<and> lease u = lease v)"
  shows "mem_inv (b\<lparr>units := (units b)(k \<mapsto> u)\<rparr>)"
  using assms by (simp add: mem_inv_def leases_distinct_upd)

lemma mem_inv_del [inv_intros]:
  assumes "mem_inv b"
  shows "mem_inv (b\<lparr>units := (units b)(k := None)\<rparr>)"
  using assms by (simp add: mem_inv_def leases_distinct_del)

lemma held_Ok_iff: "held b c = Ok u \<longleftrightarrow>
    units b (Key c) = Some u \<and> claimedBy u = Worker c \<and> lease u = Lease c"
  by (auto simp: held_def split: option.splits)

lemma held_cases:
  obtains (lost) "held b c = Err ErrLeaseLost" | (ok) u where "held b c = Ok u"
  using that by (cases "held b c") (auto simp: held_def split: option.splits if_splits)

section \<open>Enqueue\<close>

lemma enqueue_unit_fields [simp]:
  "tasks (enqueue_unit now p c u) = tasks u @ [\<lparr>Seq = nextSeq u, Payload = p, Cost = c\<rparr>]"
  "enqAt (enqueue_unit now p c u) = enqAt u @ [now]"
  "key (enqueue_unit now p c u) = key u"
  "nextSeq (enqueue_unit now p c u) = i64 (nextSeq u + 1)"
  "pendingCost (enqueue_unit now p c u) = i64 (pendingCost u + c)"
  "threshold (enqueue_unit now p c u) = threshold u"
  "maxWait (enqueue_unit now p c u) = maxWait u"
  "claimedBy (enqueue_unit now p c u) = claimedBy u"
  "lease (enqueue_unit now p c u) = lease u"
  "leaseDur (enqueue_unit now p c u) = leaseDur u"
  "leaseExpires (enqueue_unit now p c u) = leaseExpires u"
  "attempts (enqueue_unit now p c u) = attempts u"
  "eligible (enqueue_unit now p c u) = (eligible u \<or> threshold u \<le> i64 (pendingCost u + c))"
  "flushDeadline (enqueue_unit now p c u) = (if tasks u = [] then now + maxWait u else flushDeadline u)"
  "oldestPending (enqueue_unit now p c u) = (if tasks u = [] then now else oldestPending u)"
  by (simp_all add: enqueue_unit_def Let_def)

lemma new_unit_fields [simp]:
  "key (new_unit k T w) = k" "tasks (new_unit k T w) = []" "enqAt (new_unit k T w) = []"
  "nextSeq (new_unit k T w) = 0" "pendingCost (new_unit k T w) = 0"
  "threshold (new_unit k T w) = T" "maxWait (new_unit k T w) = w"
  "eligible (new_unit k T w) = False" "claimedBy (new_unit k T w) = ''''"
  "lease (new_unit k T w) = ''''"
  by (simp_all add: new_unit_def)

lemma wf_enqueue_new: "wf_unit k (enqueue_unit now p c (new_unit k T w))"
  by (simp add: wf_unit_def i64_id)

lemma wf_enqueue_unit:
  assumes "wf_unit k u" and "nextSeq u < 2 ^ 63 - 1"
  shows "wf_unit k (enqueue_unit now p c u)"
proof -
  have n: "i64 (nextSeq u + 1) = nextSeq u + 1"
    using assms by (intro i64_id) (auto simp: wf_unit_def)
  have "[nextSeq u - int (length (tasks u))..nextSeq u - 1] @ [nextSeq u]
      = [nextSeq u - int (length (tasks u))..nextSeq u]"
    using upto_snoc [of "nextSeq u - int (length (tasks u))" "nextSeq u - 1"] by simp
  moreover have "enqAt u \<noteq> []" using assms(1) by (auto simp: wf_unit_def)
  ultimately show ?thesis using assms n by (auto simp: wf_unit_def)
qed

text \<open>The sequence counter of a unit has a number left.\<close>

definition seq_room :: "memory \<Rightarrow> WorkUnitKey \<Rightarrow> bool" where
  "seq_room b k = (case units b k of None \<Rightarrow> True | Some u \<Rightarrow> nextSeq u < 2 ^ 63 - 1)"

lemma mem_inv_Enqueue [inv_intros]:
  assumes "mem_inv b" and "seq_room b k"
  shows "mem_inv (snd (mem_Enqueue now k p c b))"
proof (cases "units b k")
  case None
  then show ?thesis
    using assms(1) by (simp add: mem_Enqueue_def mem_inv_upd wf_enqueue_new lease_ok_def)
next
  case (Some u)
  with assms have "wf_unit k (enqueue_unit now p c u)"
    by (intro wf_enqueue_unit) (auto simp: seq_room_def mem_invD)
  moreover have "lease_ok (leaseCounter b) (enqueue_unit now p c u)"
    using mem_invD(5) [OF assms(1) Some] by (simp add: lease_ok_def)
  ultimately show ?thesis
    using assms(1) Some by (simp add: mem_Enqueue_def mem_inv_upd)
qed

section \<open>Claim\<close>

text \<open>The scan minimises the pair of flush deadline and key string.\<close>

definition rank :: "wunit \<Rightarrow> time \<times> string" where
  "rank u = (flushDeadline u, String (key u))"

lemma beats_rank: "beats u v \<longleftrightarrow> rank u < rank v"
  by (auto simp: beats_def rank_def)

lemma claim_scan_Some:
  assumes "claim_scan m ks best = Some (k, u)"
    and "\<And>k' v. best = Some (k', v) \<Longrightarrow> m k' = Some v \<and> claimable v"
  shows "m k = Some u \<and> claimable u \<and>
    (\<forall>k' v. best = Some (k', v) \<longrightarrow> rank u \<le> rank v) \<and>
    (\<forall>k' \<in> set ks. \<forall>v. m k' = Some v \<longrightarrow> claimable v \<longrightarrow> rank u \<le> rank v)"
  using assms
proof (induction m ks best rule: claim_scan.induct)
  case (2 m k0 ks best)
  show ?case
  proof (cases "m k0")
    case None
    with "2.prems" "2.IH"(1) [OF None] show ?thesis by simp
  next
    case (Some w)
    show ?thesis
    proof (cases "claimable w")
      case False
      with Some "2.prems" "2.IH"(2) [OF Some] show ?thesis by simp
    next
      case claim: True
      show ?thesis
      proof (cases "case best of None \<Rightarrow> True | Some (_, v) \<Rightarrow> beats w v")
        case True
        with Some claim "2.prems" "2.IH"(3) [OF Some _ True]
        show ?thesis by (auto simp: beats_rank split: option.splits)
      next
        case False
        with Some claim "2.prems" "2.IH"(4) [OF Some _ False]
        show ?thesis by (auto simp: beats_rank split: option.splits)
      qed
    qed
  qed
qed auto

lemma claim_scan_None:
  "claim_scan m ks best = None \<longleftrightarrow>
     best = None \<and> (\<forall>k \<in> set ks. \<forall>u. m k = Some u \<longrightarrow> \<not> claimable u)"
  by (induction m ks best rule: claim_scan.induct) (auto split: option.splits)

lemma mem_inv_Claim [inv_intros]:
  assumes "mem_inv b" and "w \<noteq> ''''" and "leaseCounter b < 2 ^ 63 - 1"
  shows "mem_inv (snd (mem_Claim ord now w d b))"
proof (cases "claim_scan (units b) ord None")
  case None
  then show ?thesis using assms(1) by (simp add: mem_Claim_def)
next
  case (Some ku)
  obtain k u where ku: "ku = (k, u)" by (cases ku)
  with Some have u: "units b k = Some u" using claim_scan_Some by blast
  define n where "n = leaseCounter b + 1"
  have n: "i64 (leaseCounter b + 1) = n" "0 \<le> n"
    using assms mem_invD(2) [OF assms(1)] unfolding n_def by (simp_all add: i64_id)
  define u' where "u' = u\<lparr>claimedBy := w, lease := lease_token w n, leaseDur := d, leaseExpires := now + d\<rparr>"
  have ok: "lease_ok n v" if "units b k' = Some v" for k' v
    using mem_invD(5) [OF assms(1) that] unfolding n_def lease_ok_def by force
  have fresh: "lease v \<noteq> lease_token w n" if "units b k' = Some v" for k' v
    using lease_fresh mem_invD(2) [OF assms(1)] mem_invD(5) [OF assms(1) that] unfolding n_def by blast
  have "leases_distinct ((units b)(k \<mapsto> u'))"
    using mem_invD(3) [OF assms(1)] fresh unfolding leases_distinct_def u'_def
    by (auto split: if_splits) (metis)+
  moreover have "wf_unit k u'" using mem_invD(4) [OF assms(1) u] by (simp add: wf_unit_def u'_def)
  moreover have "lease_ok n u'"
    using assms(2) mem_invD(2) [OF assms(1)] by (auto simp: lease_ok_def u'_def n_def intro!: exI [of _ "leaseCounter b + 1"])
  ultimately have "mem_inv (b\<lparr>leaseCounter := n, units := (units b)(k \<mapsto> u')\<rparr>)"
    using assms(1) ok n(2) by (auto simp: mem_inv_def)
  then show ?thesis using Some ku n(1) by (simp add: mem_Claim_def Let_def u'_def)
qed

section \<open>Ack\<close>

text \<open>The tasks an acknowledgement through \<open>th\<close> removes and keeps.\<close>

abbreviation acked :: "int \<Rightarrow> Task list \<Rightarrow> Task list" where
  "acked th ts \<equiv> takeWhile (\<lambda>t. Seq t \<le> th) ts"

abbreviation unacked :: "int \<Rightarrow> Task list \<Rightarrow> Task list" where
  "unacked th ts \<equiv> dropWhile (\<lambda>t. Seq t \<le> th) ts"

lemma ack_loop_eq:
  "ack_loop th ts i (i64 x) = (i + length (acked th ts), i64 (x - costs (acked th ts)))"
  by (induction ts arbitrary: i x) (simp_all add: algebra_simps)

text \<open>Dropping \<open>i\<close> tasks from the head of a unit, as \<open>Ack\<close> and \<open>Fail\<close> do before \<open>recompute\<close>.\<close>

definition drop_head :: "nat \<Rightarrow> wunit \<Rightarrow> wunit" where
  "drop_head i u = u\<lparr>pendingCost := i64 (costs (drop i (tasks u))), tasks := drop i (tasks u),
     enqAt := drop i (enqAt u), attempts := 0\<rparr>"

lemma costs_drop: "costs (drop i ts) = costs ts - costs (take i ts)"
  by (metis add_diff_cancel_left' append_take_drop_id costs_simps(3))

text \<open>\<open>recompute\<close> never fails on a unit that kept a task, and restores well-formedness.\<close>

lemma recompute_drop_head:
  assumes "wf_unit k u" and "i < length (tasks u)"
  obtains v where "recompute now (drop_head i u) = Some v" and "wf_unit k v"
    and "tasks v = drop i (tasks u)" and "enqAt v = drop i (enqAt u)"
    and "claimedBy v = claimedBy u" and "lease v = lease u" and "leaseDur v = leaseDur u"
    and "leaseExpires v = leaseExpires u" and "nextSeq v = nextSeq u" and "threshold v = threshold u"
    and "maxWait v = maxWait u" and "attempts v = 0"
    and "eligible v \<longleftrightarrow> threshold v \<le> pendingCost v \<or> (flushDeadline v \<noteq> 0 \<and> flushDeadline v \<le> now)"
proof -
  let ?d = "drop_head i u"
  have ne: "drop i (enqAt u) \<noteq> []" using assms by (simp add: wf_unit_def)
  define t where "t = hd (drop i (enqAt u))"
  define v where "v = ?d\<lparr>oldestPending := t, flushDeadline := t + maxWait u,
    eligible := threshold u \<le> i64 (costs (drop i (tasks u))) \<or> (t + maxWait u \<noteq> 0 \<and> t + maxWait u \<le> now)\<rparr>"
  have "recompute now ?d = Some v"
    using ne by (auto simp: recompute_def drop_head_def v_def t_def index0_hd IsZero_def not_less)
  moreover have "wf_unit k v"
    using assms
    by (auto simp: wf_unit_def v_def drop_head_def t_def drop_map [symmetric] drop_upto algebra_simps)
  ultimately show ?thesis by (intro that [of v]) (auto simp: v_def drop_head_def)
qed

text \<open>What \<open>Ack\<close> does for the holder of the lease, branch by branch.\<close>

lemma mem_Ack_held:
  fixes th :: int
  assumes "held b c = Ok u" and "wf_unit (Key c) u"
  defines "i \<equiv> length (acked th (tasks u))"
  shows "mem_Ack now now' c th b =
    (if i = length (tasks u) then (Ok False, b\<lparr>units := (units b)(Key c := None)\<rparr>)
     else case recompute now (drop_head i u) of
        None \<Rightarrow> (Panic, b\<lparr>units := (units b)(Key c \<mapsto> drop_head i u)\<rparr>)
      | Some v \<Rightarrow>
          if eligible v then (Ok True, b\<lparr>units := (units b)(Key c \<mapsto> v\<lparr>leaseExpires := now' + leaseDur v\<rparr>)\<rparr>)
          else (Ok False, b\<lparr>units := (units b)(Key c \<mapsto> v\<lparr>claimedBy := '''', lease := ''''\<rparr>)\<rparr>))"
proof -
  have i: "i \<le> length (tasks u)" unfolding i_def by (rule length_takeWhile_le)
  have pc: "pendingCost u = i64 (costs (tasks u))" and len: "length (enqAt u) = length (tasks u)"
    and k: "key u = Key c" using assms(2) by (simp_all add: wf_unit_def)
  have "acked th (tasks u) = take i (tasks u)" unfolding i_def by (rule takeWhile_eq_take)
  then have "ack_loop th (tasks u) 0 (pendingCost u) = (i, i64 (costs (drop i (tasks u))))"
    by (simp add: pc ack_loop_eq costs_drop i_def)
  moreover have "drop i (tasks u) = [] \<longleftrightarrow> i = length (tasks u)" using i by auto
  ultimately show ?thesis
    using assms(1) i len k by (simp add: mem_Ack_def drop_head_def Let_def split: option.split)
qed

lemma lease_ok_same: "lease_ok n u \<Longrightarrow> claimedBy v = claimedBy u \<Longrightarrow> lease v = lease u \<Longrightarrow> lease_ok n v"
  by (simp add: lease_ok_def)

lemma lease_ok_cleared [simp]: "lease_ok n (u\<lparr>claimedBy := '''', lease := ''''\<rparr>)"
  by (simp add: lease_ok_def)

lemma wf_unit_lease_fields [simp]:
  "wf_unit k (u\<lparr>claimedBy := w, lease := l\<rparr>) = wf_unit k u"
  "wf_unit k (u\<lparr>leaseExpires := t\<rparr>) = wf_unit k u"
  "wf_unit k (u\<lparr>eligible := e\<rparr>) = wf_unit k u"
  "wf_unit k (u\<lparr>attempts := a\<rparr>) = wf_unit k u"
  by (simp_all add: wf_unit_def)

lemma mem_inv_Ack [inv_intros]:
  assumes inv: "mem_inv b"
  shows "mem_inv (snd (mem_Ack now now' c th b))" and "fst (mem_Ack now now' c th b) \<noteq> Panic"
proof -
  have "mem_inv (snd (mem_Ack now now' c th b)) \<and> fst (mem_Ack now now' c th b) \<noteq> Panic"
  proof (cases rule: held_cases [of b c])
    case lost
    then show ?thesis using inv by (simp add: mem_Ack_def)
  next
    case (ok u)
    then have u: "units b (Key c) = Some u" by (simp add: held_Ok_iff)
    note wf = mem_invD(4) [OF inv u] and lok = mem_invD(5) [OF inv u]
    let ?i = "length (acked th (tasks u))"
    show ?thesis
    proof (cases "?i = length (tasks u)")
      case True
      then show ?thesis using inv by (simp add: mem_Ack_held [OF ok wf] mem_inv_del)
    next
      case False
      then have "?i < length (tasks u)" by (meson le_neq_implies_less length_takeWhile_le)
      from recompute_drop_head [OF wf this, of now]
      obtain v where v: "recompute now (drop_head ?i u) = Some v" "wf_unit (Key c) v"
        "claimedBy v = claimedBy u" "lease v = lease u" by blast
      have "mem_inv (b\<lparr>units := (units b)(Key c \<mapsto> v\<lparr>leaseExpires := now' + leaseDur v\<rparr>)\<rparr>)"
        using inv u v lok by (intro mem_inv_upd) (auto intro: lease_ok_same)
      moreover have "mem_inv (b\<lparr>units := (units b)(Key c \<mapsto> v\<lparr>claimedBy := '''', lease := ''''\<rparr>)\<rparr>)"
        using inv v by (intro mem_inv_upd) auto
      ultimately show ?thesis using False v(1) by (simp add: mem_Ack_held [OF ok wf])
    qed
  qed
  then show "mem_inv (snd (mem_Ack now now' c th b))" and "fst (mem_Ack now now' c th b) \<noteq> Panic"
    by simp_all
qed

section \<open>Release, Heartbeat, Drain\<close>

lemma mem_inv_Release [inv_intros]:
  assumes inv: "mem_inv b"
  shows "mem_inv (snd (mem_Release c b))"
proof (cases rule: held_cases [of b c])
  case (ok u)
  then have u: "units b (Key c) = Some u" by (simp add: held_Ok_iff)
  with inv ok show ?thesis by (auto simp: mem_Release_def mem_invD intro!: mem_inv_upd)
qed (simp add: mem_Release_def inv)

lemma mem_inv_Heartbeat [inv_intros]:
  assumes inv: "mem_inv b"
  shows "mem_inv (snd (mem_Heartbeat now c d b))"
proof (cases rule: held_cases [of b c])
  case (ok u)
  then have u: "units b (Key c) = Some u" by (simp add: held_Ok_iff)
  with inv ok show ?thesis
    by (auto simp: mem_Heartbeat_def mem_invD intro!: mem_inv_upd intro: lease_ok_same [OF mem_invD(5)])
qed (simp add: mem_Heartbeat_def inv)

lemma mem_Drain_state [simp]: "snd (mem_Drain c n b) = b"
  by (simp add: mem_Drain_def Let_def split: result.split)

section \<open>Fail\<close>

lemma mem_Fail_held:
  assumes "held b c = Ok u" and "wf_unit (Key c) u"
  shows "mem_Fail now c seq reason b =
    (if maxAttempts b \<le> i64 (attempts u + 1) \<and> Seq (hd (tasks u)) = seq then
       let b' = b\<lparr>dlq := dlq b @ [\<lparr>dl_Key = Key c, dl_Task = hd (tasks u), dl_Reason = reason\<rparr>]\<rparr>
       in if length (tasks u) = 1 then (Ok (), b'\<lparr>units := (units b)(Key c := None)\<rparr>)
          else case recompute now (drop_head 1 u) of
             None \<Rightarrow> (Panic, b'\<lparr>units := (units b)(Key c \<mapsto> drop_head 1 u)\<rparr>)
           | Some v \<Rightarrow> (Ok (), b'\<lparr>units := (units b)(Key c \<mapsto> v\<lparr>claimedBy := '''', lease := ''''\<rparr>)\<rparr>)
     else (Ok (), b\<lparr>units := (units b)(Key c \<mapsto>
             u\<lparr>attempts := i64 (attempts u + 1), claimedBy := '''', lease := ''''\<rparr>)\<rparr>))"
proof -
  obtain t ts where ts: "tasks u = t # ts" using assms(2) by (cases "tasks u") (auto simp: wf_unit_def)
  have pc: "pendingCost u = i64 (Cost t + costs ts)" and len: "length (enqAt u) = Suc (length ts)"
    and k: "key u = Key c" using assms(2) ts by (simp_all add: wf_unit_def)
  show ?thesis
    using assms(1) ts pc len k
    by (simp add: mem_Fail_def drop_head_def Let_def drop_Suc split: option.split)
qed

text \<open>Below the retry cap, or for a task that is not the head, the lease is given up and nothing else.\<close>

lemma mem_Fail_retry:
  assumes "held b c = Ok u" and "wf_unit (Key c) u"
    and "\<not> (maxAttempts b \<le> i64 (attempts u + 1) \<and> Seq (hd (tasks u)) = seq)"
  shows "mem_Fail now c seq reason b = (Ok (), b\<lparr>units := (units b)(Key c \<mapsto>
    u\<lparr>attempts := i64 (attempts u + 1), claimedBy := '''', lease := ''''\<rparr>)\<rparr>)"
  using mem_Fail_held [OF assms(1,2), of now seq reason] unfolding if_not_P [OF assms(3)] .

text \<open>At the cap the head goes to the dead-letter queue and the rest of the unit is released.\<close>

lemma mem_Fail_poison:
  assumes "held b c = Ok u" and "wf_unit (Key c) u"
    and "maxAttempts b \<le> i64 (attempts u + 1) \<and> Seq (hd (tasks u)) = seq"
  shows "\<exists>u'. mem_Fail now c seq reason b =
      (Ok (), b\<lparr>dlq := dlq b @ [\<lparr>dl_Key = Key c, dl_Task = hd (tasks u), dl_Reason = reason\<rparr>],
                units := (units b)(Key c := u')\<rparr>) \<and>
    (if tl (tasks u) = [] then u' = None
     else \<exists>v. u' = Some v \<and> wf_unit (Key c) v \<and> tasks v = tl (tasks u)
      \<and> claimedBy v = '''' \<and> lease v = '''' \<and> attempts v = 0 \<and> nextSeq v = nextSeq u \<and>
      (\<exists>v0. recompute now (drop_head 1 u) = Some v0 \<and> v = v0\<lparr>claimedBy := '''', lease := ''''\<rparr>) \<and>
      (eligible v \<longleftrightarrow> threshold v \<le> pendingCost v \<or> (flushDeadline v \<noteq> 0 \<and> flushDeadline v \<le> now)))"
proof (cases "length (tasks u) = 1")
  case True
  moreover from this have "tl (tasks u) = []" by (cases "tasks u") auto
  ultimately show ?thesis
    using mem_Fail_held [OF assms(1,2), of now seq reason] unfolding if_P [OF assms(3)]
    by (intro exI [of _ None]) simp
next
  case False
  with assms(2) have l: "1 < length (tasks u)" by (cases "tasks u") (auto simp: wf_unit_def)
  then have "tl (tasks u) \<noteq> []" by (cases "tasks u") auto
  from recompute_drop_head [OF assms(2) l, of now] obtain v where v:
    "recompute now (drop_head 1 u) = Some v" "wf_unit (Key c) v" "tasks v = tl (tasks u)" "attempts v = 0"
    "nextSeq v = nextSeq u"
    "eligible v \<longleftrightarrow> threshold v \<le> pendingCost v \<or> (flushDeadline v \<noteq> 0 \<and> flushDeadline v \<le> now)"
    by (metis drop_0 drop_Suc One_nat_def)
  with \<open>tl (tasks u) \<noteq> []\<close> False show ?thesis
    using mem_Fail_held [OF assms(1,2), of now seq reason] unfolding if_P [OF assms(3)]
    by (intro exI [of _ "Some (v\<lparr>claimedBy := '''', lease := ''''\<rparr>)"]) simp
qed

lemma mem_inv_Fail [inv_intros]:
  assumes inv: "mem_inv b"
  shows "mem_inv (snd (mem_Fail now c seq reason b))" and "fst (mem_Fail now c seq reason b) \<noteq> Panic"
proof -
  have "mem_inv (snd (mem_Fail now c seq reason b)) \<and> fst (mem_Fail now c seq reason b) \<noteq> Panic"
  proof (cases rule: held_cases [of b c])
    case lost
    then show ?thesis using inv by (simp add: mem_Fail_def)
  next
    case (ok u)
    then have u: "units b (Key c) = Some u" by (simp add: held_Ok_iff)
    note wf = mem_invD(4) [OF inv u]
    have del: "mem_inv (b\<lparr>dlq := d, units := (units b)(Key c := None)\<rparr>)" for d
      using mem_inv_del [of "b\<lparr>dlq := d\<rparr>" "Key c"] inv by simp
    have upd: "mem_inv (b\<lparr>dlq := d, units := (units b)(Key c \<mapsto> v)\<rparr>)"
      if "wf_unit (Key c) v" "claimedBy v = ''''" "lease v = ''''" for d v
      using mem_inv_upd [of "b\<lparr>dlq := d\<rparr>" "Key c" v] inv that by (simp add: lease_ok_def)
    show ?thesis
    proof (cases "maxAttempts b \<le> i64 (attempts u + 1) \<and> Seq (hd (tasks u)) = seq")
      case False
      show ?thesis
        using upd [of "u\<lparr>attempts := i64 (attempts u + 1), claimedBy := '''', lease := ''''\<rparr>" "dlq b"] wf
        by (simp add: mem_Fail_retry [OF ok wf False] wf_unit_def)
    next
      case True
      from mem_Fail_poison [OF ok wf True, of now reason] show ?thesis
        by (auto simp: del upd split: if_splits)
    qed
  qed
  then show "mem_inv (snd (mem_Fail now c seq reason b))" and "fst (mem_Fail now c seq reason b) \<noteq> Panic"
    by simp_all
qed

section \<open>ReapExpired\<close>

text \<open>When the reaper reclaims a unit's lease, and when it promotes a unit.\<close>

definition expired :: "time \<Rightarrow> wunit \<Rightarrow> bool" where
  "expired now u \<longleftrightarrow> claimedBy u \<noteq> '''' \<and> leaseExpires u < now"

definition flush_due :: "time \<Rightarrow> wunit \<Rightarrow> bool" where
  "flush_due now u \<longleftrightarrow> (claimedBy u = '''' \<or> expired now u) \<and> \<not> eligible u \<and> tasks u \<noteq> [] \<and>
     flushDeadline u \<noteq> 0 \<and> flushDeadline u \<le> now"

lemma reap_unit_eq:
  "reap_unit now u =
    ((if expired now u then u\<lparr>claimedBy := '''', lease := ''''\<rparr> else u)
       \<lparr>eligible := eligible u \<or> flush_due now u\<rparr>, expired now u, flush_due now u)"
  by (auto simp: reap_unit_def expired_def flush_due_def IsZero_def Let_def)

definition reaped :: "time \<Rightarrow> wunit \<Rightarrow> wunit" where
  "reaped now u = fst (reap_unit now u)"

lemma reaped_fields [simp]:
  "tasks (reaped now u) = tasks u" "enqAt (reaped now u) = enqAt u" "key (reaped now u) = key u"
  "nextSeq (reaped now u) = nextSeq u" "pendingCost (reaped now u) = pendingCost u"
  "threshold (reaped now u) = threshold u" "maxWait (reaped now u) = maxWait u"
  "flushDeadline (reaped now u) = flushDeadline u" "oldestPending (reaped now u) = oldestPending u"
  "attempts (reaped now u) = attempts u" "leaseExpires (reaped now u) = leaseExpires u"
  "claimedBy (reaped now u) = (if expired now u then '''' else claimedBy u)"
  "lease (reaped now u) = (if expired now u then '''' else lease u)"
  "eligible (reaped now u) = (eligible u \<or> flush_due now u)"
  by (simp_all add: reaped_def reap_unit_eq)

lemma wf_unit_reaped [simp]: "wf_unit k (reaped now u) = wf_unit k u"
  by (simp add: wf_unit_def)

definition unit_is :: "(wunit \<Rightarrow> bool) \<Rightarrow> (WorkUnitKey \<rightharpoonup> wunit) \<Rightarrow> WorkUnitKey \<Rightarrow> bool" where
  "unit_is P m k \<longleftrightarrow> (case m k of None \<Rightarrow> False | Some u \<Rightarrow> P u)"

lemma unit_is_simps [simp]: "m k = None \<Longrightarrow> \<not> unit_is P m k" "m k = Some u \<Longrightarrow> unit_is P m k = P u"
  by (simp_all add: unit_is_def)

lemma filter_unit_is_upd [simp]:
  "k \<notin> set ks \<Longrightarrow> filter (unit_is P (m(k \<mapsto> v))) ks = filter (unit_is P m) ks"
  by (rule filter_cong) (auto simp: unit_is_def)

lemma reap_loop_eq:
  assumes "distinct ks"
  shows "reap_loop now ks m r f =
    ((\<lambda>k. if k \<in> set ks then map_option (reaped now) (m k) else m k),
     r + int (length (filter (unit_is (expired now) m) ks)),
     f + int (length (filter (unit_is (flush_due now) m) ks)))"
  using assms
proof (induction ks arbitrary: m r f)
  case (Cons k ks)
  show ?case
  proof (cases "m k")
    case None
    with Cons show ?thesis by auto
  next
    case (Some u)
    have step: "reap_loop now (k # ks) m r f
      = reap_loop now ks (m(k \<mapsto> reaped now u)) (r + of_bool (expired now u)) (f + of_bool (flush_due now u))"
      using Some by (simp add: reap_unit_eq reaped_def)
    show ?thesis unfolding step using Cons Some by (auto simp: fun_eq_iff)
  qed
qed simp

text \<open>For any visiting order of the map, the reaper applies \<open>reaped\<close> to every unit.\<close>

lemma mem_ReapExpired_eq:
  assumes "range_order b ord"
  shows "mem_ReapExpired ord now b =
    (Ok (int (length (filter (unit_is (expired now) (units b)) ord)),
         int (length (filter (unit_is (flush_due now) (units b)) ord))),
     b\<lparr>units := (\<lambda>k. map_option (reaped now) (units b k))\<rparr>)"
proof -
  have "(\<lambda>k. if k \<in> set ord then map_option (reaped now) (units b k) else units b k)
      = (\<lambda>k. map_option (reaped now) (units b k))"
    using assms by (auto simp: range_order_def fun_eq_iff domIff)
  with assms show ?thesis by (simp add: mem_ReapExpired_def reap_loop_eq range_order_def)
qed

lemma mem_inv_ReapExpired [inv_intros]:
  assumes "mem_inv b" and "range_order b ord"
  shows "mem_inv (snd (mem_ReapExpired ord now b))"
proof -
  let ?m = "\<lambda>k. map_option (reaped now) (units b k)"
  have "dom ?m = dom (units b)" by (auto simp: domIff)
  moreover have "leases_distinct ?m"
    using mem_invD(3) [OF assms(1)] unfolding leases_distinct_def by (auto split: if_splits)
  moreover have "lease_ok (leaseCounter b) (reaped now u)" if "units b k = Some u" for k u
    using mem_invD(5) [OF assms(1) that] by (simp add: lease_ok_def)
  ultimately have "mem_inv (b\<lparr>units := ?m\<rparr>)"
    using assms(1) by (auto simp: mem_inv_def)
  then show ?thesis using assms(2) by (simp add: mem_ReapExpired_eq)
qed

end
