(* ===== verification/Contract.thy ===== *)
theory Contract
  imports Queue_Types
begin

text \<open>
  The promises of the \<open>Backend\<close> interface that its clients rely on, as a locale. A backend's state
  is seen through three observations: the pending tasks of each unit, which claims are valid, and up to
  which sequence number a holder may acknowledge (what it has drained; some backends allow more). Claims
  are \<open>genuine\<close> when they have the shape of those that \<open>Claim\<close> returns. \<open>env_ok\<close> and \<open>drain_ok\<close> say what \<open>Claim\<close>
  and \<open>Drain\<close> may read from outside, and \<open>exclusive\<close> in which states only free units are claimed.
  \<open>backend_contract\<close> says what a method has done when it returns; \<open>available_backend\<close> adds that a
  caller that holds the lease gets an answer instead of an error.
\<close>

abbreviation seq_sorted :: "Task list \<Rightarrow> bool" where
  "seq_sorted ts \<equiv> sorted_wrt (\<lambda>t t'. Seq t < Seq t') ts"

text \<open>Instances of these observations: a holder may acknowledge any sequence number, drained or not; every claim
  with a worker's name has the right shape; every environment will do.\<close>

abbreviation any_ack :: "'s \<Rightarrow> ClaimedUnit \<Rightarrow> int \<Rightarrow> bool" where
  "any_ack s c th \<equiv> True"

abbreviation named :: "ClaimedUnit \<Rightarrow> bool" where
  "named c \<equiv> Worker c \<noteq> ''''"

abbreviation any_env :: "'o \<Rightarrow> bool" where
  "any_env e \<equiv> True"

locale backend_contract =
  fixes be :: "('o, 's) Backend"
    and invar :: "'s \<Rightarrow> bool"
    and env_ok :: "'s \<Rightarrow> 'o \<Rightarrow> bool"
    and drain_ok :: "'o \<Rightarrow> bool"
    and genuine :: "ClaimedUnit \<Rightarrow> bool"
    and pending :: "'s \<Rightarrow> WorkUnitKey \<Rightarrow> Task list"
    and holds :: "'s \<Rightarrow> ClaimedUnit \<Rightarrow> bool"
    and ackable :: "'s \<Rightarrow> ClaimedUnit \<Rightarrow> int \<Rightarrow> bool"
    and exclusive :: "'s \<Rightarrow> bool"
  assumes pending_sorted: "invar s \<Longrightarrow> seq_sorted (pending s k)"
    and holds_unique: "invar s \<Longrightarrow> holds s c \<Longrightarrow> holds s c' \<Longrightarrow> Key c = Key c'
      \<Longrightarrow> Worker c = Worker c' \<and> Lease c = Lease c'"
    and holds_genuine: "holds s c \<Longrightarrow> genuine c"
    and claim_none: "invar s \<Longrightarrow> env_ok s e \<Longrightarrow> w \<noteq> '''' \<Longrightarrow> be_Claim be e w d s = (Ok None, s')
      \<Longrightarrow> invar s' \<and> pending s' = pending s \<and> holds s' = holds s \<and> (exclusive s \<longrightarrow> exclusive s')"
    and claim_err: "invar s \<Longrightarrow> env_ok s e \<Longrightarrow> w \<noteq> '''' \<Longrightarrow> be_Claim be e w d s = (rc, s') \<Longrightarrow> (\<And>x. rc \<noteq> Ok x)
      \<Longrightarrow> invar s' \<and> pending s' = pending s"
    and claim_some: "invar s \<Longrightarrow> env_ok s e \<Longrightarrow> w \<noteq> '''' \<Longrightarrow> be_Claim be e w d s = (Ok (Some c), s')
      \<Longrightarrow> invar s' \<and> holds s' c \<and> Worker c = w \<and> pending s' = pending s \<and> pending s (Key c) \<noteq> []
        \<and> (exclusive s \<longrightarrow> (\<forall>c'. Key c' = Key c \<longrightarrow> \<not> holds s c')) \<and> (\<forall>c'. Key c' \<noteq> Key c \<longrightarrow> holds s' c' = holds s c')"
    and drain: "invar s \<Longrightarrow> genuine c \<Longrightarrow> drain_ok e \<Longrightarrow> be_Drain be e c n s = (r, s')
      \<Longrightarrow> invar s' \<and> pending s' = pending s \<and> holds s' = holds s \<and> (\<forall>c th. ackable s c th \<longrightarrow> ackable s' c th)
        \<and> (\<forall>ts. r = Ok ts \<longrightarrow> holds s c \<and> ts = take (length ts) (pending s (Key c)) \<and> int (length ts) \<le> max n 0
          \<and> (ts \<noteq> [] \<longrightarrow> ackable s' c (Seq (last ts))))"
    and ack_held: "invar s \<Longrightarrow> genuine c \<Longrightarrow> be_Ack be e c th s = (Ok h, s') \<Longrightarrow> holds s c"
    and ack_ok: "invar s \<Longrightarrow> genuine c \<Longrightarrow> ackable s c th \<Longrightarrow> be_Ack be e c th s = (Ok h, s')
      \<Longrightarrow> pending s' (Key c) = dropWhile (\<lambda>t. Seq t \<le> th) (pending s (Key c)) \<and> (h \<longleftrightarrow> holds s' c)"
    and ack_any: "invar s \<Longrightarrow> genuine c \<Longrightarrow> be_Ack be e c th s = (rb, s')
      \<Longrightarrow> invar s' \<and> (\<exists>i. pending s' (Key c) = drop i (pending s (Key c))) \<and> (\<forall>k. k \<noteq> Key c \<longrightarrow> pending s' k = pending s k)"
    and release: "invar s \<Longrightarrow> genuine c \<Longrightarrow> be_Release be e c s = (ru, s')
      \<Longrightarrow> invar s' \<and> pending s' = pending s \<and> (ru = Ok () \<longrightarrow> holds s c \<and> \<not> holds s' c)"
    and heartbeat: "invar s \<Longrightarrow> be_Heartbeat be e c d s = (ru, s')
      \<Longrightarrow> invar s' \<and> pending s' = pending s \<and> holds s' = holds s \<and> (\<forall>c th. ackable s c th \<longrightarrow> ackable s' c th)"

locale available_backend = backend_contract +
  assumes claim_total: "invar s \<Longrightarrow> env_ok s e \<Longrightarrow> w \<noteq> '''' \<Longrightarrow> \<exists>x s'. be_Claim be e w d s = (Ok x, s')"
    and drain_total: "invar s \<Longrightarrow> holds s c \<Longrightarrow> drain_ok e \<Longrightarrow> 0 \<le> n \<Longrightarrow> \<exists>ts s'. be_Drain be e c n s = (Ok ts, s')"
    and ack_total: "invar s \<Longrightarrow> holds s c \<Longrightarrow> \<exists>h s'. be_Ack be e c th s = (Ok h, s')"
    and release_total: "invar s \<Longrightarrow> holds s c \<Longrightarrow> \<exists>s'. be_Release be e c s = (Ok (), s')"

lemma dropWhile_drop_ex: "\<exists>i. dropWhile P xs = drop i xs"
  using dropWhile_eq_drop by blast

text \<open>Acknowledging through the last task of a drained batch removes exactly that batch.\<close>

lemma ack_batch:
  assumes "seq_sorted p" and "take n p \<noteq> []"
  shows "dropWhile (\<lambda>t. Seq t \<le> Seq (last (take n p))) p = drop n p"
proof -
  have split: "p = take n p @ drop n p" by simp
  have le: "Seq t \<le> Seq (last (take n p))" if "t \<in> set (take n p)" for t
  proof (cases "t = last (take n p)")
    case False
    from assms(2) have "take n p = butlast (take n p) @ [last (take n p)]" by simp
    moreover from this that False have "t \<in> set (butlast (take n p))"
      by (metis Un_iff empty_iff insert_iff list.set(1) list.simps(15) set_append)
    moreover have "seq_sorted (take n p)" using assms(1) by (rule sorted_wrt_take)
    ultimately show ?thesis by (metis less_imp_le list.set_intros(1) sorted_wrt_append)
  qed simp
  have gt: "\<not> Seq t \<le> Seq (last (take n p))" if "t \<in> set (drop n p)" for t
  proof -
    have "Seq (last (take n p)) < Seq t"
      using assms that last_in_set split by (metis sorted_wrt_append)
    then show ?thesis by simp
  qed
  have "dropWhile (\<lambda>t. Seq t \<le> Seq (last (take n p))) (take n p @ drop n p)
      = dropWhile (\<lambda>t. Seq t \<le> Seq (last (take n p))) (drop n p)"
    using le by (intro dropWhile_append2) auto
  also have "\<dots> = drop n p"
    using gt by (cases "drop n p") auto
  finally show ?thesis by simp
qed

end
