(* ===== verification/Lease_Spec.thy ===== *)
theory Lease_Spec
  imports Contract
begin

text \<open>
  The abstract specification of the queue: one FIFO per work unit, at most one lease holder per unit,
  tokens that are never issued twice, and a dead-letter list. Its steps are labelled with what
  happened; a claim takes a free unit, a takeover one whose lease has not ended; runs of labels carry the two promises of the contract, in-order delivery without loss or
  duplication, and exclusive leases that never come back once lost.
\<close>

record spec =
  s_queue :: "WorkUnitKey \<Rightarrow> Task list"
  s_holder :: "WorkUnitKey \<Rightarrow> (WorkerID \<times> LeaseToken) option"
  s_issued :: "LeaseToken set"
  s_dead :: "(WorkUnitKey \<times> Task) list"

datatype event =
    EvEnqueue WorkUnitKey Task
  | EvClaim WorkUnitKey WorkerID LeaseToken
  | EvTakeover WorkUnitKey WorkerID LeaseToken
  | EvAck WorkUnitKey WorkerID LeaseToken "Task list" bool
  | EvRelease WorkUnitKey WorkerID LeaseToken
  | EvFail WorkUnitKey WorkerID LeaseToken "Task option"
  | EvExpire "WorkUnitKey set"
  | EvNone

inductive spec_step :: "spec \<Rightarrow> event \<Rightarrow> spec \<Rightarrow> bool" where
  enqueue: "(\<And>t'. t' \<in> set (s_queue \<sigma> k) \<Longrightarrow> Seq t' < Seq t) \<Longrightarrow>
    spec_step \<sigma> (EvEnqueue k t) (\<sigma>\<lparr>s_queue := (s_queue \<sigma>)(k := s_queue \<sigma> k @ [t])\<rparr>)"
| claim: "s_queue \<sigma> k \<noteq> [] \<Longrightarrow> s_holder \<sigma> k = None \<Longrightarrow> tok \<notin> s_issued \<sigma> \<Longrightarrow>
    insert tok (s_issued \<sigma>) \<subseteq> I \<Longrightarrow>
    spec_step \<sigma> (EvClaim k w tok) (\<sigma>\<lparr>s_holder := (s_holder \<sigma>)(k \<mapsto> (w, tok)), s_issued := I\<rparr>)"
| takeover: "s_queue \<sigma> k \<noteq> [] \<Longrightarrow> tok \<notin> s_issued \<sigma> \<Longrightarrow> insert tok (s_issued \<sigma>) \<subseteq> I \<Longrightarrow>
    spec_step \<sigma> (EvTakeover k w tok) (\<sigma>\<lparr>s_holder := (s_holder \<sigma>)(k \<mapsto> (w, tok)), s_issued := I\<rparr>)"
| ack: "s_holder \<sigma> k = Some (w, tok) \<Longrightarrow> s_queue \<sigma> k = ts @ rest \<Longrightarrow> (kept \<Longrightarrow> rest \<noteq> []) \<Longrightarrow>
    spec_step \<sigma> (EvAck k w tok ts kept)
      (\<sigma>\<lparr>s_queue := (s_queue \<sigma>)(k := rest),
         s_holder := (s_holder \<sigma>)(k := if kept then Some (w, tok) else None)\<rparr>)"
| release: "s_holder \<sigma> k = Some (w, tok) \<Longrightarrow>
    spec_step \<sigma> (EvRelease k w tok) (\<sigma>\<lparr>s_holder := (s_holder \<sigma>)(k := None)\<rparr>)"
| retry: "s_holder \<sigma> k = Some (w, tok) \<Longrightarrow>
    spec_step \<sigma> (EvFail k w tok None) (\<sigma>\<lparr>s_holder := (s_holder \<sigma>)(k := None)\<rparr>)"
| poison: "s_holder \<sigma> k = Some (w, tok) \<Longrightarrow> s_queue \<sigma> k = t # rest \<Longrightarrow>
    spec_step \<sigma> (EvFail k w tok (Some t))
      (\<sigma>\<lparr>s_queue := (s_queue \<sigma>)(k := rest), s_holder := (s_holder \<sigma>)(k := None),
         s_dead := s_dead \<sigma> @ [(k, t)]\<rparr>)"
| expire: "spec_step \<sigma> (EvExpire K) (\<sigma>\<lparr>s_holder := (\<lambda>k. if k \<in> K then None else s_holder \<sigma> k)\<rparr>)"
| stutter: "spec_step \<sigma> EvNone \<sigma>"

inductive_cases spec_stepE: "spec_step \<sigma> ev \<sigma>'"

inductive spec_run :: "spec \<Rightarrow> event list \<Rightarrow> spec \<Rightarrow> bool" where
  nil: "spec_run \<sigma> [] \<sigma>"
| snoc: "spec_run \<sigma> evs \<sigma>' \<Longrightarrow> spec_step \<sigma>' ev \<sigma>'' \<Longrightarrow> spec_run \<sigma> (evs @ [ev]) \<sigma>''"

section \<open>In order, nothing lost, nothing twice\<close>

text \<open>The tasks of unit \<open>k\<close> that entered the queue, and those that left it for good.\<close>

fun entered :: "WorkUnitKey \<Rightarrow> event \<Rightarrow> Task list" where
  "entered k (EvEnqueue k' t) = (if k' = k then [t] else [])"
| "entered k _ = []"

fun finished :: "WorkUnitKey \<Rightarrow> event \<Rightarrow> Task list" where
  "finished k (EvAck k' w tok ts kept) = (if k' = k then ts else [])"
| "finished k (EvFail k' w tok (Some t)) = (if k' = k then [t] else [])"
| "finished k _ = []"

lemma spec_step_fifo:
  "spec_step \<sigma> ev \<sigma>' \<Longrightarrow> s_queue \<sigma> k @ entered k ev = finished k ev @ s_queue \<sigma>' k"
  by (auto elim!: spec_stepE)

lemma spec_run_fifo:
  assumes "spec_run \<sigma> evs \<sigma>'"
  shows "s_queue \<sigma> k @ concat (map (entered k) evs) = concat (map (finished k) evs) @ s_queue \<sigma>' k"
  using assms
proof (induction rule: spec_run.induct)
  case (snoc \<sigma> evs \<sigma>' ev \<sigma>'')
  from spec_step_fifo [OF snoc.hyps(2), of k] snoc.IH show ?case
    by (simp flip: append_assoc) (simp add: append_assoc)
qed simp

text \<open>Queues stay in strictly ascending sequence order.\<close>

lemma spec_step_sorted:
  "spec_step \<sigma> ev \<sigma>' \<Longrightarrow> seq_sorted (s_queue \<sigma> k) \<Longrightarrow> seq_sorted (s_queue \<sigma>' k)"
  by (erule spec_stepE) (auto simp: sorted_wrt_append)

section \<open>Exclusive leases\<close>

definition leases_sound :: "spec \<Rightarrow> bool" where
  "leases_sound \<sigma> \<longleftrightarrow>
     (\<forall>k w tok. s_holder \<sigma> k = Some (w, tok) \<longrightarrow> tok \<in> s_issued \<sigma>) \<and>
     (\<forall>k k' w w' tok. s_holder \<sigma> k = Some (w, tok) \<longrightarrow> s_holder \<sigma> k' = Some (w', tok) \<longrightarrow> k = k')"

lemma spec_step_leases: "spec_step \<sigma> ev \<sigma>' \<Longrightarrow> leases_sound \<sigma> \<Longrightarrow> leases_sound \<sigma>'"
  by (erule spec_stepE) (auto simp: leases_sound_def split: if_splits)

lemma spec_step_issued: "spec_step \<sigma> ev \<sigma>' \<Longrightarrow> s_issued \<sigma> \<subseteq> s_issued \<sigma>'"
  by (erule spec_stepE) auto

text \<open>A token that was issued and is not valid now does not become valid again.\<close>

lemma spec_step_stale:
  assumes "spec_step \<sigma> ev \<sigma>'" and "tok \<in> s_issued \<sigma>" and "s_holder \<sigma> k \<noteq> Some (w, tok)"
  shows "s_holder \<sigma>' k \<noteq> Some (w, tok)"
  using assms by (auto elim!: spec_stepE split: if_splits)

lemma spec_run_stale:
  assumes "spec_run \<sigma> evs \<sigma>'" and "tok \<in> s_issued \<sigma>" and "s_holder \<sigma> k \<noteq> Some (w, tok)"
  shows "s_holder \<sigma>' k \<noteq> Some (w, tok) \<and> tok \<in> s_issued \<sigma>'"
  using assms
proof (induction rule: spec_run.induct)
  case (snoc \<sigma> evs \<sigma>' ev \<sigma>'')
  then show ?case using spec_step_stale spec_step_issued by blast
qed simp

lemma spec_run_issued: "spec_run \<sigma> evs \<sigma>' \<Longrightarrow> s_issued \<sigma> \<subseteq> s_issued \<sigma>'"
  by (induction rule: spec_run.induct) (auto dest: spec_step_issued)

text \<open>
  While a lease lasts, steps other than the holder's own leave it alone or revoke it, and change the
  unit's FIFO only at its end.
\<close>

fun by_holder :: "WorkUnitKey \<Rightarrow> WorkerID \<Rightarrow> LeaseToken \<Rightarrow> event \<Rightarrow> bool" where
  "by_holder k w tok (EvAck k' w' tok' ts kept) = (k' = k \<and> w' = w \<and> tok' = tok)"
| "by_holder k w tok (EvRelease k' w' tok') = (k' = k \<and> w' = w \<and> tok' = tok)"
| "by_holder k w tok (EvFail k' w' tok' t) = (k' = k \<and> w' = w \<and> tok' = tok)"
| "by_holder k w tok _ = False"

fun grants :: "WorkUnitKey \<Rightarrow> WorkerID \<Rightarrow> LeaseToken \<Rightarrow> event \<Rightarrow> bool" where
  "grants k w tok (EvClaim k' w' tok') = (k' = k \<and> w' = w \<and> tok' = tok)"
| "grants k w tok (EvTakeover k' w' tok') = (k' = k \<and> w' = w \<and> tok' = tok)"
| "grants k w tok _ = False"

text \<open>The tokens that an event issues.\<close>

fun issues :: "event \<Rightarrow> LeaseToken set" where
  "issues (EvClaim k w tok) = {tok}"
| "issues (EvTakeover k w tok) = {tok}"
| "issues _ = {}"

lemma spec_step_gains:
  "spec_step \<sigma> ev \<sigma>' \<Longrightarrow> s_holder \<sigma>' k = Some (w, tok) \<Longrightarrow>
    s_holder \<sigma> k = Some (w, tok) \<or> grants k w tok ev"
  by (erule spec_stepE) (auto split: if_splits)

lemma spec_step_others:
  assumes "spec_step \<sigma> ev \<sigma>'" and "s_holder \<sigma>' k = Some (w, tok)" and "s_holder \<sigma> k = Some (w, tok)"
    and "\<not> by_holder k w tok ev"
  shows "s_queue \<sigma>' k = s_queue \<sigma> k @ entered k ev"
  using assms by (auto elim!: spec_stepE split: if_splits)

section \<open>Implementations\<close>

text \<open>
  Labelled runs of an implementation, with the specification events its steps amount to.
\<close>

inductive impl_run :: "('s \<Rightarrow> 'l \<Rightarrow> 's \<Rightarrow> bool) \<Rightarrow> ('s \<Rightarrow> 'l \<Rightarrow> event) \<Rightarrow> 's \<Rightarrow> 'l list \<Rightarrow> event list \<Rightarrow> 's \<Rightarrow> bool"
  for step event s where
  nil: "impl_run step event s [] [] s"
| snoc: "impl_run step event s ls evs s' \<Longrightarrow> step s' l s'' \<Longrightarrow>
    impl_run step event s (ls @ [l]) (evs @ [event s' l]) s''"

lemma impl_run_Cons:
  "impl_run step event s' ls evs s'' \<Longrightarrow> step s l s' \<Longrightarrow> impl_run step event s (l # ls) (event s l # evs) s''"
proof (induction rule: impl_run.induct)
  case nil
  then show ?case using impl_run.snoc [OF impl_run.nil] by fastforce
next
  case (snoc ls evs s1 l' s2)
  then show ?case using impl_run.snoc [of step event s "l # ls" "event s l # evs" s1 l' s2] by simp
qed

text \<open>
  An implementation simulates the specification as long as its counters have not run out: \<open>inv n\<close> is
  its invariant after \<open>n\<close> steps, and \<open>limit\<close> bounds the steps.
\<close>

locale lease_simulation =
  fixes step :: "'s \<Rightarrow> 'l \<Rightarrow> 's \<Rightarrow> bool"
    and event :: "'s \<Rightarrow> 'l \<Rightarrow> event"
    and abs :: "'s \<Rightarrow> spec"
    and inv :: "nat \<Rightarrow> 's \<Rightarrow> bool"
    and limit :: nat
  assumes inv_step: "inv n s \<Longrightarrow> n < limit \<Longrightarrow> step s l s' \<Longrightarrow> inv (Suc n) s'"
    and sim_step: "inv n s \<Longrightarrow> n < limit \<Longrightarrow> step s l s' \<Longrightarrow> spec_step (abs s) (event s l) (abs s')"
    and inv_leases: "inv n s \<Longrightarrow> leases_sound (abs s)"
begin

lemma run_simulates:
  assumes "impl_run step event s ls evs s'" and "inv n s" and "n + length ls \<le> limit"
  shows "inv (n + length ls) s' \<and> spec_run (abs s) evs (abs s')"
  using assms
proof (induction rule: impl_run.induct)
  case nil
  then show ?case by (simp add: spec_run.nil)
next
  case (snoc ls evs s' l s'')
  then have IH: "inv (n + length ls) s'" "spec_run (abs s) evs (abs s')" by simp_all
  moreover have lt: "n + length ls < limit" using snoc.prems by simp
  ultimately show ?case
    using inv_step [OF IH(1) lt snoc.hyps(2)] sim_step [OF IH(1) lt snoc.hyps(2)]
    by (auto intro: spec_run.snoc)
qed

lemma run_fifo:
  assumes "impl_run step event s ls evs s'" and "inv n s" and "n + length ls \<le> limit"
  shows "s_queue (abs s) k @ concat (map (entered k) evs)
    = concat (map (finished k) evs) @ s_queue (abs s') k"
  using run_simulates [OF assms] spec_run_fifo by blast

lemma run_stale:
  assumes "impl_run step event s ls evs s'" and "inv n s" and "n + length ls \<le> limit"
    and "tok \<in> s_issued (abs s)" and "s_holder (abs s) k \<noteq> Some (w, tok)"
  shows "s_holder (abs s') k \<noteq> Some (w, tok)"
  using run_simulates [OF assms(1-3)] spec_run_stale assms(4,5) by blast

lemma run_exclusive:
  assumes "impl_run step event s ls evs s'" and "inv n s" and "n + length ls \<le> limit"
    and "s_holder (abs s') k = Some (w, tok)" and "s_holder (abs s') k' = Some (w', tok')"
  shows "k \<noteq> k' \<Longrightarrow> tok \<noteq> tok'" and "k = k' \<Longrightarrow> w = w' \<and> tok = tok'"
proof -
  have "leases_sound (abs s')" using run_simulates [OF assms(1-3)] inv_leases by blast
  then show "k \<noteq> k' \<Longrightarrow> tok \<noteq> tok'" using assms(4,5) by (auto simp: leases_sound_def)
qed (use assms(4,5) in simp)

end

end
