(* ===== verification/Memory_System.thy ===== *)
theory Memory_System
  imports Memory_Inv Lease_Spec
begin

text \<open>
  The in-memory backend as a labelled transition system: any interleaving of calls by any number of
  producers, workers and reapers, since each call is atomic under the mutex. The system is shown to
  simulate the abstract lease queue, and the promises of the specification are read off at the
  methods of the code.
\<close>

section \<open>Calls and their steps\<close>

datatype call =
    Enq time WorkUnitKey string int
  | Cla "WorkUnitKey list" time WorkerID duration
  | Dra ClaimedUnit int
  | Ack time time ClaimedUnit int
  | Rel ClaimedUnit
  | Hbt time ClaimedUnit duration
  | Fai time ClaimedUnit int string
  | Rea "WorkUnitKey list" time

text \<open>The state a call leaves behind.\<close>

fun exec :: "call \<Rightarrow> memory \<Rightarrow> memory" where
  "exec (Enq now k p cost) b = snd (mem_Enqueue now k p cost b)"
| "exec (Cla ord now w d) b = snd (mem_Claim ord now w d b)"
| "exec (Dra c n) b = snd (mem_Drain c n b)"
| "exec (Ack now now' c th) b = snd (mem_Ack now now' c th b)"
| "exec (Rel c) b = snd (mem_Release c b)"
| "exec (Hbt now c d) b = snd (mem_Heartbeat now c d b)"
| "exec (Fai now c seq reason) b = snd (mem_Fail now c seq reason b)"
| "exec (Rea ord now) b = snd (mem_ReapExpired ord now b)"

text \<open>
  A call that can happen: ranging over the map visits every unit once, workers are named, and claims
  handed back are ones a named worker got.
\<close>

fun possible :: "memory \<Rightarrow> call \<Rightarrow> bool" where
  "possible b (Cla ord now w d) = (range_order b ord \<and> w \<noteq> '''')"
| "possible b (Rea ord now) = range_order b ord"
| "possible b (Enq now k p cost) = True"
| "possible b (Dra c n) = (Worker c \<noteq> '''')"
| "possible b (Ack now now' c th) = (Worker c \<noteq> '''')"
| "possible b (Rel c) = (Worker c \<noteq> '''')"
| "possible b (Hbt now c d) = (Worker c \<noteq> '''')"
| "possible b (Fai now c seq reason) = (Worker c \<noteq> '''')"

inductive mem_step :: "memory \<Rightarrow> call \<Rightarrow> memory \<Rightarrow> bool" where
  call: "possible b cl \<Longrightarrow> mem_step b cl (exec cl b)"

inductive_simps mem_step_iff: "mem_step b cl b'"

section \<open>The abstraction\<close>

definition queue_of :: "(WorkUnitKey \<rightharpoonup> wunit) \<Rightarrow> WorkUnitKey \<Rightarrow> Task list" where
  "queue_of m k = (case m k of None \<Rightarrow> [] | Some u \<Rightarrow> tasks u)"

definition holder_of :: "(WorkUnitKey \<rightharpoonup> wunit) \<Rightarrow> WorkUnitKey \<Rightarrow> (WorkerID \<times> LeaseToken) option" where
  "holder_of m k =
    (case m k of None \<Rightarrow> None | Some u \<Rightarrow> if claimedBy u = '''' then None else Some (claimedBy u, lease u))"

abbreviation mem_pending :: "memory \<Rightarrow> WorkUnitKey \<Rightarrow> Task list" where
  "mem_pending b \<equiv> queue_of (units b)"

abbreviation mem_holder :: "memory \<Rightarrow> WorkUnitKey \<Rightarrow> (WorkerID \<times> LeaseToken) option" where
  "mem_holder b \<equiv> holder_of (units b)"

definition issued_upto :: "int \<Rightarrow> LeaseToken set" where
  "issued_upto n = {lease_token w i | w i. 1 \<le> i \<and> i \<le> n}"

definition mem_abs :: "memory \<Rightarrow> spec" where
  "mem_abs b = \<lparr> s_queue = mem_pending b, s_holder = mem_holder b, s_issued = issued_upto (leaseCounter b),
     s_dead = map (\<lambda>d. (dl_Key d, dl_Task d)) (dlq b) \<rparr>"

lemma mem_abs_fields [simp]:
  "s_queue (mem_abs b) = mem_pending b" "s_holder (mem_abs b) = mem_holder b"
  "s_issued (mem_abs b) = issued_upto (leaseCounter b)"
  "s_dead (mem_abs b) = map (\<lambda>d. (dl_Key d, dl_Task d)) (dlq b)"
  by (simp_all add: mem_abs_def)

fun mem_event :: "memory \<Rightarrow> call \<Rightarrow> event" where
  "mem_event b (Enq now k p cost) =
    (case fst (mem_Enqueue now k p cost b) of
       Ok seq \<Rightarrow> EvEnqueue k \<lparr>Seq = seq, Payload = p, Cost = cost\<rparr> | _ \<Rightarrow> EvNone)"
| "mem_event b (Cla ord now w d) =
    (case fst (mem_Claim ord now w d b) of
       Ok (Some c) \<Rightarrow> EvClaim (Key c) (Worker c) (Lease c) | _ \<Rightarrow> EvNone)"
| "mem_event b (Dra c n) = EvNone"
| "mem_event b (Ack now now' c th) =
    (case fst (mem_Ack now now' c th b) of
       Ok h \<Rightarrow> EvAck (Key c) (Worker c) (Lease c) (acked th (mem_pending b (Key c))) h | _ \<Rightarrow> EvNone)"
| "mem_event b (Rel c) =
    (case fst (mem_Release c b) of Ok _ \<Rightarrow> EvRelease (Key c) (Worker c) (Lease c) | _ \<Rightarrow> EvNone)"
| "mem_event b (Hbt now c d) = EvNone"
| "mem_event b (Fai now c seq reason) =
    (case mem_Fail now c seq reason b of
       (Ok _, b') \<Rightarrow> EvFail (Key c) (Worker c) (Lease c)
          (if length (dlq b) < length (dlq b') then Some (dl_Task (last (dlq b'))) else None)
     | _ \<Rightarrow> EvNone)"
| "mem_event b (Rea ord now) = EvExpire {k. unit_is (expired now) (units b) k}"

section \<open>Each call simulates its specification step\<close>

lemma queue_of_simps [simp]:
  "queue_of (m(k \<mapsto> u)) = (queue_of m)(k := tasks u)" "queue_of (m(k := None)) = (queue_of m)(k := [])"
  "m k = None \<Longrightarrow> queue_of m k = []" "m k = Some u \<Longrightarrow> queue_of m k = tasks u"
  by (auto simp: queue_of_def fun_eq_iff)

lemma holder_of_simps [simp]:
  "holder_of (m(k \<mapsto> u)) = (holder_of m)(k := if claimedBy u = '''' then None else Some (claimedBy u, lease u))"
  "holder_of (m(k := None)) = (holder_of m)(k := None)"
  "m k = None \<Longrightarrow> holder_of m k = None"
  "m k = Some u \<Longrightarrow> holder_of m k = (if claimedBy u = '''' then None else Some (claimedBy u, lease u))"
  by (auto simp: holder_of_def fun_eq_iff)

lemma mem_holder_held:
  "Worker c \<noteq> '''' \<Longrightarrow> mem_holder b (Key c) = Some (Worker c, Lease c) \<longleftrightarrow> (\<exists>u. held b c = Ok u)"
  by (auto simp: holder_of_def held_Ok_iff split: option.splits)

lemma sim_Enq:
  assumes "mem_inv b"
  shows "spec_step (mem_abs b) (mem_event b (Enq now k p cost)) (mem_abs (exec (Enq now k p cost) b))"
proof -
  let ?u = "case units b k of None \<Rightarrow> new_unit k (defThreshold b) (defMaxWait b) | Some u \<Rightarrow> u"
  let ?t = "\<lparr>Seq = nextSeq ?u, Payload = p, Cost = cost\<rparr>"
  have q: "queue_of (units b) k = tasks ?u" by (simp split: option.split)
  have lt: "Seq t' < nextSeq ?u" if "t' \<in> set (queue_of (units b) k)" for t'
  proof -
    from that obtain u where u: "units b k = Some u" "t' \<in> set (tasks u)"
      by (cases "units b k") auto
    from mem_invD(4) [OF assms u(1)] have "map Seq (tasks u) = [nextSeq u - int (length (tasks u))..nextSeq u - 1]"
      by (simp add: wf_unit_def)
    then have "Seq t' \<in> set [nextSeq u - int (length (tasks u))..nextSeq u - 1]"
      using u(2) by (metis image_eqI list.set_map)
    with u(1) show ?thesis by simp
  qed
  have "holder_of (units b) k = (if claimedBy ?u = '''' then None else Some (claimedBy ?u, lease ?u))"
    by (simp split: option.split)
  then have st: "mem_abs (exec (Enq now k p cost) b)
      = (mem_abs b)\<lparr>s_queue := (s_queue (mem_abs b))(k := s_queue (mem_abs b) k @ [?t])\<rparr>"
    by (simp add: mem_Enqueue_def mem_abs_def q fun_upd_idem Let_def)
  have ev: "mem_event b (Enq now k p cost) = EvEnqueue k ?t" by (simp add: mem_Enqueue_def Let_def)
  from lt show ?thesis unfolding ev st by (intro spec_step.enqueue) (simp add: mem_abs_def)
qed

lemma issued_upto_fresh: "0 \<le> n \<Longrightarrow> lease_token w (n + 1) \<notin> issued_upto n"
  using lease_token_inj by (fastforce simp: issued_upto_def)

lemma issued_upto_insert:
  assumes "0 \<le> n"
  shows "insert (lease_token w (n + 1)) (issued_upto n) \<subseteq> issued_upto (n + 1)"
proof -
  have "lease_token w' i \<in> issued_upto (n + 1)" if "1 \<le> i" "i \<le> n + 1" for w' i
    unfolding issued_upto_def using that by blast
  with assms show ?thesis by (auto simp: issued_upto_def [of n])
qed

lemma sim_Cla:
  assumes "mem_inv b" and "range_order b ord" and "w \<noteq> ''''" and "leaseCounter b < 2 ^ 63 - 1"
  shows "spec_step (mem_abs b) (mem_event b (Cla ord now w d)) (mem_abs (exec (Cla ord now w d) b))"
proof (cases "claim_scan (units b) ord None")
  case None
  then show ?thesis by (simp add: mem_Claim_def spec_step.stutter)
next
  case (Some ku)
  obtain k u where ku: "ku = (k, u)" by (cases ku)
  with Some have u: "units b k = Some u" "claimable u" using claim_scan_Some by blast+
  have n: "i64 (leaseCounter b + 1) = leaseCounter b + 1" "0 \<le> leaseCounter b"
    using assms mem_invD(2) [OF assms(1)] by (simp_all add: i64_id)
  let ?tok = "lease_token w (leaseCounter b + 1)"
  have "key u = k" using mem_invD(4) [OF assms(1) u(1)] by (simp add: wf_unit_def)
  with Some ku n(1) have ev: "mem_event b (Cla ord now w d) = EvClaim k w ?tok"
    by (simp add: mem_Claim_def Let_def)
  have st: "mem_abs (exec (Cla ord now w d) b)
      = (mem_abs b)\<lparr>s_holder := (s_holder (mem_abs b))(k \<mapsto> (w, ?tok)), s_issued := issued_upto (leaseCounter b + 1)\<rparr>"
    using Some ku n(1) u(1) assms(3) by (simp add: mem_Claim_def Let_def mem_abs_def fun_upd_idem)
  show ?thesis
    unfolding ev st using u issued_upto_fresh [OF n(2)] issued_upto_insert [OF n(2)]
    by (intro spec_step.claim) (simp_all add: mem_abs_def claimable_def)
qed

lemma sim_Ack:
  assumes inv: "mem_inv b" and w: "Worker c \<noteq> ''''"
  shows "spec_step (mem_abs b) (mem_event b (Ack now now' c th)) (mem_abs (exec (Ack now now' c th) b))"
proof (cases rule: held_cases [of b c])
  case lost
  then show ?thesis by (simp add: mem_Ack_def spec_step.stutter)
next
  case (ok u)
  then have u: "units b (Key c) = Some u" "claimedBy u = Worker c" "lease u = Lease c"
    by (simp_all add: held_Ok_iff)
  note wf = mem_invD(4) [OF inv u(1)]
  let ?k = "Key c" and ?i = "length (acked th (tasks u))"
  have split: "tasks u = acked th (tasks u) @ unacked th (tasks u)" by simp
  have rest: "unacked th (tasks u) = drop ?i (tasks u)" by (rule dropWhile_eq_drop_takeWhile)
  have step: "spec_step (mem_abs b) (EvAck ?k (Worker c) (Lease c) (acked th (tasks u)) kept)
      ((mem_abs b)\<lparr>s_queue := (mem_pending b)(?k := unacked th (tasks u)),
         s_holder := (mem_holder b)(?k := if kept then Some (Worker c, Lease c) else None)\<rparr>)"
    if "kept \<Longrightarrow> unacked th (tasks u) \<noteq> []" for kept
    using spec_step.ack [of "mem_abs b" ?k "Worker c" "Lease c" _ _ kept] u w split that
    by (simp add: mem_abs_def)
  show ?thesis
  proof (cases "?i = length (tasks u)")
    case True
    then have "unacked th (tasks u) = []" by (simp add: rest)
    with True step [of False] u(1) show ?thesis
      by (simp add: mem_Ack_held [OF ok wf] mem_abs_def)
  next
    case False
    then have i: "?i < length (tasks u)" by (meson le_neq_implies_less length_takeWhile_le)
    from recompute_drop_head [OF wf i, of now]
    obtain v where v: "recompute now (drop_head ?i u) = Some v" "tasks v = unacked th (tasks u)"
      "claimedBy v = Worker c" "lease v = Lease c" using rest u by metis
    have ne: "unacked th (tasks u) \<noteq> []" using i rest by simp
    show ?thesis
      using False v step [of "eligible v"] ne u(1) w
      by (cases "eligible v") (simp_all add: mem_Ack_held [OF ok wf] mem_abs_def)
  qed
qed

lemma sim_Rel:
  assumes "Worker c \<noteq> ''''"
  shows "spec_step (mem_abs b) (mem_event b (Rel c)) (mem_abs (exec (Rel c) b))"
proof (cases rule: held_cases [of b c])
  case lost
  then show ?thesis by (simp add: mem_Release_def spec_step.stutter)
next
  case (ok u)
  then have u: "units b (Key c) = Some u" by (simp add: held_Ok_iff)
  from ok have ev: "mem_event b (Rel c) = EvRelease (Key c) (Worker c) (Lease c)" by (simp add: mem_Release_def)
  from ok u have st: "mem_abs (exec (Rel c) b) = (mem_abs b)\<lparr>s_holder := (s_holder (mem_abs b))(Key c := None)\<rparr>"
    by (simp add: mem_Release_def mem_abs_def fun_upd_idem)
  from ok assms show ?thesis
    unfolding ev st by (intro spec_step.release) (simp add: mem_abs_def held_Ok_iff)
qed

lemma sim_Hbt: "mem_abs (exec (Hbt now c d) b) = mem_abs b"
proof (cases rule: held_cases [of b c])
  case (ok u)
  then have u: "units b (Key c) = Some u" by (simp add: held_Ok_iff)
  with ok show ?thesis by (simp add: mem_Heartbeat_def mem_abs_def fun_upd_idem)
qed (simp add: mem_Heartbeat_def)

lemma sim_Fai:
  assumes inv: "mem_inv b" and w: "Worker c \<noteq> ''''"
  shows "spec_step (mem_abs b) (mem_event b (Fai now c seq reason)) (mem_abs (exec (Fai now c seq reason) b))"
proof (cases rule: held_cases [of b c])
  case lost
  then show ?thesis by (simp add: mem_Fail_def spec_step.stutter)
next
  case (ok u)
  then have u: "units b (Key c) = Some u" "claimedBy u = Worker c" "lease u = Lease c"
    by (simp_all add: held_Ok_iff)
  note wf = mem_invD(4) [OF inv u(1)]
  obtain t ts where ts: "tasks u = t # ts" using wf by (cases "tasks u") (auto simp: wf_unit_def)
  have hold: "s_holder (mem_abs b) (Key c) = Some (Worker c, Lease c)" using u w by (simp add: mem_abs_def)
  have q: "s_queue (mem_abs b) (Key c) = t # ts" using u ts by (simp add: mem_abs_def)
  show ?thesis
  proof (cases "maxAttempts b \<le> i64 (attempts u + 1) \<and> Seq (hd (tasks u)) = seq")
    case False
    note eq = mem_Fail_retry [OF ok wf False, of now reason]
    have ev: "mem_event b (Fai now c seq reason) = EvFail (Key c) (Worker c) (Lease c) None"
      by (simp add: eq)
    have st: "mem_abs (exec (Fai now c seq reason) b)
        = (mem_abs b)\<lparr>s_holder := (s_holder (mem_abs b))(Key c := None)\<rparr>"
      using u by (simp add: eq mem_abs_def fun_upd_idem)
    show ?thesis unfolding ev st by (rule spec_step.retry [OF hold])
  next
    case True
    from mem_Fail_poison [OF ok wf True, of now reason] obtain u' where
      eq: "mem_Fail now c seq reason b =
        (Ok (), b\<lparr>dlq := dlq b @ [\<lparr>dl_Key = Key c, dl_Task = hd (tasks u), dl_Reason = reason\<rparr>],
                  units := (units b)(Key c := u')\<rparr>)"
      and u': "queue_of ((units b)(Key c := u')) = (mem_pending b)(Key c := ts)"
        "holder_of ((units b)(Key c := u')) = (mem_holder b)(Key c := None)"
      using ts by (fastforce split: if_splits)
    have ev: "mem_event b (Fai now c seq reason) = EvFail (Key c) (Worker c) (Lease c) (Some t)"
      using ts by (simp add: eq)
    have st: "mem_abs (exec (Fai now c seq reason) b)
        = (mem_abs b)\<lparr>s_queue := (s_queue (mem_abs b))(Key c := ts),
             s_holder := (s_holder (mem_abs b))(Key c := None), s_dead := s_dead (mem_abs b) @ [(Key c, t)]\<rparr>"
      using ts by (simp add: eq u' mem_abs_def)
    show ?thesis unfolding ev st by (rule spec_step.poison [OF hold q])
  qed
qed

lemma sim_Rea:
  assumes "range_order b ord"
  shows "spec_step (mem_abs b) (mem_event b (Rea ord now)) (mem_abs (exec (Rea ord now) b))"
proof -
  have q: "queue_of (\<lambda>k. map_option (reaped now) (units b k)) = mem_pending b"
    by (auto simp: queue_of_def fun_eq_iff split: option.split)
  have h: "holder_of (\<lambda>k. map_option (reaped now) (units b k))
      = (\<lambda>k. if k \<in> {k. unit_is (expired now) (units b) k} then None else mem_holder b k)"
    by (auto simp: holder_of_def fun_eq_iff unit_is_def expired_def split: option.splits)
  have st: "mem_abs (exec (Rea ord now) b) = (mem_abs b)\<lparr>s_holder :=
      (\<lambda>k. if k \<in> {k. unit_is (expired now) (units b) k} then None else s_holder (mem_abs b) k)\<rparr>"
    using assms by (simp add: mem_ReapExpired_eq mem_abs_def q h cong: if_cong)
  show ?thesis unfolding st mem_event.simps by (rule spec_step.expire)
qed

text \<open>A call in whose state the counter it advances, if any, has not reached its last value.\<close>

fun has_room :: "memory \<Rightarrow> call \<Rightarrow> bool" where
  "has_room b (Enq now k p cost) = seq_room b k"
| "has_room b (Cla ord now w d) = (leaseCounter b < 2 ^ 63 - 1)"
| "has_room b _ = True"

lemma mem_inv_call: "mem_inv b \<Longrightarrow> possible b cl \<Longrightarrow> has_room b cl \<Longrightarrow> mem_inv (exec cl b)"
  by (cases cl) (simp_all add: inv_intros)

lemma sim_call:
  assumes "mem_inv b" and "possible b cl" and "has_room b cl"
  shows "spec_step (mem_abs b) (mem_event b cl) (mem_abs (exec cl b))"
proof (cases cl)
  case (Dra c n)
  then show ?thesis by (simp add: spec_step.stutter)
next
  case (Hbt now c d)
  then show ?thesis using sim_Hbt [of now c d b] by (simp add: spec_step.stutter)
qed (use assms sim_Enq sim_Cla sim_Ack sim_Rel sim_Fai sim_Rea in auto)

section \<open>Counters\<close>

text \<open>After \<open>n\<close> calls no sequence counter and no lease counter exceeds \<open>n\<close>.\<close>

definition seqs_le :: "int \<Rightarrow> (WorkUnitKey \<rightharpoonup> wunit) \<Rightarrow> bool" where
  "seqs_le n m \<longleftrightarrow> (\<forall>k u. m k = Some u \<longrightarrow> nextSeq u \<le> n)"

definition mem_ok :: "nat \<Rightarrow> memory \<Rightarrow> bool" where
  "mem_ok n b \<longleftrightarrow> mem_inv b \<and> leaseCounter b \<le> int n \<and> seqs_le (int n) (units b)"

lemma seqs_le_simps [simp]:
  "seqs_le n m \<Longrightarrow> nextSeq u \<le> n \<Longrightarrow> seqs_le n (m(k \<mapsto> u))"
  "seqs_le n m \<Longrightarrow> seqs_le n (m(k := None))"
  by (auto simp: seqs_le_def)

lemma seqs_leD: "seqs_le n m \<Longrightarrow> m k = Some u \<Longrightarrow> nextSeq u \<le> n"
  by (simp add: seqs_le_def)

lemma seqs_le_Ack:
  assumes inv: "mem_inv b" and le: "seqs_le n (units b)"
  shows "seqs_le n (units (exec (Ack now now' c th) b))"
proof (cases rule: held_cases [of b c])
  case lost
  then show ?thesis using le by (simp add: mem_Ack_def)
next
  case (ok u)
  then have u: "units b (Key c) = Some u" by (simp add: held_Ok_iff)
  note wf = mem_invD(4) [OF inv u]
  let ?i = "length (acked th (tasks u))"
  show ?thesis
  proof (cases "?i = length (tasks u)")
    case True
    then show ?thesis using le by (simp add: mem_Ack_held [OF ok wf])
  next
    case False
    then have "?i < length (tasks u)" by (meson le_neq_implies_less length_takeWhile_le)
    from recompute_drop_head [OF wf this, of now]
    obtain v where "recompute now (drop_head ?i u) = Some v" "nextSeq v = nextSeq u" by blast
    with False le seqs_leD [OF le u] show ?thesis by (simp add: mem_Ack_held [OF ok wf])
  qed
qed

lemma seqs_le_Fai:
  assumes inv: "mem_inv b" and le: "seqs_le n (units b)"
  shows "seqs_le n (units (exec (Fai now c seq reason) b))"
proof (cases rule: held_cases [of b c])
  case lost
  then show ?thesis using le by (simp add: mem_Fail_def)
next
  case (ok u)
  then have u: "units b (Key c) = Some u" by (simp add: held_Ok_iff)
  note wf = mem_invD(4) [OF inv u]
  show ?thesis
  proof (cases "maxAttempts b \<le> i64 (attempts u + 1) \<and> Seq (hd (tasks u)) = seq")
    case False
    then show ?thesis using le seqs_leD [OF le u] by (simp add: mem_Fail_retry [OF ok wf False])
  next
    case True
    from mem_Fail_poison [OF ok wf True, of now reason] show ?thesis
      using le seqs_leD [OF le u] by (auto split: if_splits)
  qed
qed

lemma seqs_le_held_upd:
  assumes "held b c = Ok u" and "seqs_le n (units b)" and "nextSeq v = nextSeq u"
  shows "seqs_le n ((units b)(Key c \<mapsto> v))"
  using assms seqs_leD [OF assms(2), of "Key c" u] by (simp add: held_Ok_iff)

lemma seqs_le_call:
  assumes "mem_inv b" and "possible b cl" and le: "seqs_le (int n) (units b)" and "int n < 2 ^ 63 - 1"
  shows "seqs_le (int (Suc n)) (units (exec cl b))"
proof -
  have mono: "seqs_le (int (Suc n)) m" if "seqs_le (int n) m" for m
    using that by (fastforce simp: seqs_le_def)
  show ?thesis
  proof (cases cl)
    case (Enq now k p cost)
    have "i64 (nextSeq u + 1) \<le> 1 + int n" if "units b k = Some u" for u
      using seqs_leD [OF le that] mem_invD(4) [OF assms(1) that] assms(4) by (simp add: i64_id wf_unit_def)
    with Enq mono [OF le] show ?thesis by (auto simp: mem_Enqueue_def i64_id split: option.split)
  next
    case (Cla ord now w d)
    show ?thesis
    proof (cases "claim_scan (units b) ord None")
      case (Some ku)
      then obtain k u where "ku = (k, u)" "units b k = Some u" using claim_scan_Some by (metis prod.collapse option.distinct(1))
      with Some Cla mono [OF le] seqs_leD [OF mono [OF le], of k u] show ?thesis
        by (simp add: mem_Claim_def Let_def)
    qed (use Cla mono [OF le] in \<open>simp add: mem_Claim_def\<close>)
  next
    case (Rel c)
    then show ?thesis using mono le seqs_le_held_upd [of b c]
      by (cases rule: held_cases [of b c]) (auto simp: mem_Release_def)
  next
    case (Hbt now c d)
    then show ?thesis using mono le seqs_le_held_upd [of b c]
      by (cases rule: held_cases [of b c]) (auto simp: mem_Heartbeat_def)
  next
    case (Rea ord now)
    with assms(2) mono [OF le] show ?thesis by (auto simp: mem_ReapExpired_eq seqs_le_def)
  qed (use assms(1) le mono seqs_le_Ack seqs_le_Fai in auto)
qed

lemma mem_ok_room:
  assumes "mem_ok n b" and "n < 2 ^ 63 - 1"
  shows "has_room b cl"
proof -
  have "int n < 2 ^ 63 - 1" using assms(2) by simp
  with assms(1) show ?thesis
    by (cases cl) (fastforce simp: mem_ok_def seq_room_def seqs_le_def split: option.split)+
qed

lemma mem_ok_step:
  assumes "mem_ok n b" and "n < 2 ^ 63 - 1" and "mem_step b cl b'"
  shows "mem_ok (Suc n) b'"
proof -
  from assms(1,3) have inv: "mem_inv b" and p: "possible b cl" and b': "b' = exec cl b"
    and lc: "leaseCounter b \<le> int n" and le: "seqs_le (int n) (units b)"
    by (simp_all add: mem_ok_def mem_step_iff)
  have n: "int n < 2 ^ 63 - 1" using assms(2) by simp
  have "mem_inv (exec cl b)" using mem_inv_call [OF inv p mem_ok_room [OF assms(1,2)]] .
  moreover have "leaseCounter (exec cl b) \<le> int (Suc n)"
  proof (cases cl)
    case (Cla ord now w d)
    with lc n mem_invD(2) [OF inv] show ?thesis
      by (auto simp: mem_Claim_def Let_def i64_id split: option.split)
  qed (use lc mem_inv_Ack(1) in \<open>auto simp: op_defs Let_def split: option.split result.split prod.split\<close>)
  ultimately show ?thesis
    using seqs_le_call [OF inv p le n] b' by (simp add: mem_ok_def)
qed

section \<open>The simulation\<close>

lemma mem_ok_New: "mem_ok 0 (mem_New opt)"
  by (simp add: mem_ok_def mem_inv_New) (simp add: mem_New_def seqs_le_def)

lemma mem_abs_New: "mem_abs (mem_New opt)
    = \<lparr>s_queue = (\<lambda>_. []), s_holder = Map.empty, s_issued = {}, s_dead = []\<rparr>"
  by (auto simp: mem_abs_def mem_New_def queue_of_def holder_of_def issued_upto_def fun_eq_iff)

lemma mem_leases_sound:
  assumes "mem_inv b"
  shows "leases_sound (mem_abs b)"
proof -
  have "tok \<in> issued_upto (leaseCounter b)" if "mem_holder b k = Some (w, tok)" for k w tok
  proof -
    from that obtain u where u: "units b k = Some u" "claimedBy u \<noteq> ''''" "lease u = tok"
      by (auto simp: holder_of_def split: option.splits if_splits)
    with mem_invD(5) [OF assms u(1)] show ?thesis by (auto simp: lease_ok_def issued_upto_def)
  qed
  moreover have "k = k'" if "mem_holder b k = Some (w, tok)" "mem_holder b k' = Some (w', tok)" for k k' w w' tok
  proof (rule ccontr)
    assume "k \<noteq> k'"
    from that obtain u u' where u: "units b k = Some u" "units b k' = Some u'" "lease u = tok" "lease u' = tok"
      "claimedBy u \<noteq> ''''" by (auto simp: holder_of_def split: option.splits if_splits)
    with \<open>k \<noteq> k'\<close> mem_invD(3) [OF assms] have "lease u = ''''" by (auto simp: leases_distinct_def)
    with mem_invD(5) [OF assms u(1)] u(5) show False by (auto simp: lease_ok_def)
  qed
  ultimately show ?thesis by (auto simp: leases_sound_def)
qed

lemma sim_call_ok: "mem_ok n b \<Longrightarrow> n < 2 ^ 63 - 1 \<Longrightarrow> possible b cl
    \<Longrightarrow> spec_step (mem_abs b) (mem_event b cl) (mem_abs (exec cl b))"
  by (rule sim_call) (simp_all add: mem_ok_room, simp add: mem_ok_def)

interpretation mem: lease_simulation mem_step mem_event mem_abs mem_ok "2 ^ 63 - 1"
  by unfold_locales (auto simp: mem_ok_step mem_step_iff sim_call_ok, auto simp: mem_ok_def mem_leases_sound)

abbreviation mem_run :: "memory \<Rightarrow> call list \<Rightarrow> event list \<Rightarrow> memory \<Rightarrow> bool" where
  "mem_run \<equiv> impl_run mem_step mem_event"

section \<open>Runs computed from their calls\<close>

fun execs :: "call list \<Rightarrow> memory \<Rightarrow> memory" where
  "execs [] b = b"
| "execs (cl # cls) b = execs cls (exec cl b)"

fun run_events :: "memory \<Rightarrow> call list \<Rightarrow> event list" where
  "run_events b [] = []"
| "run_events b (cl # cls) = mem_event b cl # run_events (exec cl b) cls"

fun feasible :: "memory \<Rightarrow> call list \<Rightarrow> bool" where
  "feasible b [] = True"
| "feasible b (cl # cls) = (possible b cl \<and> feasible (exec cl b) cls)"

lemma mem_run_execs: "feasible b cls \<Longrightarrow> mem_run b cls (run_events b cls) (execs cls b)"
  by (induction cls arbitrary: b) (auto intro: impl_run.nil impl_run_Cons mem_step.call)

lemma mem_run_unique: "mem_run b cls evs b' \<Longrightarrow> b' = execs cls b \<and> evs = run_events b cls"
proof (induction rule: impl_run.induct)
  case (snoc ls evs s' l s'')
  have "execs (xs @ [x]) c = exec x (execs xs c)" "run_events c (xs @ [x]) = run_events c xs @ [mem_event (execs xs c) x]"
    for xs x c by (induction xs arbitrary: c) simp_all
  with snoc show ?case by (simp add: mem_step_iff)
qed simp

end
