(* ===== verification/Memory_Gate.thy ===== *)
theory Memory_Gate
  imports Memory_System
begin

text \<open>
  The cost gate of the in-memory backend: when a unit may be claimed. A call changes the part of a
  unit the gate reads in one of four ways (\<open>exec_unit_cases\<close>), and each keeps the gate: a unit at or
  above its threshold is eligible, and an eligible unit is at or above its threshold or its oldest
  task has waited for the age cap.
\<close>

section \<open>What a call does to a unit\<close>

text \<open>A unit without its lease and its failure count.\<close>

definition core :: "wunit \<Rightarrow> wunit" where
  "core u = u\<lparr>claimedBy := '''', lease := '''', leaseDur := 0, leaseExpires := 0, attempts := 0\<rparr>"

lemma core_eqD:
  assumes "core v = core u"
  shows "key v = key u" "tasks v = tasks u" "enqAt v = enqAt u" "nextSeq v = nextSeq u"
    "pendingCost v = pendingCost u" "threshold v = threshold u" "maxWait v = maxWait u"
    "oldestPending v = oldestPending u" "flushDeadline v = flushDeadline u" "eligible v = eligible u"
  using assms by (cases u, cases v, simp add: core_def)+

lemma core_upds [simp]:
  "core (u\<lparr>claimedBy := w\<rparr>) = core u" "core (u\<lparr>lease := l\<rparr>) = core u" "core (u\<lparr>leaseDur := d\<rparr>) = core u"
  "core (u\<lparr>leaseExpires := e\<rparr>) = core u"
  "core (u\<lparr>attempts := a\<rparr>) = core u"
  by (simp_all add: core_def)

text \<open>The clock readings of a call.\<close>

fun clocks :: "call \<Rightarrow> time set" where
  "clocks (Enq now k p cost) = {now}"
| "clocks (Cla ord now w d) = {now}"
| "clocks (Dra c n) = {}"
| "clocks (Ack now now' c th) = {now, now'}"
| "clocks (Rel c) = {}"
| "clocks (Hbt now c d) = {now}"
| "clocks (Fai now c seq reason) = {now}"
| "clocks (Rea ord now) = {now}"

definition core_change :: "call \<Rightarrow> WorkUnitKey \<Rightarrow> wunit \<Rightarrow> wunit \<Rightarrow> bool" where
  "core_change cl k u v \<longleftrightarrow>
     core v = core u \<or>
     (\<exists>now p c. cl = Enq now k p c \<and> core v = core (enqueue_unit now p c u)) \<or>
     (\<exists>now \<in> clocks cl. \<exists>i u'. i < length (tasks u) \<and> recompute now (drop_head i u) = Some u' \<and> core v = core u') \<or>
     (\<exists>now \<in> clocks cl. core v = core (reaped now u))"

lemma core_change_same: "core v = core u \<Longrightarrow> core_change cl k u v"
  by (simp add: core_change_def)

lemma exec_Ack_unit:
  assumes "mem_inv b" and "held b c = Ok u"
  shows "units (exec (Ack now now' c th) b) (Key c) = Some v \<Longrightarrow> core_change (Ack now now' c th) (Key c) u v"
    and "k \<noteq> Key c \<Longrightarrow> units (exec (Ack now now' c th) b) k = units b k"
proof -
  have wf: "wf_unit (Key c) u" using mem_invD(4) [OF assms(1)] assms(2) by (simp add: held_Ok_iff)
  note eq = mem_Ack_held [OF assms(2) wf, of now now' th]
  let ?i = "length (acked th (tasks u))"
  show "k \<noteq> Key c \<Longrightarrow> units (exec (Ack now now' c th) b) k = units b k"
    by (simp add: eq split: option.split)
  assume v: "units (exec (Ack now now' c th) b) (Key c) = Some v"
  show "core_change (Ack now now' c th) (Key c) u v"
  proof (cases "?i = length (tasks u)")
    case True
    with v show ?thesis by (simp add: eq)
  next
    case False
    then have i: "?i < length (tasks u)" by (meson le_neq_implies_less length_takeWhile_le)
    from recompute_drop_head [OF wf i, of now] obtain u' where u': "recompute now (drop_head ?i u) = Some u'"
      by blast
    with v False have "core v = core u'" by (auto simp: eq split: if_splits)
    with u' i show ?thesis unfolding core_change_def by auto
  qed
qed

lemma exec_Fai_unit:
  assumes "mem_inv b" and "held b c = Ok u"
  shows "units (exec (Fai now c seq reason) b) (Key c) = Some v \<Longrightarrow> core_change (Fai now c seq reason) (Key c) u v"
    and "k \<noteq> Key c \<Longrightarrow> units (exec (Fai now c seq reason) b) k = units b k"
proof -
  have wf: "wf_unit (Key c) u" using mem_invD(4) [OF assms(1)] assms(2) by (simp add: held_Ok_iff)
  have "(units (exec (Fai now c seq reason) b) (Key c) = Some v \<longrightarrow> core_change (Fai now c seq reason) (Key c) u v)
     \<and> (k \<noteq> Key c \<longrightarrow> units (exec (Fai now c seq reason) b) k = units b k)"
  proof (cases "maxAttempts b \<le> i64 (attempts u + 1) \<and> Seq (hd (tasks u)) = seq")
    case False
    note eq = mem_Fail_retry [OF assms(2) wf False, of now reason]
    show ?thesis by (auto simp: eq intro!: core_change_same)
  next
    case True
    from mem_Fail_poison [OF assms(2) wf True, of now reason] obtain u' where
      eq: "units (exec (Fai now c seq reason) b) = (units b)(Key c := u')"
      and u': "u' = Some v \<Longrightarrow> tl (tasks u) \<noteq> [] \<and>
        (\<exists>v0. recompute now (drop_head 1 u) = Some v0 \<and> v = v0\<lparr>claimedBy := '''', lease := ''''\<rparr>)"
      by (fastforce split: if_splits)
    have "core_change (Fai now c seq reason) (Key c) u v" if "u' = Some v"
    proof -
      from u' [OF that] have "1 < length (tasks u)" by (cases "tasks u") auto
      with u' [OF that] show ?thesis unfolding core_change_def by auto
    qed
    then show ?thesis by (simp add: eq del: exec.simps)
  qed
  then show "units (exec (Fai now c seq reason) b) (Key c) = Some v \<Longrightarrow> core_change (Fai now c seq reason) (Key c) u v"
    and "k \<noteq> Key c \<Longrightarrow> units (exec (Fai now c seq reason) b) k = units b k" by blast+
qed

lemma exec_unit_cases:
  assumes "mem_inv b" and "possible b cl" and v: "units (exec cl b) k = Some v"
  obtains (new) now p c where "units b k = None" "cl = Enq now k p c"
      "v = enqueue_unit now p c (new_unit k (defThreshold b) (defMaxWait b))"
    | (old) u where "units b k = Some u" "core_change cl k u v"
proof (cases cl)
  case (Enq now k' p c)
  show ?thesis
  proof (cases "k' = k")
    case True
    then show ?thesis
      using Enq v new [of now p c] old by (cases "units b k") (auto simp: mem_Enqueue_def core_change_def)
  qed (use Enq v old in \<open>auto simp: mem_Enqueue_def Let_def core_change_same\<close>)
next
  case (Cla ord now w d)
  show ?thesis
  proof (cases "claim_scan (units b) ord None")
    case (Some ku)
    obtain k' u where ku: "ku = (k', u)" by (cases ku)
    with Some have "units b k' = Some u" using claim_scan_Some by blast
    with Cla Some ku v old show ?thesis
      by (auto simp: mem_Claim_def Let_def simp: core_change_same split: if_splits)
  qed (use Cla v old in \<open>auto simp: mem_Claim_def core_change_same\<close>)
next
  case (Rea ord now)
  with assms(2) v old show ?thesis by (auto simp: mem_ReapExpired_eq core_change_def)
next
  case (Ack now now' c th)
  show ?thesis
  proof (cases rule: held_cases [of b c])
    case (ok u)
    from exec_Ack_unit [OF assms(1) ok] ok Ack v old show ?thesis
      by (cases "k = Key c") (auto simp: held_Ok_iff core_change_same simp del: exec.simps)
  qed (use Ack v old in \<open>auto simp: mem_Ack_def core_change_same\<close>)
next
  case (Fai now c seq reason)
  show ?thesis
  proof (cases rule: held_cases [of b c])
    case (ok u)
    from exec_Fai_unit [OF assms(1) ok] ok Fai v old show ?thesis
      by (cases "k = Key c") (auto simp: held_Ok_iff core_change_same simp del: exec.simps)
  qed (use Fai v old in \<open>auto simp: mem_Fail_def core_change_same\<close>)
next
  case (Rel c)
  show ?thesis using Rel v old
    by (cases rule: held_cases [of b c])
      (auto simp: mem_Release_def held_Ok_iff simp: core_change_same split: if_splits)
next
  case (Hbt now c d)
  show ?thesis using Hbt v old
    by (cases rule: held_cases [of b c])
      (auto simp: mem_Heartbeat_def held_Ok_iff simp: core_change_same split: if_splits)
qed (use v old in \<open>auto simp: core_change_same\<close>)

text \<open>No call changes the configuration.\<close>

lemma exec_config:
  assumes "mem_inv b"
  shows "defThreshold (exec cl b) = defThreshold b \<and> defMaxWait (exec cl b) = defMaxWait b \<and>
    maxAttempts (exec cl b) = maxAttempts b"
  by (cases cl) (auto simp: op_defs Let_def split: option.split result.split prod.split)

section \<open>The gate\<close>

text \<open>
  \<open>gated T\<close>: the unit is configured as the backend is; at or above the threshold it is eligible; and
  it is eligible only at or above the threshold or once its flush deadline lies in the past of \<open>T\<close>,
  the latest clock reading so far. Costs lie between 0 and \<open>C\<close>.
\<close>

definition gated :: "memory \<Rightarrow> int \<Rightarrow> time \<Rightarrow> wunit \<Rightarrow> bool" where
  "gated b C T u \<longleftrightarrow> threshold u = defThreshold b \<and> maxWait u = defMaxWait b \<and>
     (\<forall>t \<in> set (tasks u). 0 \<le> Cost t \<and> Cost t \<le> C) \<and>
     (threshold u \<le> pendingCost u \<longrightarrow> eligible u) \<and>
     (eligible u \<longrightarrow> threshold u \<le> pendingCost u \<or> flushDeadline u \<noteq> 0 \<and> flushDeadline u \<le> T)"

fun cost_in :: "int \<Rightarrow> call \<Rightarrow> bool" where
  "cost_in C (Enq now k p cost) = (0 \<le> cost \<and> cost \<le> C)"
| "cost_in C _ = True"

lemma costs_bounds:
  assumes "\<forall>t \<in> set ts. 0 \<le> Cost t \<and> Cost t \<le> C"
  shows "0 \<le> costs ts" and "costs ts \<le> C * int (length ts)"
proof -
  have "0 \<le> costs ts \<and> costs ts \<le> C * int (length ts)"
    using assms by (induction ts) (auto simp: algebra_simps)
  then show "0 \<le> costs ts" and "costs ts \<le> C * int (length ts)" by blast+
qed

text \<open>With at most \<open>n\<close> tasks in the unit its pending cost is the sum of their costs, without overflow.\<close>

lemma gated_cost:
  assumes "gated b C T u" and "wf_unit k u" and "nextSeq u \<le> int n" and "C * int n < 2 ^ 63" and "0 \<le> C"
  shows "pendingCost u = costs (tasks u)" and "0 \<le> pendingCost u" and "pendingCost u \<le> C * int n"
proof -
  have b: "0 \<le> costs (tasks u)" "costs (tasks u) \<le> C * int (length (tasks u))"
    using costs_bounds [of "tasks u" C] assms(1) by (simp_all add: gated_def)
  have "int (length (tasks u)) \<le> int n" using assms(2,3) by (simp add: wf_unit_def)
  then have "C * int (length (tasks u)) \<le> C * int n" using assms(5) by (rule mult_left_mono)
  with b assms(4) have le: "costs (tasks u) \<le> C * int n" "costs (tasks u) < 2 ^ 63" by linarith+
  with b(1) have "i64 (costs (tasks u)) = costs (tasks u)" by (intro i64_id) auto
  then show "pendingCost u = costs (tasks u)" using assms(2) by (simp add: wf_unit_def)
  with b le show "0 \<le> pendingCost u" and "pendingCost u \<le> C * int n" by simp_all
qed

lemma gated_core:
  assumes "core v = core u" and "gated b C T u"
  shows "gated b C T v"
  using assms(2) core_eqD [OF assms(1)] by (auto simp: gated_def)

lemma gated_config:
  "defThreshold b' = defThreshold b \<Longrightarrow> defMaxWait b' = defMaxWait b \<Longrightarrow> gated b' C T u = gated b C T u"
  by (simp add: gated_def)

lemma gated_mono: "gated b C T u \<Longrightarrow> T \<le> T' \<Longrightarrow> gated b C T' u"
  by (auto simp: gated_def)

lemma gated_enqueue:
  assumes "gated b C T u" and "0 \<le> c" and "c \<le> C" and "tasks u = [] \<longrightarrow> \<not> eligible u"
    and "0 \<le> pendingCost u" and "pendingCost u + c < 2 ^ 63"
  shows "gated b C T (enqueue_unit now p c u)"
proof -
  have "i64 (pendingCost u + c) = pendingCost u + c" using assms by (intro i64_id) auto
  with assms show ?thesis by (auto simp: gated_def enqueue_unit_def Let_def)
qed

lemma gated_recompute:
  assumes "gated b C T u" and "wf_unit k u" and "i < length (tasks u)" and "now \<le> T"
    and "recompute now (drop_head i u) = Some v"
  shows "gated b C T v"
proof -
  from recompute_drop_head [OF assms(2,3), of now] assms(5)
  have v: "tasks v = drop i (tasks u)" "threshold v = threshold u" "maxWait v = maxWait u"
    "eligible v \<longleftrightarrow> threshold v \<le> pendingCost v \<or> (flushDeadline v \<noteq> 0 \<and> flushDeadline v \<le> now)"
    by (metis option.inject)+
  with assms(1,4) set_drop_subset [of i "tasks u"] show ?thesis by (auto simp: gated_def)
qed

lemma gated_reaped: "gated b C T u \<Longrightarrow> now \<le> T \<Longrightarrow> gated b C T (reaped now u)"
  by (auto simp: gated_def flush_due_def)

definition gate_ok :: "int \<Rightarrow> time \<Rightarrow> memory \<Rightarrow> bool" where
  "gate_ok C T b \<longleftrightarrow> (\<forall>k u. units b k = Some u \<longrightarrow> gated b C T u)"

lemma gate_ok_step:
  assumes ok: "mem_ok n b" and n: "n < 2 ^ 63 - 1" and p: "possible b cl" and g: "gate_ok C T b"
    and C: "0 \<le> C" "C * int (Suc n) < 2 ^ 63" and c: "cost_in C cl" and T: "\<forall>now \<in> clocks cl. now \<le> T"
  shows "gate_ok C T (exec cl b)"
proof -
  have inv: "mem_inv b" using ok by (simp add: mem_ok_def)
  have lt: "C * int n < 2 ^ 63" "C * int n + C < 2 ^ 63" using C by (simp_all add: algebra_simps)
  have "gated b C T v" if v: "units (exec cl b) k = Some v" for k v
    using inv p v
  proof (cases rule: exec_unit_cases)
    case (new now q c)
    have "gated b C T (new_unit k (defThreshold b) (defMaxWait b)\<lparr>eligible := defThreshold b \<le> 0\<rparr>)"
      by (simp add: gated_def)
    with new c lt C show ?thesis by (auto simp: gated_def enqueue_unit_def Let_def i64_id)
  next
    case (old u)
    have gu: "gated b C T u" using g old(1) by (simp add: gate_ok_def)
    have wf: "wf_unit k u" using mem_invD(4) [OF inv old(1)] .
    have le: "nextSeq u \<le> int n" using ok old(1) by (simp add: mem_ok_def seqs_le_def)
    note pc = gated_cost [OF gu wf le lt(1) C(1)]
    from old(2) show ?thesis
      unfolding core_change_def
    proof (elim disjE exE bexE conjE)
      fix now q c'
      assume "cl = Enq now k q c'" and eq: "core v = core (enqueue_unit now q c' u)"
      with c have "0 \<le> c'" "c' \<le> C" by simp_all
      then show ?thesis
        using gated_enqueue [OF gu, of c'] wf pc lt(2) by (intro gated_core [OF eq]) (simp add: wf_unit_def)
    qed (use gu T wf in \<open>blast intro: gated_core gated_reaped gated_recompute\<close>)+
  qed
  then show ?thesis
    using exec_config [OF inv, of cl] by (simp add: gate_ok_def gated_config [of "exec cl b" b])
qed

lemma gate_ok_run:
  assumes "mem_run (mem_New opt) cls evs b" and "length cls \<le> 2 ^ 63 - 1"
    and "0 \<le> C" and "C * int (length cls) < 2 ^ 63"
    and "\<forall>cl \<in> set cls. cost_in C cl \<and> (\<forall>now \<in> clocks cl. now \<le> T)"
  shows "gate_ok C T b \<and> mem_ok (length cls) b \<and> defThreshold b = DefaultThreshold opt \<and>
    defMaxWait b = DefaultMaxWait opt"
  using assms(1,2,4,5)
proof (induction rule: impl_run.induct)
  case nil
  show ?case by (simp add: gate_ok_def mem_ok_New) (simp add: mem_New_def)
next
  case (snoc cls evs b cl b')
  have le: "C * int (length cls) \<le> C * int (length (cls @ [cl]))"
    using assms(3) by (intro mult_left_mono) auto
  with snoc have IH: "gate_ok C T b" "mem_ok (length cls) b" "defThreshold b = DefaultThreshold opt"
    "defMaxWait b = DefaultMaxWait opt" by auto
  have n: "length cls < 2 ^ 63 - 1" using snoc.prems(1) by simp
  have b': "b' = exec cl b" and p: "possible b cl" using snoc.hyps(2) by (simp_all add: mem_step_iff)
  have "mem_inv b" using IH(2) by (simp add: mem_ok_def)
  with gate_ok_step [OF IH(2) n p IH(1) assms(3)] snoc.prems mem_ok_step [OF IH(2) n snoc.hyps(2)] IH(3,4)
  show ?case using exec_config [of b cl] by (simp add: b')
qed

text \<open>
  A unit of a reachable state read as the gate of the requirements: eligible exactly when its
  accumulated cost has reached the threshold, or only once its oldest task has aged out.
\<close>

lemma gate_reading:
  assumes "gate_ok C T b" and "mem_ok n b" and "0 \<le> C" and "C * int n < 2 ^ 63" and "units b k = Some u"
  shows "defThreshold b \<le> costs (tasks u) \<Longrightarrow> eligible u"
    and "eligible u \<Longrightarrow> defThreshold b \<le> costs (tasks u) \<or> hd (enqAt u) + defMaxWait b \<le> T"
proof -
  have g: "gated b C T u" using assms(1,5) by (simp add: gate_ok_def)
  have wf: "wf_unit k u" using assms(2) mem_invD(4) [OF _ assms(5)] by (simp add: mem_ok_def)
  have "nextSeq u \<le> int n" using assms(2,5) by (simp add: mem_ok_def seqs_le_def)
  from gated_cost(1) [OF g wf this assms(4,3)] g wf
  show "defThreshold b \<le> costs (tasks u) \<Longrightarrow> eligible u"
    and "eligible u \<Longrightarrow> defThreshold b \<le> costs (tasks u) \<or> hd (enqAt u) + defMaxWait b \<le> T"
    by (auto simp: gated_def wf_unit_def)
qed

end
