(* ===== verification/Memory_Laws.thy ===== *)
theory Memory_Laws
  imports Memory_Gate
begin

text \<open>
  What one call, or one call after another, of the in-memory backend achieves: the choice made by
  \<open>Claim\<close>, that claiming is work-conserving, what the reaper recovers and what it leaves alone.
\<close>

section \<open>The choice of Claim\<close>

definition claimable_at :: "memory \<Rightarrow> WorkUnitKey \<Rightarrow> bool" where
  "claimable_at b k = (case units b k of None \<Rightarrow> False | Some u \<Rightarrow> claimable u)"

lemma claimable_atE:
  assumes "claimable_at b k"
  obtains u where "units b k = Some u" and "claimable u"
  using assms by (auto simp: claimable_at_def split: option.splits)

lemma mem_Claim_cases:
  assumes "mem_inv b" and "range_order b ord"
  obtains (none) "mem_Claim ord now w d b = (Ok None, b)" and "\<And>k. \<not> claimable_at b k"
    | (some) k u c b' where "mem_Claim ord now w d b = (Ok (Some c), b')"
        and "units b k = Some u" and "claimable u" and "Key c = k" and "Worker c = w"
        and "Lease c = lease_token w (i64 (leaseCounter b + 1))" and "LeaseTill c = now + d"
        and "b' = b\<lparr>leaseCounter := i64 (leaseCounter b + 1), units := (units b)(k \<mapsto>
              u\<lparr>claimedBy := w, lease := Lease c, leaseDur := d, leaseExpires := now + d\<rparr>)\<rparr>"
        and "\<And>k' v. units b k' = Some v \<Longrightarrow> claimable v \<Longrightarrow> rank u \<le> rank v"
proof (cases "claim_scan (units b) ord None")
  case None
  have "\<not> claimable_at b k" for k
    using claim_scan_None [of "units b" ord None] None assms(2)
    by (auto simp: range_order_def claimable_at_def split: option.split)
  with None none show ?thesis by (simp add: mem_Claim_def)
next
  case (Some ku)
  obtain k u where ku: "ku = (k, u)" by (cases ku)
  with Some claim_scan_Some [of "units b" ord None k u]
  have u: "units b k = Some u" "claimable u"
    "\<forall>k' \<in> set ord. \<forall>v. units b k' = Some v \<longrightarrow> claimable v \<longrightarrow> rank u \<le> rank v" by auto
  have k: "key u = k" using mem_invD(4) [OF assms(1) u(1)] by (simp add: wf_unit_def)
  have "rank u \<le> rank v" if "units b k' = Some v" "claimable v" for k' v
    using u(3) assms(2) that by (auto simp: range_order_def)
  with Some ku u k show ?thesis
    by (intro some [of "\<lparr>Key = k, Worker = w, Lease = lease_token w (i64 (leaseCounter b + 1)), LeaseTill = now + d\<rparr>"])
      (simp_all add: mem_Claim_def Let_def)
qed

lemma mem_Claim_token:
  "mem_Claim ord now w d b = (Ok (Some c), b') \<Longrightarrow>
    Worker c = w \<and> Lease c = lease_token w (i64 (leaseCounter b + 1)) \<and> leaseCounter b' = i64 (leaseCounter b + 1)"
  by (auto simp: mem_Claim_def Let_def split: option.splits)

text \<open>
  Among keys without slashes the rank decides, so the unspecified order in which a map is visited
  does not show.
\<close>

lemma rank_inj:
  assumes "mem_inv b" and "units b k = Some u" and "units b k' = Some v"
    and "slash_free k" and "slash_free k'" and "rank u = rank v"
  shows "k = k'"
proof -
  have "key u = k" "key v = k'" using mem_invD(4) [OF assms(1)] assms(2,3) by (auto simp: wf_unit_def)
  with assms(4-6) String_inj show ?thesis by (auto simp: rank_def)
qed

lemma mem_Claim_order:
  assumes "mem_inv b" and "range_order b ord" and "range_order b ord'"
    and "\<forall>k \<in> dom (units b). slash_free k"
  shows "mem_Claim ord now w d b = mem_Claim ord' now w d b"
proof -
  have "claim_scan (units b) ord None = claim_scan (units b) ord' None"
  proof (cases "claim_scan (units b) ord None")
    case None
    with assms(2,3) have "claim_scan (units b) ord' None = None"
      by (auto simp: claim_scan_None range_order_def)
    with None show ?thesis by simp
  next
    case (Some ku)
    with assms(2,3) have "claim_scan (units b) ord' None \<noteq> None"
      using claim_scan_None [of "units b" ord None] claim_scan_None [of "units b" ord' None]
      by (auto simp: range_order_def)
    then obtain k' u' where s': "claim_scan (units b) ord' None = Some (k', u')" by auto
    obtain k u where s: "claim_scan (units b) ord None = Some (k, u)" using Some by (cases ku) simp
    from claim_scan_Some [OF s] claim_scan_Some [OF s']
    have u: "units b k = Some u" "units b k' = Some u'" "claimable u" "claimable u'" by auto
    have "k \<in> set ord'" "k' \<in> set ord" using u assms(2,3) by (auto simp: range_order_def)
    with claim_scan_Some [OF s] claim_scan_Some [OF s'] u have "rank u = rank u'" by (auto intro: antisym)
    with rank_inj [OF assms(1) u(1,2)] u assms(4) have "k = k'" by (auto simp: domI)
    with s s' u show ?thesis by simp
  qed
  then show ?thesis by (simp add: mem_Claim_def)
qed

section \<open>Claiming is work-conserving\<close>

text \<open>Claims one after the other, each with the order and the clock reading of its own call.\<close>

fun claim_all :: "(WorkUnitKey list \<times> time \<times> WorkerID \<times> duration) list \<Rightarrow> memory \<Rightarrow> memory" where
  "claim_all [] b = b"
| "claim_all ((ord, now, w, d) # cs) b = claim_all cs (snd (mem_Claim ord now w d b))"

abbreviation claimant :: "WorkUnitKey list \<times> time \<times> WorkerID \<times> duration \<Rightarrow> WorkerID" where
  "claimant c \<equiv> fst (snd (snd c))"

definition claims_ok :: "memory \<Rightarrow> (WorkUnitKey list \<times> time \<times> WorkerID \<times> duration) list \<Rightarrow> bool" where
  "claims_ok b cs \<longleftrightarrow> (\<forall>(ord, now, w, d) \<in> set cs. range_order b ord \<and> w \<noteq> '''') \<and>
     leaseCounter b + int (length cs) < 2 ^ 63"

lemma mem_Claim_claimable:
  assumes "mem_inv b" and "range_order b ord" and "w \<noteq> ''''" and b': "b' = snd (mem_Claim ord now w d b)"
  shows "dom (units b') = dom (units b)" and "leaseCounter b < 2 ^ 63 - 1 \<Longrightarrow> leaseCounter b' \<le> leaseCounter b + 1"
    and "(\<exists>k. claimable_at b k) \<Longrightarrow> card {k. claimable_at b' k} < card {k. claimable_at b k}"
    and "(\<And>k. \<not> claimable_at b k) \<Longrightarrow> b' = b"
proof -
  have fin: "finite {k. claimable_at b k}"
    by (rule finite_subset [OF _ mem_invD(1) [OF assms(1)]]) (auto simp: claimable_at_def split: option.splits)
  have "dom (units b') = dom (units b) \<and>
    (leaseCounter b < 2 ^ 63 - 1 \<longrightarrow> leaseCounter b' \<le> leaseCounter b + 1) \<and>
    ((\<exists>k. claimable_at b k) \<longrightarrow> card {k. claimable_at b' k} < card {k. claimable_at b k}) \<and>
    ((\<forall>k. \<not> claimable_at b k) \<longrightarrow> b' = b)"
    using assms(1,2)
  proof (cases rule: mem_Claim_cases [where now = now and w = w and d = d])
    case none
    with b' show ?thesis by auto
  next
    case (some k u c b'')
    have c: "claimable_at b k" using some by (simp add: claimable_at_def)
    have "{j. claimable_at b' j} = {j. claimable_at b j} - {k}"
      using some b' assms(3) by (auto simp: claimable_at_def claimable_def)
    with card_Diff1_less [OF fin, of k] c have "card {j. claimable_at b' j} < card {j. claimable_at b j}"
      by (metis mem_Collect_eq)
    moreover have "leaseCounter b < 2 ^ 63 - 1 \<Longrightarrow> leaseCounter b' \<le> leaseCounter b + 1"
      using some b' mem_invD(2) [OF assms(1)] by (simp add: i64_id)
    ultimately show ?thesis using some b' c by (auto simp: insert_absorb domI)
  qed
  then show "dom (units b') = dom (units b)" and "leaseCounter b < 2 ^ 63 - 1 \<Longrightarrow> leaseCounter b' \<le> leaseCounter b + 1"
    and "(\<exists>k. claimable_at b k) \<Longrightarrow> card {k. claimable_at b' k} < card {k. claimable_at b k}"
    and "(\<And>k. \<not> claimable_at b k) \<Longrightarrow> b' = b" by blast+
qed

lemma claim_all_conserving:
  assumes "mem_inv b" and "claims_ok b cs" and "card {k. claimable_at b k} \<le> length cs"
  shows "\<not> claimable_at (claim_all cs b) k"
  using assms
proof (induction cs arbitrary: b)
  case Nil
  have "finite {k. claimable_at b k}"
    by (rule finite_subset [OF _ mem_invD(1) [OF Nil(1)]]) (auto simp: claimable_at_def split: option.splits)
  with Nil(3) show ?case by auto
next
  case (Cons c cs)
  obtain ord now w d where c: "c = (ord, now, w, d)" by (cases c)
  let ?b' = "snd (mem_Claim ord now w d b)"
  have ok: "range_order b ord" "w \<noteq> ''''" "leaseCounter b < 2 ^ 63 - 1"
    using Cons.prems(2) c by (auto simp: claims_ok_def)
  note cl = mem_Claim_claimable [OF Cons.prems(1) ok(1,2) refl, of now d]
  have "card {k. claimable_at ?b' k} \<le> length cs"
  proof (cases "\<exists>k. claimable_at b k")
    case True
    with cl(3) Cons.prems(3) show ?thesis by simp
  next
    case False
    with cl(4) show ?thesis by simp
  qed
  moreover have "claims_ok ?b' cs"
    using Cons.prems(2) c cl(1) cl(2) [OF ok(3)] by (auto simp: claims_ok_def range_order_def)
  ultimately have "\<not> claimable_at (claim_all cs ?b') k"
    using Cons.IH mem_inv_Claim [OF Cons.prems(1) ok(2,3)] by blast
  then show ?case by (simp add: c)
qed

section \<open>Lost leases\<close>

text \<open>The five calls a claim is needed for answer a stale claim with an error and change nothing.\<close>

lemma stale_calls:
  assumes "held b c = Err ErrLeaseLost"
  shows "mem_Drain c n b = (Err ErrLeaseLost, b)" and "mem_Ack now now' c th b = (Err ErrLeaseLost, b)"
    and "mem_Release c b = (Err ErrLeaseLost, b)" and "mem_Heartbeat now c d b = (Err ErrLeaseLost, b)"
    and "mem_Fail now c seq reason b = (Err ErrLeaseLost, b)"
  using assms by (simp_all add: mem_Drain_def mem_Ack_def mem_Release_def mem_Heartbeat_def mem_Fail_def)

lemma held_lost_iff: "held b c = Err ErrLeaseLost \<longleftrightarrow> (\<nexists>u. held b c = Ok u)"
  by (cases rule: held_cases [of b c]) auto

section \<open>Recovery\<close>

lemma mem_Reap_units:
  "range_order b ord \<Longrightarrow> units (snd (mem_ReapExpired ord now b)) k = map_option (reaped now) (units b k)"
  by (simp add: mem_ReapExpired_eq)

text \<open>A lease that has not run out survives the reaper; one that has is lost.\<close>

lemma held_after_reap:
  assumes "range_order b ord" and "held b c = Ok u" and "Worker c \<noteq> ''''"
  shows "held (snd (mem_ReapExpired ord now b)) c
    = (if leaseExpires u < now then Err ErrLeaseLost else Ok (reaped now u))"
  using assms by (auto simp: held_def mem_Reap_units expired_def split: option.splits if_splits)

text \<open>The reaper makes every unit claimable that is free or abandoned and full enough or old enough.\<close>

lemma claimable_after_reap:
  assumes "mem_inv b" and "range_order b ord" and "units b k = Some u"
  shows "claimable_at (snd (mem_ReapExpired ord now b)) k \<longleftrightarrow>
    (claimedBy u = '''' \<or> leaseExpires u < now) \<and>
    (eligible u \<or> flushDeadline u \<noteq> 0 \<and> flushDeadline u \<le> now)"
proof -
  have "tasks u \<noteq> []" using mem_invD(4) [OF assms(1,3)] by (simp add: wf_unit_def)
  with assms(3) show ?thesis
    by (auto simp: claimable_at_def mem_Reap_units [OF assms(2)] claimable_def expired_def flush_due_def)
qed

text \<open>
  Redelivery: after the lease of \<open>c\<close> has run out and been reaped, the next claim of the unit sees
  the same head of the queue, and \<open>c\<close> stays lost.
\<close>

lemma mem_redelivery_unit:
  assumes inv: "mem_inv b" and "range_order b ord" and h: "held b c = Ok u" and w: "Worker c \<noteq> ''''"
    and "leaseExpires u < now" and lc: "leaseCounter b < 2 ^ 63 - 1" and "range_order b ord'"
    and cl: "mem_Claim ord' now' w' d (snd (mem_ReapExpired ord now b)) = (Ok (Some c'), b')"
    and k: "Key c' = Key c" and w': "w' \<noteq> ''''"
  shows "fst (mem_Drain c' n b') = fst (mem_Drain c n b)" and "held b' c = Err ErrLeaseLost"
proof -
  let ?r = "snd (mem_ReapExpired ord now b)"
  have u: "units b (Key c) = Some u" "claimedBy u = Worker c" "lease u = Lease c" using h by (auto simp: held_Ok_iff)
  have inv': "mem_inv ?r" using inv assms(2) by (rule mem_inv_ReapExpired)
  have lc': "leaseCounter ?r = leaseCounter b" using assms(2) by (simp add: mem_ReapExpired_eq)
  have n: "i64 (leaseCounter b + 1) = leaseCounter b + 1" using lc mem_invD(2) [OF inv] by (simp add: i64_id)
  have ro: "range_order ?r ord'" using assms(2,7) by (auto simp: mem_ReapExpired_eq range_order_def)
  have fresh: "lease u \<noteq> lease_token w' (leaseCounter b + 1)"
    using lease_fresh [OF mem_invD(5) [OF inv u(1)] mem_invD(2) [OF inv]] .
  have "fst (mem_Drain c' n b') = fst (mem_Drain c n b) \<and> held b' c = Err ErrLeaseLost"
    using inv' ro
  proof (cases rule: mem_Claim_cases [where now = now' and w = w' and d = d])
    case (some k' v c'' b'')
    with cl k have eq: "c'' = c'" "b'' = b'" "k' = Key c" by auto
    have v: "v = reaped now u" using some(2) eq mem_Reap_units [OF assms(2), of now] u by simp
    have b': "units b' (Key c) = Some (v\<lparr>claimedBy := w', lease := Lease c', leaseDur := d, leaseExpires := now' + d\<rparr>)"
      using some(8) eq by simp
    have "held b' c' = Ok (v\<lparr>claimedBy := w', lease := Lease c', leaseDur := d, leaseExpires := now' + d\<rparr>)"
      using b' k some(5) eq by (simp add: held_Ok_iff)
    moreover have "held b' c = Err ErrLeaseLost"
      using b' some(6) eq lc' n fresh u(3) by (auto simp: held_def)
    ultimately show ?thesis using h v by (simp add: mem_Drain_def Let_def)
  qed (use cl in simp)
  then show "fst (mem_Drain c' n b') = fst (mem_Drain c n b)" and "held b' c = Err ErrLeaseLost" by blast+
qed

section \<open>Ack and Fail in closed form\<close>

text \<open>
  A unit that has lost its first \<open>i\<close> tasks: costs and times are those of what is left, the new head
  decides the flush deadline, and the gate is evaluated afresh at time \<open>now\<close>.
\<close>

definition advanced :: "time \<Rightarrow> nat \<Rightarrow> wunit \<Rightarrow> wunit" where
  "advanced now i u =
    (let t = hd (drop i (enqAt u)); pc = i64 (costs (drop i (tasks u)))
     in u\<lparr>tasks := drop i (tasks u), enqAt := drop i (enqAt u), pendingCost := pc, attempts := 0,
          oldestPending := t, flushDeadline := t + maxWait u,
          eligible := threshold u \<le> pc \<or> t + maxWait u \<noteq> 0 \<and> t + maxWait u \<le> now\<rparr>)"

lemma recompute_advanced:
  assumes "wf_unit k u" and "i < length (tasks u)"
  shows "recompute now (drop_head i u) = Some (advanced now i u)"
proof -
  have "drop i (enqAt u) \<noteq> []" using assms by (simp add: wf_unit_def)
  then show ?thesis
    by (auto simp: recompute_def drop_head_def advanced_def Let_def index0_hd IsZero_def not_less)
qed

lemma mem_Ack_closed:
  fixes th :: int
  assumes "mem_inv b" and "held b c = Ok u"
  defines "i \<equiv> length (acked th (tasks u))"
  shows "mem_Ack now now' c th b =
    (let v = advanced now i u
     in if unacked th (tasks u) = [] then (Ok False, b\<lparr>units := (units b)(Key c := None)\<rparr>)
        else if eligible v then (Ok True, b\<lparr>units := (units b)(Key c \<mapsto> v\<lparr>leaseExpires := now' + leaseDur u\<rparr>)\<rparr>)
        else (Ok False, b\<lparr>units := (units b)(Key c \<mapsto> v\<lparr>claimedBy := '''', lease := ''''\<rparr>)\<rparr>))"
proof -
  have wf: "wf_unit (Key c) u" using mem_invD(4) [OF assms(1)] assms(2) by (simp add: held_Ok_iff)
  have le: "i \<le> length (tasks u)" unfolding i_def by (rule length_takeWhile_le)
  have "unacked th (tasks u) = drop i (tasks u)" unfolding i_def by (rule dropWhile_eq_drop_takeWhile)
  then have iff: "unacked th (tasks u) = [] \<longleftrightarrow> i = length (tasks u)" using le by auto
  show ?thesis
  proof (cases "i = length (tasks u)")
    case True
    with iff mem_Ack_held [OF assms(2) wf, of now now' th] show ?thesis by (simp add: i_def)
  next
    case False
    with le have "i < length (tasks u)" by simp
    note r = recompute_advanced [OF wf this, of now]
    have "leaseDur (advanced now i u) = leaseDur u" by (simp add: advanced_def Let_def)
    with False iff r mem_Ack_held [OF assms(2) wf, of now now' th] show ?thesis by (auto simp: i_def Let_def)
  qed
qed

lemma mem_Fail_closed:
  assumes "mem_inv b" and "held b c = Ok u"
  shows "mem_Fail now c seq reason b =
    (if maxAttempts b \<le> i64 (attempts u + 1) \<and> Seq (hd (tasks u)) = seq
     then (Ok (), b\<lparr>dlq := dlq b @ [\<lparr>dl_Key = Key c, dl_Task = hd (tasks u), dl_Reason = reason\<rparr>],
             units := (units b)(Key c := if tl (tasks u) = [] then None
               else Some ((advanced now 1 u)\<lparr>claimedBy := '''', lease := ''''\<rparr>))\<rparr>)
     else (Ok (), b\<lparr>units := (units b)(Key c \<mapsto>
             u\<lparr>attempts := i64 (attempts u + 1), claimedBy := '''', lease := ''''\<rparr>)\<rparr>))"
    (is "_ = (if ?P then ?A else ?B)")
proof -
  have wf: "wf_unit (Key c) u" using mem_invD(4) [OF assms(1)] assms(2) by (simp add: held_Ok_iff)
  show ?thesis
  proof (cases ?P)
    case True
    from mem_Fail_poison [OF assms(2) wf True, of now reason] obtain u' where
      eq: "mem_Fail now c seq reason b =
        (Ok (), b\<lparr>dlq := dlq b @ [\<lparr>dl_Key = Key c, dl_Task = hd (tasks u), dl_Reason = reason\<rparr>],
                  units := (units b)(Key c := u')\<rparr>)"
      and u': "if tl (tasks u) = [] then u' = None else \<exists>v0. recompute now (drop_head 1 u) = Some v0 \<and>
        u' = Some (v0\<lparr>claimedBy := '''', lease := ''''\<rparr>)"
      by (fastforce split: if_splits)
    have "1 < length (tasks u)" if "tl (tasks u) \<noteq> []" using that by (cases "tasks u") auto
    with u' recompute_advanced [OF wf, of 1 now]
    have "u' = (if tl (tasks u) = [] then None else Some ((advanced now 1 u)\<lparr>claimedBy := '''', lease := ''''\<rparr>))"
      by (auto split: if_splits)
    with eq show ?thesis unfolding if_P [OF True] by (simp only:)
  next
    case False
    from mem_Fail_retry [OF assms(2) wf False, of now reason] show ?thesis unfolding if_not_P [OF False] .
  qed
qed

section \<open>An abandoned unit is handed out again\<close>

text \<open>Claims leave a unit that is not claimable alone, and a claimable one for the first claim that picks it.\<close>

lemma claim_all_kept:
  assumes "mem_inv b" and "claims_ok b cs" and "units b k = Some u" and "\<not> claimable u"
  shows "units (claim_all cs b) k = Some u"
  using assms
proof (induction cs arbitrary: b)
  case (Cons c cs)
  obtain ord now w d where c: "c = (ord, now, w, d)" by (cases c)
  let ?b' = "snd (mem_Claim ord now w d b)"
  have ok: "range_order b ord" "w \<noteq> ''''" "leaseCounter b < 2 ^ 63 - 1"
    using Cons.prems(2) c by (auto simp: claims_ok_def)
  note cl = mem_Claim_claimable [OF Cons.prems(1) ok(1,2) refl, of now d]
  have "claims_ok ?b' cs"
    using Cons.prems(2) c cl(1) cl(2) [OF ok(3)] by (auto simp: claims_ok_def range_order_def)
  moreover from Cons.prems(1) ok(1) have "units ?b' k = Some u"
  proof (cases rule: mem_Claim_cases [where now = now and w = w and d = d])
    case (some j v cu b'')
    with Cons.prems(3,4) have "j \<noteq> k" by auto
    with some Cons.prems(3) show ?thesis by simp
  qed (use Cons.prems(3) in simp)
  ultimately show ?case
    using Cons.IH Cons.prems(4) mem_inv_Claim [OF Cons.prems(1) ok(2,3)] c by simp
qed simp

lemma claim_all_unit:
  assumes "mem_inv b" and "claims_ok b cs" and "units b k = Some u"
    and "claimable u" and "card {k. claimable_at b k} \<le> length cs"
  shows "\<exists>v. units (claim_all cs b) k = Some v \<and> tasks v = tasks u \<and> claimedBy v \<in> claimant ` set cs"
  using assms
proof (induction cs arbitrary: b)
  case Nil
  have "finite {k. claimable_at b k}"
    by (rule finite_subset [OF _ mem_invD(1) [OF Nil(1)]]) (auto simp: claimable_at_def split: option.splits)
  moreover have "k \<in> {k. claimable_at b k}" using Nil(3,4) by (simp add: claimable_at_def)
  ultimately have "0 < card {k. claimable_at b k}" by (auto simp: card_gt_0_iff)
  with Nil(5) show ?case by simp
next
  case (Cons c cs)
  obtain ord now w d where c: "c = (ord, now, w, d)" by (cases c)
  let ?b' = "snd (mem_Claim ord now w d b)"
  have ok: "range_order b ord" "w \<noteq> ''''" "leaseCounter b < 2 ^ 63 - 1"
    using Cons.prems(2) c by (auto simp: claims_ok_def)
  note cl = mem_Claim_claimable [OF Cons.prems(1) ok(1,2) refl, of now d]
  have inv: "mem_inv ?b'" using mem_inv_Claim [OF Cons.prems(1) ok(2,3)] .
  have oks: "claims_ok ?b' cs"
    using Cons.prems(2) c cl(1) cl(2) [OF ok(3)] by (auto simp: claims_ok_def range_order_def)
  have at: "claimable_at b k" using Cons.prems(3,4) by (simp add: claimable_at_def)
  with cl(3) Cons.prems(5) have card: "card {k. claimable_at ?b' k} \<le> length cs" by fastforce
  from Cons.prems(1) ok(1) show ?case
  proof (cases rule: mem_Claim_cases [where now = now and w = w and d = d])
    case none
    then show ?thesis using at by simp
  next
    case (some j v cu b'')
    show ?thesis
    proof (cases "j = k")
      case True
      let ?v = "u\<lparr>claimedBy := w, lease := Lease cu, leaseDur := d, leaseExpires := now + d\<rparr>"
      have "units ?b' k = Some ?v" using some Cons.prems(3) True by simp
      moreover have "\<not> claimable ?v" using ok(2) by (simp add: claimable_def)
      ultimately have "units (claim_all cs ?b') k = Some ?v" using claim_all_kept [OF inv oks] by blast
      then show ?thesis by (simp add: c)
    next
      case False
      then have "units ?b' k = Some u" using some Cons.prems(3) by simp
      from Cons.IH [OF inv oks this Cons.prems(4) card] show ?thesis by (auto simp add: c)
    qed
  qed
qed

lemma card_claimable_le: "mem_inv b \<Longrightarrow> card {k. claimable_at b k} \<le> card (dom (units b))"
  by (rule card_mono) (auto simp: mem_invD claimable_at_def split: option.splits)

end
