(* ===== verification/Memory_Demo.thy ===== *)
theory Memory_Demo
  imports Memory_Laws
begin

text \<open>
  A small concrete history of the in-memory backend: two tasks cross the threshold of one unit and a
  worker claims it. The state it leads to is where the theorems of the development are exercised.
\<close>

definition demo_key :: WorkUnitKey where
  "demo_key = \<lparr>Workspace = ''acme'', Session = ''s1'', Peer = ''p1''\<rparr>"

definition demo_opt :: Options where
  "demo_opt = \<lparr>DefaultThreshold = 10, DefaultMaxWait = 100, MaxAttempts = 0\<rparr>"

definition demo_calls :: "call list" where
  "demo_calls = [Enq 5 demo_key ''a'' 6, Enq 6 demo_key ''b'' 6, Cla [demo_key] 7 ''w0'' 30]"

definition demo_claim :: ClaimedUnit where
  "demo_claim = \<lparr>Key = demo_key, Worker = ''w0'', Lease = ''w0-1'', LeaseTill = 37\<rparr>"

definition demo_unit :: wunit where
  "demo_unit =
    \<lparr> key = demo_key, tasks = [\<lparr>Seq = 0, Payload = ''a'', Cost = 6\<rparr>, \<lparr>Seq = 1, Payload = ''b'', Cost = 6\<rparr>],
      enqAt = [5, 6], nextSeq = 2, pendingCost = 12, threshold = 10, maxWait = 100, oldestPending = 5,
      flushDeadline = 105, eligible = True, claimedBy = ''w0'', lease = ''w0-1'', leaseDur = 30,
      leaseExpires = 37, attempts = 0 \<rparr>"

definition demo :: memory where
  "demo = \<lparr>units = [demo_key \<mapsto> demo_unit], dlq = [], leaseCounter = 1, defThreshold = 10, defMaxWait = 100,
    maxAttempts = 3\<rparr>"

lemma demo_token: "lease_token ''w0'' 1 = ''w0-1''"
  by code_simp

lemma demo_execs: "execs demo_calls (mem_New demo_opt) = demo"
  by (simp add: demo_calls_def mem_New_def demo_opt_def mem_Enqueue_def enqueue_unit_def new_unit_def
      mem_Claim_def claimable_def demo_token i64_id Let_def demo_def demo_unit_def)

lemma demo_feasible: "feasible (mem_New demo_opt) demo_calls"
  by (simp add: demo_calls_def mem_New_def demo_opt_def mem_Enqueue_def range_order_def)

lemma demo_run: "mem_run (mem_New demo_opt) demo_calls (run_events (mem_New demo_opt) demo_calls) demo"
  using mem_run_execs [OF demo_feasible] by (simp add: demo_execs)

lemma demo_length: "length demo_calls = 3"
  by (simp add: demo_calls_def)

lemma demo_inv: "mem_inv demo"
  using mem.run_simulates [OF demo_run mem_ok_New] by (simp add: demo_length mem_ok_def)

lemma demo_held: "held demo demo_claim = Ok demo_unit"
  by (simp add: held_def demo_def demo_claim_def demo_unit_def)

lemma demo_order: "range_order demo [demo_key]"
  by (simp add: range_order_def demo_def)

text \<open>The state before the claim, and the claim.\<close>

definition demo_enqs :: "call list" where
  "demo_enqs = [Enq 5 demo_key ''a'' 6, Enq 6 demo_key ''b'' 6]"

definition demo0 :: memory where
  "demo0 = \<lparr>units = [demo_key \<mapsto> demo_unit\<lparr>claimedBy := '''', lease := '''', leaseDur := 0, leaseExpires := 0\<rparr>],
    dlq = [], leaseCounter = 0, defThreshold = 10, defMaxWait = 100, maxAttempts = 3\<rparr>"

lemma demo0_run: "mem_run (mem_New demo_opt) demo_enqs (run_events (mem_New demo_opt) demo_enqs) demo0"
proof -
  have "execs demo_enqs (mem_New demo_opt) = demo0"
    by (simp add: demo_enqs_def mem_New_def demo_opt_def mem_Enqueue_def enqueue_unit_def new_unit_def
        i64_id Let_def demo0_def demo_unit_def)
  then show ?thesis using mem_run_execs [of "mem_New demo_opt" demo_enqs] by (simp add: demo_enqs_def)
qed

lemma demo0_inv: "mem_inv demo0"
  using mem.run_simulates [OF demo0_run mem_ok_New] by (simp add: demo_enqs_def mem_ok_def)

lemma demo0_order: "range_order demo0 [demo_key]"
  by (simp add: range_order_def demo0_def)

lemma demo0_claim: "mem_Claim [demo_key] 7 ''w0'' 30 demo0 = (Ok (Some demo_claim), demo)"
  by (simp add: mem_Claim_def demo0_def claimable_def demo_unit_def demo_token Let_def i64_id demo_claim_def demo_def)

lemma demo_release: "mem_run demo [Rel demo_claim] (run_events demo [Rel demo_claim]) (exec (Rel demo_claim) demo)"
  using mem_run_execs [of demo "[Rel demo_claim]"] by (simp add: demo_claim_def)

end
