(* ===== verification/Worker.thy ===== *)
theory Worker
  imports Contract
begin

text \<open>
  \<open>internal/queue/worker.go\<close>: the process model, the adaptive backoff, the claim-drain-process-ack
  loop and the worker pool. The loop runs against any \<open>Backend\<close>; everything other goroutines do to
  the queue between two of its calls is an explicit state transformer of the schedule, and what each
  call reads from outside is its oracle value.
\<close>

section \<open>Configuration and simulated work\<close>

record ProcessModel =
  Kind :: string
  Base :: duration
  PerCost :: duration

record BackoffConfig =
  Min :: duration
  Max :: duration

record WorkerConfig =
  cfg_Lease :: duration
  Batch :: int
  Backoff :: BackoffConfig
  Process :: ProcessModel

text \<open>
  What a worker does that can be observed: \<open>OnProcess\<close> calls, sleeps of the process model, and
  calls of the \<open>Recorder\<close> (its latencies are left out).
\<close>

datatype action = OnProcess WorkUnitKey Task | Sleep duration | RecClaim bool | RecAck nat | RecLoop

definition work :: "ProcessModel \<Rightarrow> Task \<Rightarrow> action list" where
  "work p t =
    (if Kind p = ''fixed'' then [Sleep (Base p)]
     else if Kind p = ''cost'' then [Sleep (i64 (Base p + i64 (Cost t * PerCost p)))]
     else [])"

definition next_backoff :: "BackoffConfig \<Rightarrow> duration \<Rightarrow> duration" where
  "next_backoff b d =
    (if d \<le> 0 then Min b
     else let d = i64 (d * 2) in if Max b > 0 \<and> d > Max b then Max b else d)"

section \<open>One claim\<close>

record ('o, 's) turn =
  interfere :: "'s \<Rightarrow> 's"
  reads :: 'o

record ('o, 's) round =
  drain_turn :: "('o, 's) turn"
  beat_turns :: "('o, 's) turn list"
  ack_turn :: "('o, 's) turn"

datatype exit = Returned bool "qerror option" | Panicked

text \<open>
  The heartbeat goroutine: with a third of the lease at least one nanosecond it calls \<open>Heartbeat\<close> at
  every tick that fires while the batch is processed, and ignores the error.
\<close>

fun heartbeats :: "('o, 's) Backend \<Rightarrow> WorkerConfig \<Rightarrow> ClaimedUnit \<Rightarrow> ('o, 's) turn list \<Rightarrow> 's \<Rightarrow> 's" where
  "heartbeats be cfg c [] s = s"
| "heartbeats be cfg c (t # ts) s =
    heartbeats be cfg c ts (snd (be_Heartbeat be (reads t) c (cfg_Lease cfg) (interfere t s)))"

definition heartbeat :: "('o, 's) Backend \<Rightarrow> WorkerConfig \<Rightarrow> ClaimedUnit \<Rightarrow> ('o, 's) turn list \<Rightarrow> 's \<Rightarrow> 's" where
  "heartbeat be cfg c ts s = (if go_div (cfg_Lease cfg) 3 \<le> 0 then s else heartbeats be cfg c ts s)"

definition process :: "WorkerConfig \<Rightarrow> ClaimedUnit \<Rightarrow> Task list \<Rightarrow> action list" where
  "process cfg c ts = concat (map (\<lambda>t. OnProcess (Key c) t # work (Process cfg) t) ts)"

text \<open>The inner loop of \<open>runOnce\<close>; \<open>None\<close> when the schedule ends before the loop does.\<close>

fun drain_loop :: "('o, 's) Backend \<Rightarrow> WorkerConfig \<Rightarrow> ClaimedUnit \<Rightarrow> ('o, 's) round list \<Rightarrow> action list
    \<Rightarrow> 's \<Rightarrow> (exit \<times> action list \<times> 's) option" where
  "drain_loop be cfg c [] tr s = None"
| "drain_loop be cfg c (r # rs) tr s =
    (case be_Drain be (reads (drain_turn r)) c (Batch cfg) (interfere (drain_turn r) s) of
      (Err e, s) \<Rightarrow> Some (Returned True (Some e), tr, s)
    | (Panic, s) \<Rightarrow> Some (Panicked, tr, s)
    | (Ok ts, s) \<Rightarrow>
        if ts = [] then
          (case be_Release be (reads (ack_turn r)) c (interfere (ack_turn r) s) of
            (Ok _, s) \<Rightarrow> Some (Returned True None, tr, s)
          | (Err e, s) \<Rightarrow> Some (Returned True (Some e), tr, s)
          | (Panic, s) \<Rightarrow> Some (Panicked, tr, s))
        else
          let tr = tr @ process cfg c ts;
              s = heartbeat be cfg c (beat_turns r) s
          in case be_Ack be (reads (ack_turn r)) c (Seq (last ts)) (interfere (ack_turn r) s) of
              (Err e, s) \<Rightarrow> Some (Returned True (Some e), tr, s)
            | (Panic, s) \<Rightarrow> Some (Panicked, tr, s)
            | (Ok held, s) \<Rightarrow>
                let tr = tr @ [RecAck (length ts), RecLoop]
                in if held then drain_loop be cfg c rs tr s else Some (Returned True None, tr, s))"

definition runOnce :: "('o, 's) Backend \<Rightarrow> WorkerID \<Rightarrow> WorkerConfig \<Rightarrow> ('o, 's) turn \<Rightarrow> ('o, 's) round list
    \<Rightarrow> 's \<Rightarrow> (exit \<times> action list \<times> 's) option" where
  "runOnce be w cfg t rs s =
    (case be_Claim be (reads t) w (cfg_Lease cfg) (interfere t s) of
      (Err e, s) \<Rightarrow> Some (Returned False (Some e), [RecClaim False], s)
    | (Panic, s) \<Rightarrow> Some (Panicked, [], s)
    | (Ok None, s) \<Rightarrow> Some (Returned False None, [RecClaim False], s)
    | (Ok (Some c), s) \<Rightarrow> drain_loop be cfg c rs [RecClaim True] s)"

section \<open>The worker's life and the pool\<close>

text \<open>
  One iteration of \<open>Run\<close>: whether the context is already cancelled at its head, the schedule of its
  \<open>runOnce\<close>, and whether cancellation wins against the backoff timer. \<open>Run\<close> returns the backoffs it
  slept; \<open>None\<close> when the schedule ends before the loop does.
\<close>

record ('o, 's) iteration =
  cancelled :: bool
  claim_turn :: "('o, 's) turn"
  rounds :: "('o, 's) round list"
  cancelled_asleep :: bool

fun Run :: "('o, 's) Backend \<Rightarrow> WorkerID \<Rightarrow> WorkerConfig \<Rightarrow> ('o, 's) iteration list \<Rightarrow> duration \<Rightarrow> 's
    \<Rightarrow> (bool \<times> duration list \<times> 's) option" where
  "Run be w cfg [] idle s = None"
| "Run be w cfg (it # its) idle s =
    (if cancelled it then Some (True, [], s)
     else case runOnce be w cfg (claim_turn it) (rounds it) s of
        None \<Rightarrow> None
      | Some (Panicked, _, s) \<Rightarrow> Some (False, [], s)
      | Some (Returned did e, _, s) \<Rightarrow>
          if did \<and> e = None then Run be w cfg its 0 s
          else let idle = next_backoff (Backoff cfg) idle
               in if cancelled_asleep it then Some (True, [idle], s)
                  else map_option (\<lambda>(x, ds, s). (x, idle # ds, s)) (Run be w cfg its idle s))"

definition pool_ids :: "int \<Rightarrow> WorkerID list" where
  "pool_ids n = map (\<lambda>i. ''w'' @ fmt_d i) [0..n - 1]"

section \<open>What the loop guarantees over any backend that keeps the contract\<close>

text \<open>The tasks handed to \<open>OnProcess\<close>, in order.\<close>

fun processed :: "action list \<Rightarrow> (WorkUnitKey \<times> Task) list" where
  "processed [] = []"
| "processed (OnProcess k t # tr) = (k, t) # processed tr"
| "processed (_ # tr) = processed tr"

lemma processed_append [simp]: "processed (tr @ tr') = processed tr @ processed tr'"
  by (induction tr rule: processed.induct) simp_all

lemma processed_work [simp]: "processed (work p t) = []"
  by (simp add: work_def)

lemma processed_process [simp]: "processed (process cfg c ts) = map (Pair (Key c)) ts"
  by (induction ts) (simp_all add: process_def)

text \<open>
  The rely condition of a lease holder: whatever other goroutines do keeps the backend's invariant,
  and a claim that is valid afterwards was valid before, has seen at most tasks appended to its
  unit, from a set \<open>A\<close> of possible extensions, and may acknowledge at least what it could before.
\<close>

definition evolves :: "Task list set \<Rightarrow> ('s \<Rightarrow> bool) \<Rightarrow> ('s \<Rightarrow> WorkUnitKey \<Rightarrow> Task list)
    \<Rightarrow> ('s \<Rightarrow> ClaimedUnit \<Rightarrow> bool) \<Rightarrow> ('s \<Rightarrow> ClaimedUnit \<Rightarrow> int \<Rightarrow> bool) \<Rightarrow> ClaimedUnit \<Rightarrow> 's \<Rightarrow> 's \<Rightarrow> bool" where
  "evolves A invar pending holds ackable c s s' \<longleftrightarrow>
     invar s' \<and> (holds s' c \<longrightarrow> holds s c \<and> (\<exists>ts \<in> A. pending s' (Key c) = pending s (Key c) @ ts) \<and>
       (\<forall>th. ackable s c th \<longrightarrow> ackable s' c th))"

definition relies :: "Task list set \<Rightarrow> ('s \<Rightarrow> bool) \<Rightarrow> ('s \<Rightarrow> WorkUnitKey \<Rightarrow> Task list)
    \<Rightarrow> ('s \<Rightarrow> ClaimedUnit \<Rightarrow> bool) \<Rightarrow> ('s \<Rightarrow> ClaimedUnit \<Rightarrow> int \<Rightarrow> bool) \<Rightarrow> ClaimedUnit \<Rightarrow> ('o, 's) turn \<Rightarrow> bool" where
  "relies A invar pending holds ackable c t \<longleftrightarrow>
     (\<forall>s. invar s \<longrightarrow> evolves A invar pending holds ackable c s (interfere t s))"

definition round_relies :: "Task list set \<Rightarrow> ('s \<Rightarrow> bool) \<Rightarrow> ('s \<Rightarrow> WorkUnitKey \<Rightarrow> Task list)
    \<Rightarrow> ('s \<Rightarrow> ClaimedUnit \<Rightarrow> bool) \<Rightarrow> ('s \<Rightarrow> ClaimedUnit \<Rightarrow> int \<Rightarrow> bool) \<Rightarrow> ClaimedUnit \<Rightarrow> ('o, 's) round \<Rightarrow> bool" where
  "round_relies A invar pending holds ackable c r \<longleftrightarrow>
     (\<forall>t \<in> {drain_turn r, ack_turn r} \<union> set (beat_turns r). relies A invar pending holds ackable c t)"

definition extensions :: "Task list set \<Rightarrow> bool" where
  "extensions A \<longleftrightarrow> [] \<in> A \<and> (\<forall>a \<in> A. \<forall>b \<in> A. a @ b \<in> A)"

lemma extensions_UNIV [simp]: "extensions UNIV" and extensions_Nil [simp]: "extensions {[]}"
  by (simp_all add: extensions_def)

lemma evolves_refl: "extensions A \<Longrightarrow> invar s \<Longrightarrow> evolves A invar pending holds ackable c s s"
  by (simp add: evolves_def extensions_def)

lemma evolves_trans:
  "extensions A \<Longrightarrow> evolves A invar pending holds ackable c s s' \<Longrightarrow> evolves A invar pending holds ackable c s' s''
    \<Longrightarrow> evolves A invar pending holds ackable c s s''"
  unfolding evolves_def extensions_def by (metis append_assoc)

lemma evolves_invar: "evolves A invar pending holds ackable c s s' \<Longrightarrow> invar s'"
  by (simp add: evolves_def)

context backend_contract
begin

lemma heartbeats_evolves:
  assumes "extensions A" and "invar s" and "\<forall>t \<in> set ts. relies A invar pending holds ackable c t"
  shows "evolves A invar pending holds ackable c s (heartbeats be cfg c ts s)"
  using assms(2,3)
proof (induction ts arbitrary: s)
  case Nil
  then show ?case using assms(1) by (simp add: evolves_refl)
next
  case (Cons t ts)
  let ?s1 = "interfere t s"
  obtain r s2 where hb: "be_Heartbeat be (reads t) c (cfg_Lease cfg) ?s1 = (r, s2)"
    by (cases "be_Heartbeat be (reads t) c (cfg_Lease cfg) ?s1")
  have e1: "evolves A invar pending holds ackable c s ?s1"
    using Cons.prems by (simp add: relies_def)
  from heartbeat [OF evolves_invar [OF e1] hb] have s2: "invar s2" "pending s2 = pending ?s1" "holds s2 = holds ?s1"
    and "\<forall>c th. ackable ?s1 c th \<longrightarrow> ackable s2 c th" by simp_all
  then have "evolves A invar pending holds ackable c ?s1 s2"
    using assms(1) by (simp add: evolves_def extensions_def)
  moreover have "evolves A invar pending holds ackable c s2 (heartbeats be cfg c ts s2)"
    using Cons.IH s2(1) Cons.prems(2) by simp
  ultimately show ?case using e1 hb assms(1) by (auto intro: evolves_trans)
qed

lemma heartbeat_evolves:
  assumes "extensions A" and "invar s" and "\<forall>t \<in> set ts. relies A invar pending holds ackable c t"
  shows "evolves A invar pending holds ackable c s (Worker.heartbeat be cfg c ts s)"
  using assms by (auto simp: heartbeat_def intro: heartbeats_evolves evolves_refl)

text \<open>
  One round that acknowledges its batch: between the state \<open>s\<close> it starts in and the state after the
  acknowledgement, the unit's FIFO grew at its end by \<open>x\<close> and lost exactly the batch at its head.
\<close>

lemma round_acked:
  assumes A: "extensions A" and inv: "invar s" and r: "round_relies A invar pending holds ackable c r"
    and w: "genuine c" and ok: "drain_ok (reads (drain_turn r))"
    and drain': "be_Drain be (reads (drain_turn r)) c n (interfere (drain_turn r) s) = (Ok ts, s1)"
    and ts: "ts \<noteq> []"
    and ack': "be_Ack be (reads (ack_turn r)) c (Seq (last ts))
      (interfere (ack_turn r) (Worker.heartbeat be cfg c (beat_turns r) s1)) = (Ok h, s2)"
  shows "invar s2 \<and> holds s c \<and> (h \<longleftrightarrow> holds s2 c) \<and>
    (\<exists>x \<in> A. pending s (Key c) @ x = ts @ pending s2 (Key c))"
proof -
  let ?s0 = "interfere (drain_turn r) s" and ?sh = "Worker.heartbeat be cfg c (beat_turns r) s1"
  let ?sa = "interfere (ack_turn r) ?sh"
  have e0: "evolves A invar pending holds ackable c s ?s0" using r inv by (simp add: round_relies_def relies_def)
  from drain [OF evolves_invar [OF e0] w ok drain'] ts
  have s1: "invar s1" "pending s1 = pending ?s0" "holds s1 = holds ?s0" "holds ?s0 c"
    and ts_eq: "ts = take (length ts) (pending ?s0 (Key c))" and ackable1: "ackable s1 c (Seq (last ts))" by simp_all
  have eh: "evolves A invar pending holds ackable c s1 ?sh"
    using heartbeat_evolves [OF A s1(1)] r by (simp add: round_relies_def)
  have ea: "evolves A invar pending holds ackable c ?sh ?sa"
    using evolves_invar [OF eh] r by (simp add: round_relies_def relies_def)
  have sa: "holds ?sa c" by (rule ack_held [OF evolves_invar [OF ea] w ack'])
  with evolves_trans [OF A eh ea] ackable1 have "ackable ?sa c (Seq (last ts))" by (simp add: evolves_def)
  from ack_ok [OF evolves_invar [OF ea] w this ack'] ack_any [OF evolves_invar [OF ea] w ack']
  have s2: "invar s2" "h \<longleftrightarrow> holds s2 c"
    and p2: "pending s2 (Key c) = dropWhile (\<lambda>t. Seq t \<le> Seq (last ts)) (pending ?sa (Key c))" by simp_all
  from e0 s1(4) obtain x0 where x0: "x0 \<in> A" "pending ?s0 (Key c) = pending s (Key c) @ x0" "holds s c"
    by (auto simp: evolves_def)
  from evolves_trans [OF A eh ea] sa obtain x1 where x1: "x1 \<in> A"
    "pending ?sa (Key c) = pending ?s0 (Key c) @ x1" using s1 by (auto simp: evolves_def)
  have "take (length ts) (pending ?sa (Key c)) = ts"
    using ts_eq x1(2) by (metis append_take_drop_id append.assoc append_eq_conv_conj)
  then have "pending ?sa (Key c) = ts @ pending s2 (Key c)"
    using ack_batch [OF pending_sorted [OF evolves_invar [OF ea]], of "length ts" "Key c"] ts p2
    by (metis append_take_drop_id)
  then have "pending s (Key c) @ (x0 @ x1) = ts @ pending s2 (Key c)" using x0 x1 by simp
  moreover have "x0 @ x1 \<in> A" using A x0 x1 by (simp add: extensions_def)
  ultimately show ?thesis using s2 x0(3) by blast
qed

end

text \<open>
  From a unit with pending tasks \<open>p\<close>, the list \<open>ps\<close> is a prefix of its FIFO (\<open>p\<close> and what was
  appended meanwhile), and after an exit without error exactly \<open>ps\<close> has left the queue.
\<close>

definition fifo_prefix :: "Task list set \<Rightarrow> Task list \<Rightarrow> Task list \<Rightarrow> exit \<Rightarrow> Task list \<Rightarrow> bool" where
  "fifo_prefix A p ps ex p' \<longleftrightarrow>
     (\<exists>x \<in> A. \<exists>rest. p @ x = ps @ rest \<and> (ex = Returned True None \<longrightarrow> p' = rest))"

lemma fifo_prefix_Nil: "extensions A \<Longrightarrow> ex \<noteq> Returned True None \<Longrightarrow> fifo_prefix A p [] ex p'"
  by (auto simp: fifo_prefix_def extensions_def)

lemma fifo_prefix_same: "extensions A \<Longrightarrow> fifo_prefix A p [] ex p"
  by (auto simp: fifo_prefix_def extensions_def)

lemma fifo_prefix_step:
  assumes "extensions A" and "x \<in> A" and "p @ x = ts @ q" and "fifo_prefix A q ps ex p'"
  shows "fifo_prefix A p (ts @ ps) ex p'"
proof -
  from assms(4) obtain y rest where y: "y \<in> A" "q @ y = ps @ rest" "ex = Returned True None \<longrightarrow> p' = rest"
    by (auto simp: fifo_prefix_def)
  then have "p @ (x @ y) = (ts @ ps) @ rest" using assms(3) by (metis append_assoc)
  moreover have "x @ y \<in> A" using assms(1,2) y(1) by (simp add: extensions_def)
  ultimately show ?thesis using y(3) unfolding fifo_prefix_def by blast
qed

context backend_contract
begin

lemma drained_prefix:
  assumes "extensions A" and "invar s" and "relies A invar pending holds ackable c t" and "genuine c" and "drain_ok e"
    and "be_Drain be e c n (interfere t s) = (Ok ts, s1)" and "ex \<noteq> Returned True None"
  shows "fifo_prefix A (pending s (Key c)) ts ex p'"
proof -
  have e0: "evolves A invar pending holds ackable c s (interfere t s)"
    using assms(2,3) by (simp add: relies_def)
  from drain [OF evolves_invar [OF e0] assms(4-6)] e0
  obtain x where "x \<in> A" "ts = take (length ts) (pending s (Key c) @ x)" by (auto simp: evolves_def)
  then show ?thesis
    using assms(7) unfolding fifo_prefix_def by (metis append_take_drop_id)
qed

lemma round_released:
  assumes A: "extensions A" and inv: "invar s" and r: "round_relies A invar pending holds ackable c r"
    and w: "genuine c" and ok: "drain_ok (reads (drain_turn r))"
    and drain': "be_Drain be (reads (drain_turn r)) c n (interfere (drain_turn r) s) = (rd, s1)"
    and rel': "be_Release be (reads (ack_turn r)) c (interfere (ack_turn r) s1) = (ru, s2)"
  shows "invar s2 \<and> (ru = Ok () \<longrightarrow> \<not> holds s2 c \<and> fifo_prefix A (pending s (Key c)) [] ex (pending s2 (Key c)))"
proof -
  let ?s0 = "interfere (drain_turn r) s" and ?sr = "interfere (ack_turn r) s1"
  have e0: "evolves A invar pending holds ackable c s ?s0" using r inv by (simp add: round_relies_def relies_def)
  note d = drain [OF evolves_invar [OF e0] w ok drain']
  have e1: "evolves A invar pending holds ackable c s s1" using e0 d by (simp add: evolves_def)
  have e2: "evolves A invar pending holds ackable c s1 ?sr" using r d by (simp add: round_relies_def relies_def)
  note rel = release [OF evolves_invar [OF e2] w rel']
  with evolves_trans [OF A e1 e2] show ?thesis by (auto simp: evolves_def fifo_prefix_def)
qed

text \<open>The inner loop keeps the invariant and processes a prefix of the unit's FIFO, however it ends.\<close>

lemma drain_loop_sound:
  assumes A: "extensions A" and "invar s" and w: "genuine c"
    and "\<forall>r \<in> set rs. round_relies A invar pending holds ackable c r \<and> drain_ok (reads (drain_turn r))"
    and "drain_loop be cfg c rs tr s = Some (ex, tr', s')"
  shows "invar s' \<and> (\<exists>ps. processed tr' = processed tr @ map (Pair (Key c)) ps \<and>
    fifo_prefix A (pending s (Key c)) ps ex (pending s' (Key c)))"
  using assms(2,4,5)
proof (induction rs arbitrary: tr s)
  case Nil
  then show ?case by simp
next
  case (Cons r rs)
  have rr: "round_relies A invar pending holds ackable c r" and ok: "drain_ok (reads (drain_turn r))"
    using Cons.prems(2) by simp_all
  let ?s0 = "interfere (drain_turn r) s"
  have e0: "evolves A invar pending holds ackable c s ?s0"
    using rr Cons.prems(1) by (simp add: round_relies_def relies_def)
  obtain rd s1 where dr: "be_Drain be (reads (drain_turn r)) c (Batch cfg) ?s0 = (rd, s1)"
    by (cases "be_Drain be (reads (drain_turn r)) c (Batch cfg) ?s0")
  note d = drain [OF evolves_invar [OF e0] w ok dr]
  consider (stop) "\<forall>ts. rd \<noteq> Ok ts" | (empty) "rd = Ok []" | (batch) ts where "rd = Ok ts" "ts \<noteq> []"
    by (cases rd) auto
  then show ?case
  proof cases
    case stop
    with dr d Cons.prems(3) show ?thesis by (cases rd) (auto intro!: exI [of _ "[]"] fifo_prefix_Nil A)
  next
    case empty
    obtain ru s2 where re: "be_Release be (reads (ack_turn r)) c (interfere (ack_turn r) s1) = (ru, s2)"
      by (cases "be_Release be (reads (ack_turn r)) c (interfere (ack_turn r) s1)")
    with round_released [OF A Cons.prems(1) rr w ok dr re] empty dr Cons.prems(3) show ?thesis
      by (cases ru) (auto intro!: exI [of _ "[]"] fifo_prefix_Nil A)
  next
    case batch
    let ?sh = "Worker.heartbeat be cfg c (beat_turns r) s1" and ?th = "Seq (last ts)"
    let ?sa = "interfere (ack_turn r) ?sh"
    obtain ra s2 where ak: "be_Ack be (reads (ack_turn r)) c ?th ?sa = (ra, s2)"
      by (cases "be_Ack be (reads (ack_turn r)) c ?th ?sa")
    have ea: "evolves A invar pending holds ackable c ?sh ?sa"
      using rr evolves_invar [OF heartbeat_evolves [OF A]] d by (simp add: round_relies_def relies_def)
    show ?thesis
    proof (cases "\<exists>h. ra = Ok h")
      case False
      with ack_any [OF evolves_invar [OF ea] w ak] batch dr ak Cons.prems(3)
        drained_prefix [OF A Cons.prems(1) _ w ok, of "drain_turn r"] rr
      show ?thesis by (cases ra) (auto simp: round_relies_def intro!: exI [of _ ts])
    next
      case True
      then obtain h where h: "ra = Ok h" by blast
      from round_acked [OF A Cons.prems(1) rr w ok _ batch(2)] dr ak h batch(1)
      obtain x where s2: "invar s2" and x: "x \<in> A" "pending s (Key c) @ x = ts @ pending s2 (Key c)"
        by blast
      have "\<exists>ps. invar s' \<and> processed tr' = processed tr @ map (Pair (Key c)) (ts @ ps) \<and>
          fifo_prefix A (pending s2 (Key c)) ps ex (pending s' (Key c))"
      proof (cases h)
        case True
        with Cons.IH [OF s2, of "tr @ process cfg c ts @ [RecAck (length ts), RecLoop]"] h ak dr batch Cons.prems
        show ?thesis by auto
      next
        case False
        with h ak dr batch Cons.prems(3) s2 show ?thesis
          by (auto intro!: exI [of _ "[]"] fifo_prefix_same A)
      qed
      then show ?thesis by (auto intro: fifo_prefix_step [OF A x] simp del: map_append)
    qed
  qed
qed

end

context backend_contract
begin

lemma runOnce_sound:
  assumes A: "extensions A" and inv: "invar (interfere t s)" and env: "env_ok (interfere t s) (reads t)"
    and w: "w \<noteq> ''''" and rs: "\<And>c. Worker c = w \<Longrightarrow> \<forall>r \<in> set rs. round_relies A invar pending holds ackable c r \<and> drain_ok (reads (drain_turn r))"
    and run: "runOnce be w cfg t rs s = Some (ex, tr, s')"
  shows "invar s' \<and> (\<exists>k ps. processed tr = map (Pair k) ps \<and>
    fifo_prefix A (pending (interfere t s) k) ps ex (pending s' k))"
proof -
  obtain rc s1 where cl: "be_Claim be (reads t) w (cfg_Lease cfg) (interfere t s) = (rc, s1)"
    by (cases "be_Claim be (reads t) w (cfg_Lease cfg) (interfere t s)")
  consider (err) "\<forall>x. rc \<noteq> Ok x" | (none) "rc = Ok None" | (some) c where "rc = Ok (Some c)"
    by (cases rc) auto
  then show ?thesis
  proof cases
    case err
    with claim_err [OF inv env w cl] cl run show ?thesis
      by (cases rc) (auto simp: runOnce_def intro!: exI [of _ "[]"] fifo_prefix_Nil A)
  next
    case none
    with claim_none [OF inv env w] cl run show ?thesis
      by (auto simp: runOnce_def intro!: exI [of _ "[]"] fifo_prefix_Nil A)
  next
    case some
    with claim_some [OF inv env w] cl have s1: "invar s1" "holds s1 c" "pending s1 = pending (interfere t s)"
      "Worker c = w" by blast+
    from some cl run have "drain_loop be cfg c rs [RecClaim True] s1 = Some (ex, tr, s')"
      by (simp add: runOnce_def)
    from drain_loop_sound [OF A s1(1) holds_genuine [OF s1(2)] rs [OF s1(4)] this] s1(3) show ?thesis by auto
  qed
qed

end

section \<open>The loop ends\<close>

text \<open>A schedule in which nobody else touches the queue.\<close>

definition quiet :: "('o, 's) turn \<Rightarrow> bool" where
  "quiet t \<longleftrightarrow> (\<forall>s. interfere t s = s)"

definition quiet_round :: "('o, 's) round \<Rightarrow> bool" where
  "quiet_round r \<longleftrightarrow> quiet (drain_turn r) \<and> quiet (ack_turn r) \<and> (\<forall>t \<in> set (beat_turns r). quiet t)"

lemma quiet_round_relies: "quiet_round r \<Longrightarrow> round_relies {[]} invar pending holds ackable c r"
  by (auto simp: quiet_round_def quiet_def round_relies_def relies_def evolves_def)

context available_backend
begin

lemma heartbeat_quiet:
  assumes "invar s" and "\<forall>t \<in> set ts. quiet t"
  shows "invar (Worker.heartbeat be cfg c ts s) \<and> holds (Worker.heartbeat be cfg c ts s) = holds s"
proof -
  have "invar (heartbeats be cfg c ts s) \<and> holds (heartbeats be cfg c ts s) = holds s"
    using assms
  proof (induction ts arbitrary: s)
    case (Cons t ts)
    obtain r s1 where hb: "be_Heartbeat be (reads t) c (cfg_Lease cfg) s = (r, s1)"
      by (cases "be_Heartbeat be (reads t) c (cfg_Lease cfg) s")
    with heartbeat [OF Cons.prems(1) hb] Cons show ?case by (simp add: quiet_def)
  qed simp
  with assms(1) show ?thesis by (simp add: heartbeat_def)
qed

text \<open>
  Without interference a holder with a positive batch size ends its loop normally within one round
  more than there are pending tasks, and does not keep the lease.
\<close>

lemma drain_loop_total:
  assumes "invar s" and "holds s c" and b: "1 \<le> Batch cfg"
    and "\<forall>r \<in> set rs. quiet_round r \<and> drain_ok (reads (drain_turn r))" and "length (pending s (Key c)) < length rs"
  shows "\<exists>tr' s'. drain_loop be cfg c rs tr s = Some (Returned True None, tr', s') \<and> \<not> holds s' c"
  using assms(1,2,4,5)
proof (induction rs arbitrary: tr s)
  case (Cons r rs)
  have w: "genuine c" using holds_genuine Cons.prems(2) .
  have ok: "drain_ok (reads (drain_turn r))" and q: "quiet_round r" and q': "\<forall>s. interfere (drain_turn r) s = s" "\<forall>s. interfere (ack_turn r) s = s"
    using Cons.prems(3) by (simp_all add: quiet_round_def quiet_def)
  obtain ts s1 where dr: "be_Drain be (reads (drain_turn r)) c (Batch cfg) s = (Ok ts, s1)"
    using drain_total [OF Cons.prems(1,2) ok, of "Batch cfg"] b by auto
  note d = drain [OF Cons.prems(1) w ok dr]
  show ?case
  proof (cases "ts = []")
    case True
    obtain s2 where re: "be_Release be (reads (ack_turn r)) c s1 = (Ok (), s2)"
      using release_total [of s1 c "reads (ack_turn r)"] d Cons.prems(2) by auto
    with release [of s1 c _ "Ok ()" s2] d w True dr q' show ?thesis by auto
  next
    case False
    let ?sh = "Worker.heartbeat be cfg c (beat_turns r) s1"
    have sh: "invar ?sh" "holds ?sh c"
      using heartbeat_quiet [of s1 "beat_turns r" cfg c] d Cons.prems(2) q by (auto simp: quiet_round_def)
    obtain h s2 where ak: "be_Ack be (reads (ack_turn r)) c (Seq (last ts)) ?sh = (Ok h, s2)"
      using ack_total [OF sh] by blast
    have s2: "invar s2" "h \<longleftrightarrow> holds s2 c" "pending s (Key c) = ts @ pending s2 (Key c)"
      using round_acked [OF extensions_Nil Cons.prems(1) quiet_round_relies [OF q] w ok _ False,
          of "Batch cfg" s1 cfg h s2] dr ak q' by auto
    from s2(3) False Cons.prems(4) have "length (pending s2 (Key c)) < length rs"
      by (cases ts) auto
    then show ?thesis
      using Cons.IH [OF s2(1)] s2(2) Cons.prems(3) dr ak False q' by auto
  qed
qed simp

lemma runOnce_total:
  assumes "invar s" and "env_ok s (reads t)" and "w \<noteq> ''''" and "1 \<le> Batch cfg"
    and t: "quiet t" and rs: "\<forall>r \<in> set rs. quiet_round r \<and> drain_ok (reads (drain_turn r))" and fuel: "\<forall>k. length (pending s k) < length rs"
  shows "\<exists>tr s'. runOnce be w cfg t rs s = Some (Returned False None, tr, s') \<and> invar s' \<and> processed tr = [] \<and>
      pending s' = pending s \<and> holds s' = holds s \<or>
    runOnce be w cfg t rs s = Some (Returned True None, tr, s') \<and> invar s' \<and>
      (\<exists>k ps. processed tr = map (Pair k) ps \<and> pending s k = ps @ pending s' k)"
proof -
  obtain x s1 where cl: "be_Claim be (reads t) w (cfg_Lease cfg) s = (Ok x, s1)"
    using claim_total [OF assms(1-3)] by blast
  show ?thesis
  proof (cases x)
    case None
    with claim_none [OF assms(1-3)] cl have "invar s1" "pending s1 = pending s" "holds s1 = holds s" by blast+
    with None cl t show ?thesis by (auto simp: runOnce_def quiet_def)
  next
    case (Some c)
    with claim_some [OF assms(1-3)] cl have s1: "invar s1" "holds s1 c" "pending s1 = pending s" by blast+
    obtain tr s' where dl: "drain_loop be cfg c rs [RecClaim True] s1 = Some (Returned True None, tr, s')"
      using drain_loop_total [OF s1(1,2) assms(4) rs, of "[RecClaim True]"] fuel s1(3) by auto
    have "\<forall>r \<in> set rs. round_relies {[]} invar pending holds ackable c r \<and> drain_ok (reads (drain_turn r))"
      using rs by (auto intro: quiet_round_relies)
    with drain_loop_sound [OF extensions_Nil s1(1) holds_genuine [OF s1(2)] _ dl] s1(3)
    have "invar s' \<and> (\<exists>ps. processed tr = map (Pair (Key c)) ps \<and> pending s (Key c) = ps @ pending s' (Key c))"
      by (auto simp: fifo_prefix_def)
    with dl cl Some t show ?thesis by (auto simp: runOnce_def quiet_def)
  qed
qed

end

section \<open>Backoff\<close>

text \<open>A sane backoff configuration: positive bounds whose double does not overflow.\<close>

definition sane_backoff :: "BackoffConfig \<Rightarrow> bool" where
  "sane_backoff b \<longleftrightarrow> 0 < Min b \<and> Min b \<le> Max b \<and> Max b < 2 ^ 62"

lemma next_backoff_eq:
  assumes "sane_backoff b" and "0 \<le> d" and "d \<le> Max b"
  shows "next_backoff b d = (if d = 0 then Min b else min (2 * d) (Max b))"
proof -
  have "i64 (d * 2) = d * 2" using assms by (intro i64_id) (auto simp: sane_backoff_def)
  with assms show ?thesis by (auto simp: next_backoff_def sane_backoff_def Let_def min_def)
qed

lemma next_backoff_bounds:
  assumes "sane_backoff b" and "d = 0 \<or> Min b \<le> d \<and> d \<le> Max b"
  shows "Min b \<le> next_backoff b d" and "next_backoff b d \<le> Max b"
proof -
  have "0 \<le> d" "d \<le> Max b" using assms by (auto simp: sane_backoff_def)
  with assms show "Min b \<le> next_backoff b d" and "next_backoff b d \<le> Max b"
    by (auto simp: next_backoff_eq sane_backoff_def)
qed

text \<open>After \<open>n + 1\<close> empty iterations in a row the backoff is the doubled minimum, capped.\<close>

lemma next_backoff_iterate:
  assumes "sane_backoff b"
  shows "(next_backoff b ^^ Suc n) 0 = min (Min b * 2 ^ n) (Max b)"
proof (induction n)
  case 0
  with assms show ?case by (simp add: next_backoff_eq sane_backoff_def)
next
  case (Suc n)
  let ?d = "min (Min b * 2 ^ n) (Max b)"
  have d: "0 < ?d" "?d \<le> Max b" using assms by (auto simp: sane_backoff_def)
  have "(next_backoff b ^^ Suc (Suc n)) 0 = next_backoff b ?d" using Suc by simp
  also have "\<dots> = min (2 * ?d) (Max b)" using d assms by (subst next_backoff_eq) auto
  also have "\<dots> = min (Min b * 2 ^ Suc n) (Max b)" using assms by (auto simp: sane_backoff_def min_def)
  finally show ?case .
qed

lemma Run_sleeps:
  assumes b: "sane_backoff (Backoff cfg)"
  shows "Run be w cfg its idle s = Some (x, ds, s') \<Longrightarrow>
    idle = 0 \<or> Min (Backoff cfg) \<le> idle \<and> idle \<le> Max (Backoff cfg) \<Longrightarrow>
    d \<in> set ds \<Longrightarrow> Min (Backoff cfg) \<le> d \<and> d \<le> Max (Backoff cfg)"
proof (induction its arbitrary: idle s ds)
  case (Cons it its)
  note nb = next_backoff_bounds [OF b Cons.prems(2)]
  show ?case
    using Cons.prems(1,3) Cons.IH [of 0] Cons.IH [of "next_backoff (Backoff cfg) idle"] nb
    by (auto simp: Let_def split: if_splits option.splits exit.splits prod.splits)
qed simp

lemma pool_ids_distinct: "distinct (pool_ids n)"
  by (auto simp: pool_ids_def distinct_map fmt_d_inj intro!: inj_onI)

lemma pool_ids_nonempty: "w \<in> set (pool_ids n) \<Longrightarrow> w \<noteq> ''''"
  by (auto simp: pool_ids_def)

section \<open>Telemetry\<close>

text \<open>The tasks reported to \<open>Recorder.Ack\<close>.\<close>

fun reported :: "action list \<Rightarrow> nat" where
  "reported [] = 0"
| "reported (RecAck n # tr) = n + reported tr"
| "reported (_ # tr) = reported tr"

lemma reported_append [simp]: "reported (tr @ tr') = reported tr + reported tr'"
  by (induction tr rule: reported.induct) simp_all

lemma reported_process [simp]: "reported (process cfg c ts) = 0"
  by (induction ts) (simp_all add: process_def work_def)

lemma drain_loop_reported:
  "drain_loop be cfg c rs tr s = Some (ex, tr', s') \<Longrightarrow> reported tr = length (processed tr) \<Longrightarrow>
    reported tr' \<le> length (processed tr') \<and> (ex = Returned True None \<longrightarrow> reported tr' = length (processed tr'))"
proof (induction rs arbitrary: tr s)
  case (Cons r rs)
  obtain rd s1 where dr: "be_Drain be (reads (drain_turn r)) c (Batch cfg) (interfere (drain_turn r) s) = (rd, s1)"
    by (cases "be_Drain be (reads (drain_turn r)) c (Batch cfg) (interfere (drain_turn r) s)")
  consider (stop) "\<forall>ts. rd \<noteq> Ok ts" | (empty) "rd = Ok []" | (batch) ts where "rd = Ok ts" "ts \<noteq> []"
    by (cases rd) auto
  then show ?case
  proof cases
    case stop
    with Cons.prems dr show ?thesis by (cases rd) auto
  next
    case empty
    obtain ru s2 where "be_Release be (reads (ack_turn r)) c (interfere (ack_turn r) s1) = (ru, s2)"
      by (cases "be_Release be (reads (ack_turn r)) c (interfere (ack_turn r) s1)")
    with empty Cons.prems dr show ?thesis by (cases ru) auto
  next
    case batch
    let ?sa = "interfere (ack_turn r) (heartbeat be cfg c (beat_turns r) s1)"
    obtain ra s2 where "be_Ack be (reads (ack_turn r)) c (Seq (last ts)) ?sa = (ra, s2)"
      by (cases "be_Ack be (reads (ack_turn r)) c (Seq (last ts)) ?sa")
    with batch Cons.prems dr Cons.IH [of "tr @ process cfg c ts @ [RecAck (length ts), RecLoop]" s2]
    show ?thesis by (cases ra) (auto simp: Let_def split: if_splits)
  qed
qed simp

section \<open>Guarantees of the worker\<close>

text \<open>
  Adaptive backoff: after \<open>n + 1\<close> iterations in a row without work the worker sleeps the minimum doubled
  \<open>n\<close> times, capped at the maximum, for every configuration whose doubled bounds do not overflow.
\<close>

theorem backoff_doubles:
  assumes "0 < Min b" and "Min b \<le> Max b" and "Max b < 2 ^ 62"
  shows "(next_backoff b ^^ Suc n) 0 = min (Min b * 2 ^ n) (Max b)"
  using next_backoff_iterate [of b n] assms by (simp add: sane_backoff_def)

theorem backoff_doubles_witness:
  "(next_backoff \<lparr>Min = 1000000, Max = 1000000000\<rparr> ^^ Suc 3) 0 = 8000000"
  using backoff_doubles [of "\<lparr>Min = 1000000, Max = 1000000000\<rparr>" 3] by simp

text \<open>
  A worker's life: whatever the backend answers, every sleep of \<open>Run\<close> started with no idle time lies
  between the configured bounds, so an erroring backend is never polled in a busy loop.
\<close>

theorem run_never_spins:
  assumes "0 < Min (Backoff cfg)" and "Min (Backoff cfg) \<le> Max (Backoff cfg)" and "Max (Backoff cfg) < 2 ^ 62"
    and "Run be w cfg its 0 s = Some (x, ds, s')" and "d \<in> set ds"
  shows "Min (Backoff cfg) \<le> d \<and> d \<le> Max (Backoff cfg)"
  using Run_sleeps [OF _ assms(4) _ assms(5)] assms(1-3) by (simp add: sane_backoff_def)

theorem run_never_spins_witness:
  "\<exists>x s'. Run (Unimplemented :: (nat, nat) Backend) ''w0''
      \<lparr>cfg_Lease = 30, Batch = 4, Backoff = \<lparr>Min = 2, Max = 9\<rparr>, Process = \<lparr>Kind = ''zero'', Base = 0, PerCost = 0\<rparr>\<rparr>
      (replicate 4 \<lparr>cancelled = False, claim_turn = \<lparr>interfere = id, reads = 0\<rparr>, rounds = [], cancelled_asleep = False\<rparr>
        @ [\<lparr>cancelled = True, claim_turn = \<lparr>interfere = id, reads = 0\<rparr>, rounds = [], cancelled_asleep = False\<rparr>]) 0 0
    = Some (x, [2, 4, 8, 9], s') \<and> 2 \<le> (8::int) \<and> 8 \<le> (9::int)"
proof -
  let ?cfg = "\<lparr>cfg_Lease = 30, Batch = 4, Backoff = \<lparr>Min = 2, Max = 9\<rparr>,
    Process = \<lparr>Kind = ''zero'', Base = 0, PerCost = 0\<rparr>\<rparr>"
  let ?it = "\<lambda>c. \<lparr>cancelled = c, claim_turn = \<lparr>interfere = id, reads = 0\<rparr>, rounds = [], cancelled_asleep = False\<rparr>"
  have run: "Run (Unimplemented :: (nat, nat) Backend) ''w0'' ?cfg (replicate 4 (?it False) @ [?it True]) 0 0
      = Some (True, [2, 4, 8, 9], 0)"
    by (simp add: numeral_eq_Suc runOnce_def Unimplemented_def next_backoff_def i64_def Let_def)
  from run_never_spins [OF _ _ _ run, of 8] run show ?thesis by auto
qed

text \<open>
  Throughput is counted honestly: a \<open>runOnce\<close> never reports more acknowledged tasks to the \<open>Recorder\<close>
  than it handed to \<open>OnProcess\<close>, and exactly as many when it returns without error.
\<close>

theorem throughput_honest:
  assumes "runOnce be w cfg t rs s = Some (ex, tr, s')"
  shows "reported tr \<le> length (processed tr) \<and>
    (case ex of Returned did e \<Rightarrow> e = None \<longrightarrow> reported tr = length (processed tr) | Panicked \<Rightarrow> True)"
proof -
  obtain rc s1 where cl: "be_Claim be (reads t) w (cfg_Lease cfg) (interfere t s) = (rc, s1)"
    by (cases "be_Claim be (reads t) w (cfg_Lease cfg) (interfere t s)")
  have dl: "ex \<noteq> Returned False None" if "drain_loop be cfg c rs tr0 s1 = Some (ex, tr, s')" for c tr0
    using that by (induction be cfg c rs tr0 s1 rule: drain_loop.induct) (auto split: result.splits prod.splits if_splits simp: Let_def)
  show ?thesis
  proof (cases rc)
    case (Ok oc)
    then show ?thesis
    proof (cases oc)
      case (Some c)
      with Ok cl assms have loop: "drain_loop be cfg c rs [RecClaim True] s1 = Some (ex, tr, s')" by (simp add: runOnce_def)
      have "ex \<noteq> Returned False None" using dl [OF loop] .
      with drain_loop_reported [OF loop] show ?thesis by (cases ex) (auto split: bool.splits)
    qed (use Ok cl assms in \<open>auto simp: runOnce_def\<close>)
  qed (use cl assms in \<open>auto simp: runOnce_def\<close>)
qed

text \<open>
  The pool names its \<open>n\<close> workers differently, and none of them is the empty name that stands for a
  free unit.
\<close>

theorem pool_names:
  "distinct (pool_ids n) \<and> '''' \<notin> set (pool_ids n) \<and> length (pool_ids n) = nat n"
  using pool_ids_distinct pool_ids_nonempty by (auto simp: pool_ids_def)

end
