(* ===== verification/Memory_Contract.thy ===== *)
theory Memory_Contract
  imports Memory_System Worker
begin

text \<open>
  The in-memory backend keeps the contract of the \<open>Backend\<close> interface, so everything shown of the
  worker loop over the contract holds of workers on this backend: alone, and against any interleaving
  of calls by other producers, workers and reapers.
\<close>

section \<open>The contract\<close>

definition mem_holds :: "memory \<Rightarrow> ClaimedUnit \<Rightarrow> bool" where
  "mem_holds b c \<longleftrightarrow> Worker c \<noteq> '''' \<and> mem_holder b (Key c) = Some (Worker c, Lease c)"

definition mem_env_ok :: "memory \<Rightarrow> mem_env \<Rightarrow> bool" where
  "mem_env_ok b e \<longleftrightarrow> range_order b (order e) \<and> leaseCounter b < 2 ^ 63 - 1"

lemma mem_holds_held: "mem_holds b c \<longleftrightarrow> Worker c \<noteq> '''' \<and> (\<exists>u. held b c = Ok u)"
  using mem_holder_held by (auto simp: mem_holds_def)

lemma mem_holds_cong: "mem_holder b' = mem_holder b \<Longrightarrow> mem_holds b' = mem_holds b"
  by (simp add: mem_holds_def fun_eq_iff)

lemma mem_pending_sorted: "mem_inv b \<Longrightarrow> seq_sorted (mem_pending b k)"
  by (cases "units b k") (auto dest: mem_invD(4) wf_unit_sorted)

lemma mem_Claim_contract:
  assumes "mem_inv b" and "mem_env_ok b e" and "w \<noteq> ''''"
    and "mem_Claim (order e) now w d b = (Ok (Some c), b')"
  shows "mem_inv b' \<and> mem_holds b' c \<and> Worker c = w \<and> mem_pending b' = mem_pending b \<and>
    mem_pending b (Key c) \<noteq> [] \<and> (\<forall>c'. Key c' = Key c \<longrightarrow> \<not> mem_holds b c') \<and>
    (\<forall>c'. Key c' \<noteq> Key c \<longrightarrow> mem_holds b' c' = mem_holds b c')"
proof -
  from assms(4) obtain k u where ku: "claim_scan (units b) (order e) None = Some (k, u)"
    and c: "Key c = key u" "Worker c = w"
    and b': "b' = b\<lparr>leaseCounter := i64 (leaseCounter b + 1), units := (units b)(k \<mapsto> u\<lparr>claimedBy := w,
      lease := Lease c, leaseDur := d, leaseExpires := now + d\<rparr>)\<rparr>"
    by (auto simp: mem_Claim_def Let_def split: option.splits)
  from claim_scan_Some [OF ku] have u: "units b k = Some u" "claimable u" by auto
  with mem_invD(4) [OF assms(1) u(1)] have k: "key u = k" by (simp add: wf_unit_def)
  have "mem_inv b'"
    using mem_inv_Claim [OF assms(1,3), of "order e" now d] assms(2,4) by (simp add: mem_env_ok_def)
  with u k c b' assms(3) show ?thesis
    by (auto simp: mem_holds_def claimable_def fun_upd_idem)
qed

lemma mem_Ack_contract:
  assumes "mem_inv b" and "Worker c \<noteq> ''''" and "mem_Ack now now' c th b = (Ok h, b')"
  shows "mem_holds b c \<and> mem_inv b' \<and> mem_pending b' (Key c) = unacked th (mem_pending b (Key c)) \<and>
    (\<forall>k. k \<noteq> Key c \<longrightarrow> mem_pending b' k = mem_pending b k) \<and> (h \<longleftrightarrow> mem_holds b' c)"
proof -
  have inv: "mem_inv b'" using mem_inv_Ack(1) [OF assms(1), of now now' c th] assms(3) by simp
  have "spec_step (mem_abs b) (EvAck (Key c) (Worker c) (Lease c) (acked th (mem_pending b (Key c))) h) (mem_abs b')"
    using sim_Ack [OF assms(1,2), of now now' th] assms(3) by simp
  then show ?thesis
  proof cases
    case (ack rest)
    have eq: "mem_pending b' = (mem_pending b)(Key c := rest)"
      "mem_holder b' = (mem_holder b)(Key c := if h then Some (Worker c, Lease c) else None)"
      using arg_cong [OF ack(1), of s_queue] arg_cong [OF ack(1), of s_holder] by simp_all
    moreover have "rest = unacked th (mem_pending b (Key c))"
      using ack(3) by (metis mem_abs_fields(1) same_append_eq takeWhile_dropWhile_id)
    ultimately show ?thesis using ack(2) inv assms(2) by (auto simp: mem_holds_def)
  qed
qed

lemma mem_Release_contract:
  assumes "mem_inv b" and "Worker c \<noteq> ''''" and "mem_Release c b = (r, b')"
  shows "mem_inv b' \<and> mem_pending b' = mem_pending b \<and> (r = Ok () \<longrightarrow> mem_holds b c \<and> \<not> mem_holds b' c)"
proof -
  have inv: "mem_inv b'" using mem_inv_Release [OF assms(1), of c] assms(3) by simp
  show ?thesis
  proof (cases rule: held_cases [of b c])
    case lost
    with assms inv show ?thesis by (auto simp: mem_Release_def)
  next
    case (ok u)
    then have u: "units b (Key c) = Some u" "claimedBy u = Worker c" "lease u = Lease c"
      by (simp_all add: held_Ok_iff)
    from ok assms(3) have "b' = b\<lparr>units := (units b)(Key c \<mapsto> u\<lparr>claimedBy := '''', lease := ''''\<rparr>)\<rparr>"
      by (simp add: mem_Release_def)
    with u assms(2) inv show ?thesis by (simp add: mem_holds_def fun_upd_idem)
  qed
qed

lemma mem_Heartbeat_contract:
  assumes "mem_inv b" and "mem_Heartbeat now c d b = (r, b')"
  shows "mem_inv b' \<and> mem_pending b' = mem_pending b \<and> mem_holds b' = mem_holds b"
proof -
  have "mem_inv b'" using mem_inv_Heartbeat [OF assms(1), of now c d] assms(2) by simp
  moreover have eq: "mem_abs b' = mem_abs b" using sim_Hbt [of now c d b] assms(2) by simp
  moreover have "mem_pending b' = mem_pending b" "mem_holder b' = mem_holder b"
    using arg_cong [OF eq, of s_queue] arg_cong [OF eq, of s_holder] by simp_all
  ultimately show ?thesis using mem_holds_cong by blast
qed

lemma mem_Drain_contract:
  assumes "Worker c \<noteq> ''''" and "mem_Drain c n b = (r, b')"
  shows "b' = b" and "r = Ok ts \<Longrightarrow> mem_holds b c \<and> ts = take (nat n) (mem_pending b (Key c))"
  using assms by (auto simp: mem_Drain_def mem_holds_held held_Ok_iff Let_def split: result.splits if_splits)

lemma memory_Backend_simps [simp]:
  "be_Enqueue memory_Backend e = mem_Enqueue (clock e)"
  "be_Claim memory_Backend e = mem_Claim (order e) (clock e)"
  "be_Drain memory_Backend e = mem_Drain"
  "be_Ack memory_Backend e = mem_Ack (clock e) (clock' e)"
  "be_Release memory_Backend e = mem_Release"
  "be_Heartbeat memory_Backend e = mem_Heartbeat (clock e)"
  "be_Fail memory_Backend e = mem_Fail (clock e)"
  "be_ReapExpired memory_Backend e = mem_ReapExpired (order e)"
  by (simp_all add: memory_Backend_def)

lemma mem_Claim_Ok: "\<exists>x b'. mem_Claim ord now w d b = (Ok x, b')"
  by (auto simp: mem_Claim_def Let_def split: option.split)

lemma mem_Drain_Ok: "mem_holds b c \<Longrightarrow> 0 \<le> n \<Longrightarrow> \<exists>ts b'. mem_Drain c n b = (Ok ts, b')"
  by (auto simp: mem_Drain_def mem_holds_held Let_def)

lemma mem_Ack_outcome:
  assumes "mem_inv b"
  shows "mem_holds b c \<Longrightarrow> \<exists>h b'. mem_Ack now now' c th b = (Ok h, b')"
    and "mem_Ack now now' c th b = (r, b') \<Longrightarrow> (\<And>h. r \<noteq> Ok h) \<Longrightarrow> b' = b"
proof -
  have lost: "mem_Ack now now' c th b = (Err ErrLeaseLost, b)" if "held b c = Err ErrLeaseLost"
    using that by (simp add: mem_Ack_def)
  have ok: "\<exists>h b'. mem_Ack now now' c th b = (Ok h, b')" if u: "held b c = Ok u" for u
  proof -
    from u have wf: "wf_unit (Key c) u" using mem_invD(4) [OF assms] by (simp add: held_Ok_iff)
    have "fst (mem_Ack now now' c th b) \<noteq> Panic" by (rule mem_inv_Ack(2) [OF assms])
    then show ?thesis
      by (auto simp: mem_Ack_held [OF u wf] split: option.splits if_splits)
  qed
  show "mem_holds b c \<Longrightarrow> \<exists>h b'. mem_Ack now now' c th b = (Ok h, b')"
    using ok by (auto simp: mem_holds_held)
  show "mem_Ack now now' c th b = (r, b') \<Longrightarrow> (\<And>h. r \<noteq> Ok h) \<Longrightarrow> b' = b"
    using lost ok by (cases rule: held_cases [of b c]) auto
qed

interpretation memq: available_backend memory_Backend mem_inv mem_env_ok any_env named mem_pending mem_holds any_ack any_env
proof (unfold_locales, unfold memory_Backend_simps)
  show "seq_sorted (mem_pending b k)" if "mem_inv b" for b k
    using that by (rule mem_pending_sorted)
  show "Worker c = Worker c' \<and> Lease c = Lease c'"
    if "mem_inv b" "mem_holds b c" "mem_holds b c'" "Key c = Key c'" for b c c'
    using that(2-4) unfolding mem_holds_def by auto
  show "Worker c \<noteq> ''''" if "mem_holds b c" for b c
    using that unfolding mem_holds_def by blast
  show "mem_inv b' \<and> mem_pending b' = mem_pending b \<and> mem_holds b' = mem_holds b \<and> (True \<longrightarrow> True)"
    if "mem_inv b" "mem_Claim (order e) (clock e) w d b = (Ok None, b')" for e w d b b'
    using that by (auto simp: mem_Claim_def Let_def split: option.splits)
  show "mem_inv b' \<and> mem_pending b' = mem_pending b"
    if "mem_inv b" "mem_Claim (order e) (clock e) w d b = (rc, b')" "\<And>x. rc \<noteq> Ok x" for e w d b rc b'
    using that mem_Claim_Ok [of "order e" "clock e" w d b] by auto
  show "mem_inv b' \<and> mem_holds b' c \<and> Worker c = w \<and> mem_pending b' = mem_pending b \<and>
      mem_pending b (Key c) \<noteq> [] \<and> (True \<longrightarrow> (\<forall>c'. Key c' = Key c \<longrightarrow> \<not> mem_holds b c')) \<and>
      (\<forall>c'. Key c' \<noteq> Key c \<longrightarrow> mem_holds b' c' = mem_holds b c')"
    if "mem_inv b" "mem_env_ok b e" "w \<noteq> ''''" "mem_Claim (order e) (clock e) w d b = (Ok (Some c), b')"
    for b e w d c b'
    using mem_Claim_contract [OF that] by simp
  show "mem_inv b' \<and> mem_pending b' = mem_pending b \<and> mem_holds b' = mem_holds b \<and> (\<forall>c th. True \<longrightarrow> True) \<and>
      (\<forall>ts. r = Ok ts \<longrightarrow> mem_holds b c \<and> ts = take (length ts) (mem_pending b (Key c)) \<and> int (length ts) \<le> max n 0 \<and>
        (ts \<noteq> [] \<longrightarrow> True))"
    if "mem_inv b" "Worker c \<noteq> ''''" "mem_Drain c n b = (r, b')" for b c n r b'
  proof (intro conjI allI impI)
    note b' = mem_Drain_contract(1) [OF that(2,3)]
    from b' that(1) show "mem_inv b'" "mem_pending b' = mem_pending b" "mem_holds b' = mem_holds b" by simp_all
    show "mem_holds b c" "ts = take (length ts) (mem_pending b (Key c))" "int (length ts) \<le> max n 0" if "r = Ok ts" for ts
      using mem_Drain_contract(2) [OF \<open>Worker c \<noteq> ''''\<close> \<open>mem_Drain c n b = (r, b')\<close> that] by (auto simp: min_def)
  qed simp_all
  show "mem_holds b c"
    if "mem_inv b" "Worker c \<noteq> ''''" "mem_Ack (clock e) (clock' e) c th b = (Ok h, b')" for b c e th h b'
    using mem_Ack_contract [OF that] by simp
  show "mem_pending b' (Key c) = unacked th (mem_pending b (Key c)) \<and> h = mem_holds b' c"
    if "mem_inv b" "Worker c \<noteq> ''''" "mem_Ack (clock e) (clock' e) c th b = (Ok h, b')" for b c e th h b'
    using mem_Ack_contract [OF that] by simp
  show "mem_inv b' \<and> (\<exists>i. mem_pending b' (Key c) = drop i (mem_pending b (Key c))) \<and>
      (\<forall>k. k \<noteq> Key c \<longrightarrow> mem_pending b' k = mem_pending b k)"
    if "mem_inv b" "Worker c \<noteq> ''''" "mem_Ack (clock e) (clock' e) c th b = (rb, b')" for e c th b rb b'
  proof (cases "\<exists>h. rb = Ok h")
    case True
    with mem_Ack_contract [OF that(1,2)] that(3) show ?thesis by (metis dropWhile_eq_drop)
  next
    case False
    with mem_Ack_outcome(2) [OF that(1,3)] that(1) show ?thesis by (metis drop0)
  qed
  show "mem_inv b' \<and> mem_pending b' = mem_pending b \<and> (r = Ok () \<longrightarrow> mem_holds b c \<and> \<not> mem_holds b' c)"
    if "mem_inv b" "Worker c \<noteq> ''''" "mem_Release c b = (r, b')" for b c r b'
    using that by (rule mem_Release_contract)
  show "mem_inv b' \<and> mem_pending b' = mem_pending b \<and> mem_holds b' = mem_holds b \<and> (\<forall>c th. True \<longrightarrow> True)"
    if "mem_inv b" "mem_Heartbeat (clock e) c d b = (r, b')" for b e c d r b'
    using mem_Heartbeat_contract [OF that] by simp
  show "\<exists>x b'. mem_Claim (order e) (clock e) w d b = (Ok x, b')" for e w d b
    by (rule mem_Claim_Ok)
  show "\<exists>ts b'. mem_Drain c n b = (Ok ts, b')" if "mem_holds b c" "0 \<le> n" for c n b
    using that by (rule mem_Drain_Ok)
  show "\<exists>h b'. mem_Ack (clock e) (clock' e) c th b = (Ok h, b')" if "mem_inv b" "mem_holds b c" for e c th b
    using that by (rule mem_Ack_outcome(1))
  show "\<exists>b'. mem_Release c b = (Ok (), b')" if "mem_holds b c" for c b
    using that by (auto simp: mem_Release_def mem_holds_held)
qed

section \<open>Other actors\<close>

text \<open>
  The calls of producers, reapers and workers other than \<open>w\<close>, in the order the mutex lets them in; a
  list entry that cannot be a call of another actor in the state it is due in is skipped. Heartbeats
  count as another actor's even with a claim of \<open>w\<close>: the heartbeat goroutine may fire once more after
  the worker has stopped it.
\<close>

fun by_worker :: "WorkerID \<Rightarrow> call \<Rightarrow> bool" where
  "by_worker w (Enq now k p cost) = False"
| "by_worker w (Rea ord now) = False"
| "by_worker w (Cla ord now w' d) = (w' = w)"
| "by_worker w (Dra c n) = (Worker c = w)"
| "by_worker w (Ack now now' c th) = (Worker c = w)"
| "by_worker w (Rel c) = (Worker c = w)"
| "by_worker w (Hbt now c d) = False"
| "by_worker w (Fai now c seq reason) = (Worker c = w)"

fun others :: "WorkerID \<Rightarrow> call list \<Rightarrow> memory \<Rightarrow> memory" where
  "others w [] b = b"
| "others w (cl # cls) b =
    others w cls (if \<not> by_worker w cl \<and> possible b cl \<and> has_room b cl then exec cl b else b)"

lemma by_worker_event: "\<not> by_worker w cl \<Longrightarrow> \<not> by_holder k w tok (mem_event b cl)"
  by (cases cl) (auto split: result.splits option.splits prod.splits)

lemma by_worker_claim: "grants k w tok (mem_event b cl) \<Longrightarrow> by_worker w cl"
  by (cases cl) (auto simp: mem_Claim_def Let_def split: result.splits option.splits prod.splits if_splits)

text \<open>One call of another actor, and any number of them, meet the rely condition of a holder.\<close>

lemma other_call_evolves:
  assumes "mem_inv b" and "possible b cl" and "has_room b cl" and "\<not> by_worker (Worker c) cl"
  shows "evolves UNIV mem_inv mem_pending mem_holds any_ack c b (exec cl b)"
proof -
  note step = sim_call [OF assms(1-3)]
  have "mem_holder b (Key c) = Some (Worker c, Lease c) \<and>
      mem_pending (exec cl b) (Key c) = mem_pending b (Key c) @ entered (Key c) (mem_event b cl)"
    if h: "mem_holder (exec cl b) (Key c) = Some (Worker c, Lease c)"
  proof -
    from spec_step_gains [OF step, of "Key c" "Worker c" "Lease c"] h by_worker_claim assms(4)
    have "mem_holder b (Key c) = Some (Worker c, Lease c)" by auto
    with spec_step_others [OF step] h by_worker_event [OF assms(4)] show ?thesis by auto
  qed
  with mem_inv_call [OF assms(1-3)] show ?thesis by (auto simp: evolves_def mem_holds_def)
qed

lemma others_evolves:
  "mem_inv b \<Longrightarrow> evolves UNIV mem_inv mem_pending mem_holds any_ack c b (others (Worker c) cls b)"
proof (induction cls arbitrary: b)
  case (Cons cl cls)
  let ?ok = "\<not> by_worker (Worker c) cl \<and> possible b cl \<and> has_room b cl"
  have e: "evolves UNIV mem_inv mem_pending mem_holds any_ack c b (if ?ok then exec cl b else b)"
    using other_call_evolves [OF Cons.prems] evolves_refl [OF extensions_UNIV, of mem_inv, OF Cons.prems] by simp
  with Cons.IH [OF evolves_invar [OF e]] show ?case by (auto intro: evolves_trans)
qed (simp add: evolves_refl)

definition others_turn :: "WorkerID \<Rightarrow> (mem_env, memory) turn \<Rightarrow> bool" where
  "others_turn w t \<longleftrightarrow> (\<exists>cls. interfere t = others w cls)"

definition others_round :: "WorkerID \<Rightarrow> (mem_env, memory) round \<Rightarrow> bool" where
  "others_round w r \<longleftrightarrow>
     others_turn w (drain_turn r) \<and> others_turn w (ack_turn r) \<and> (\<forall>t \<in> set (beat_turns r). others_turn w t)"

lemma others_round_relies:
  assumes "others_round (Worker c) r"
  shows "round_relies UNIV mem_inv mem_pending mem_holds any_ack c r"
proof -
  have "relies UNIV mem_inv mem_pending mem_holds any_ack c t" if "others_turn (Worker c) t" for t
    using that others_evolves by (auto simp: others_turn_def relies_def)
  with assms show ?thesis by (auto simp: others_round_def round_relies_def)
qed

lemma mem_runOnce_concurrent:
  assumes "mem_inv b" and "mem_env_ok b (reads t)" and "w \<noteq> ''''" and "interfere t = id"
    and "\<forall>r \<in> set rs. others_round w r"
    and "runOnce memory_Backend w cfg t rs b = Some (ex, tr, b')"
  shows "mem_inv b' \<and> (\<exists>k ps. processed tr = map (Pair k) ps \<and>
    fifo_prefix UNIV (mem_pending b k) ps ex (mem_pending b' k))"
proof -
  have "\<forall>r \<in> set rs. round_relies UNIV mem_inv mem_pending mem_holds any_ack c r" if "Worker c = w" for c
    using assms(5) that others_round_relies by blast
  with memq.runOnce_sound [OF extensions_UNIV, of t b w rs cfg ex tr b'] assms show ?thesis by simp
qed

end
