(* ===== verification/Memory_Correct.thy ===== *)
theory Memory_Correct
  imports Memory_Demo Memory_Contract
begin

text \<open>
  What the in-memory backend is shown to do. A history is any sequence of calls by any number of
  producers, workers and reapers on a new backend (\<open>mem_run (mem_New opt)\<close>), in which no counter of
  64 bits runs out; the last section is about single calls in any state that keeps the invariant.
\<close>

section \<open>Histories\<close>

text \<open>
  C1. In-order delivery, nothing lost and nothing duplicated in the queue: after every history and
  for every work unit, the tasks enqueued so far are, in this order, the tasks acknowledged or
  dead-lettered so far followed by the tasks still pending.
\<close>

theorem memory_fifo:
  assumes "mem_run (mem_New opt) cls evs b" and "length cls \<le> 2 ^ 63 - 1"
  shows "concat (map (entered k) evs) = concat (map (finished k) evs) @ mem_pending b k"
  using mem.run_fifo [OF assms(1) mem_ok_New, of k] assms(2) by (simp add: mem_abs_New)

theorem memory_fifo_witness:
  "concat (map (entered demo_key) (run_events (mem_New demo_opt) demo_calls)) =
    concat (map (finished demo_key) (run_events (mem_New demo_opt) demo_calls)) @ mem_pending demo demo_key \<and>
   map Seq (mem_pending demo demo_key) = [0, 1]"
  using memory_fifo [OF demo_run, of demo_key] by (simp add: demo_length) (simp add: demo_def demo_unit_def)

text \<open>
  C2. Refinement: every history of the backend is a run of the abstract lease queue, event by event,
  and ends in a state that keeps the backend's invariant.
\<close>

theorem memory_refines:
  assumes "mem_run (mem_New opt) cls evs b" and "length cls \<le> 2 ^ 63 - 1"
  shows "spec_run (mem_abs (mem_New opt)) evs (mem_abs b) \<and> mem_inv b"
  using mem.run_simulates [OF assms(1) mem_ok_New] assms(2) by (simp add: mem_ok_def)

theorem memory_refines_witness:
  "spec_run (mem_abs (mem_New demo_opt)) (run_events (mem_New demo_opt) demo_calls) (mem_abs demo) \<and> mem_inv demo"
  using memory_refines [OF demo_run] by (simp add: demo_length)



text \<open>
  C4. Fencing: a claim handed out in a history that has been lost at some later point, by expiry,
  release, failure or acknowledgement, is refused at every point after that.
\<close>

theorem memory_fencing:
  assumes "mem_run (mem_New opt) cls evs b" and "mem_Claim ord now w d b = (Ok (Some c), b1)"
    and "range_order b ord" and "w \<noteq> ''''"
    and "mem_run b1 cls1 evs1 b2" and "held b2 c = Err ErrLeaseLost"
    and "mem_run b2 cls2 evs2 b3" and "length cls + 1 + length cls1 + length cls2 \<le> 2 ^ 63 - 1"
  shows "held b3 c = Err ErrLeaseLost"
proof -
  let ?n = "length cls"
  have ok: "mem_ok ?n b" using mem.run_simulates [OF assms(1) mem_ok_New] assms(8) by simp
  have inv: "mem_inv b" and lc: "0 \<le> leaseCounter b" "leaseCounter b \<le> int ?n"
    using ok mem_invD(2) by (auto simp: mem_ok_def)
  have "mem_step b (Cla ord now w d) b1" using assms(2-4) by (simp add: mem_step_iff)
  then have ok1: "mem_ok (Suc ?n) b1" using mem_ok_step [OF ok] assms(8) by simp
  have "int ?n < 2 ^ 63 - 1" using assms(8) by simp
  with lc have i: "i64 (leaseCounter b + 1) = leaseCounter b + 1" by (intro i64_id) auto
  have c: "Worker c = w" "Lease c = lease_token w (leaseCounter b + 1)" "leaseCounter b1 = leaseCounter b + 1"
    using mem_Claim_token [OF assms(2)] i by simp_all
  have "1 \<le> leaseCounter b + 1" using lc(1) by simp
  then have tok: "Lease c \<in> s_issued (mem_abs b1)" unfolding mem_abs_fields issued_upto_def c(2,3) by blast
  have r1: "mem_ok (Suc ?n + length cls1) b2" "spec_run (mem_abs b1) evs1 (mem_abs b2)"
    using mem.run_simulates [OF assms(5) ok1] assms(8) by simp_all
  have "Lease c \<in> s_issued (mem_abs b2)" using spec_run_issued [OF r1(2)] tok by blast
  moreover have "s_holder (mem_abs b2) (Key c) \<noteq> Some (Worker c, Lease c)"
    using assms(4,6) c(1) mem_holder_held [of c b2] by auto
  ultimately have "s_holder (mem_abs b3) (Key c) \<noteq> Some (Worker c, Lease c)"
    using mem.run_stale [OF assms(7) r1(1)] assms(8) by simp
  then show ?thesis using assms(4) c(1) mem_holder_held [of c b3] held_lost_iff by auto
qed

theorem memory_fencing_witness:
  "held (exec (Rel demo_claim) demo) demo_claim = Err ErrLeaseLost \<and>
   held (exec (Enq 8 demo_key ''c'' 1) (exec (Rel demo_claim) demo)) demo_claim = Err ErrLeaseLost"
proof -
  let ?b2 = "exec (Rel demo_claim) demo" and ?enq = "Enq 8 demo_key ''c'' 1"
  have lost: "held ?b2 demo_claim = Err ErrLeaseLost"
    by (simp add: mem_Release_def demo_held) (simp add: held_def demo_claim_def)
  have "mem_run ?b2 [?enq] (run_events ?b2 [?enq]) (exec ?enq ?b2)"
    using mem_run_execs [of ?b2 "[?enq]"] by simp
  from memory_fencing [OF demo0_run demo0_claim demo0_order _ demo_release lost this] lost
  show ?thesis by (simp add: demo_enqs_def)
qed

text \<open>
  C5. The cost gate: in a history whose costs lie between 0 and \<open>C\<close>, small enough not to overflow,
  and whose clock readings are at most \<open>T\<close>, a unit whose accumulated cost has reached the threshold is
  eligible, and an eligible unit has reached the threshold or its oldest task has waited for the age
  cap by time \<open>T\<close>.
\<close>

theorem memory_gate:
  assumes "mem_run (mem_New opt) cls evs b" and "length cls \<le> 2 ^ 63 - 1"
    and "0 \<le> C" and "C * int (length cls) < 2 ^ 63"
    and "\<forall>cl \<in> set cls. cost_in C cl \<and> (\<forall>now \<in> clocks cl. now \<le> T)"
    and "units b k = Some u"
  shows "(DefaultThreshold opt \<le> costs (tasks u) \<longrightarrow> eligible u) \<and>
    (eligible u \<longrightarrow> DefaultThreshold opt \<le> costs (tasks u) \<or> hd (enqAt u) + DefaultMaxWait opt \<le> T)"
  using gate_ok_run [OF assms(1-5)] gate_reading [OF _ _ assms(3,4,6), of T] by auto

theorem memory_gate_witness:
  "DefaultThreshold demo_opt \<le> costs (tasks demo_unit) \<and> eligible demo_unit"
proof -
  have "DefaultThreshold demo_opt \<le> costs (tasks demo_unit)" by (simp add: demo_opt_def demo_unit_def)
  with memory_gate [OF demo_run, of 6 7 demo_key demo_unit] show ?thesis
    by (simp add: demo_length) (simp add: demo_calls_def demo_def)
qed



section \<open>Workers on the backend\<close>

text \<open>
  C7. In-order processing under concurrency: whatever other workers, producers and reapers do between
  any two calls of one \<open>runOnce\<close> of worker \<open>w\<close>, the tasks it hands to \<open>OnProcess\<close> are of a single unit and
  are a prefix, in order, of that unit's FIFO (what was pending, followed by what was added
  meanwhile); and when it returns without error exactly these tasks have left the queue.
\<close>

theorem worker_in_order:
  assumes "mem_inv b" and "mem_env_ok b (reads t)" and "w \<noteq> ''''" and "interfere t = id"
    and "\<forall>r \<in> set rs. others_round w r"
    and "runOnce memory_Backend w cfg t rs b = Some (ex, tr, b')"
  shows "mem_inv b' \<and> (\<exists>k ps added rest. processed tr = map (Pair k) ps \<and>
    mem_pending b k @ added = ps @ rest \<and> (ex = Returned True None \<longrightarrow> mem_pending b' k = rest))"
  using mem_runOnce_concurrent [OF assms] by (auto simp: fifo_prefix_def)

text \<open>One worker's turn on the demonstration state, during whose processing a producer adds a third task.\<close>

definition demo_cfg :: WorkerConfig where
  "demo_cfg = \<lparr>cfg_Lease = 30, Batch = 10, Backoff = \<lparr>Min = 1, Max = 8\<rparr>,
    Process = \<lparr>Kind = ''none'', Base = 0, PerCost = 0\<rparr>\<rparr>"

definition demo_turn :: "(memory \<Rightarrow> memory) \<Rightarrow> (mem_env, memory) turn" where
  "demo_turn f = \<lparr>interfere = f, reads = \<lparr>clock = 7, clock' = 7, order = [demo_key]\<rparr>\<rparr>"

definition demo_round :: "call list \<Rightarrow> (mem_env, memory) round" where
  "demo_round cls = \<lparr>drain_turn = demo_turn (others ''w0'' []), beat_turns = [],
    ack_turn = demo_turn (others ''w0'' cls)\<rparr>"

lemma demo_runOnce:
  "\<exists>b'. runOnce memory_Backend ''w0'' demo_cfg (demo_turn id) [demo_round [Enq 8 demo_key ''c'' 1]] demo0
    = Some (Returned True None, RecClaim True # map (OnProcess demo_key) (tasks demo_unit) @ [RecAck 2, RecLoop], b') \<and>
      mem_pending b' demo_key = [\<lparr>Seq = 2, Payload = ''c'', Cost = 1\<rparr>]"
  by (simp add: runOnce_def demo_turn_def demo_cfg_def demo0_claim demo_round_def mem_Drain_def demo_held
      Worker.heartbeat_def Let_def process_def work_def seq_room_def)
    (simp add: demo_def demo_unit_def demo_claim_def mem_Enqueue_def enqueue_unit_def mem_Ack_def held_def
      slice_from_def recompute_def index0_def IsZero_def i64_id Let_def)

theorem worker_in_order_witness:
  "\<exists>tr b'. runOnce memory_Backend ''w0'' demo_cfg (demo_turn id) [demo_round [Enq 8 demo_key ''c'' 1]] demo0
      = Some (Returned True None, tr, b') \<and>
    (\<exists>k ps added rest. processed tr = map (Pair k) ps \<and> mem_pending demo0 k @ added = ps @ rest \<and>
      mem_pending b' k = rest)"
proof -
  from demo_runOnce obtain tr b' where
    run: "runOnce memory_Backend ''w0'' demo_cfg (demo_turn id) [demo_round [Enq 8 demo_key ''c'' 1]] demo0
      = Some (Returned True None, tr, b')" by blast
  have "mem_env_ok demo0 (reads (demo_turn id))"
    using demo0_order by (simp add: mem_env_ok_def demo_turn_def) (simp add: demo0_def)
  moreover have "others_round ''w0'' (demo_round [Enq 8 demo_key ''c'' 1])"
    by (auto simp: others_round_def others_turn_def demo_round_def demo_turn_def)
  ultimately show ?thesis
    using worker_in_order [OF demo0_inv _ _ _ _ run] run by (auto simp: demo_turn_def)
qed

text \<open>The same turn reports the two tasks it processed.\<close>

theorem throughput_honest_witness:
  "\<exists>tr b'. runOnce memory_Backend ''w0'' demo_cfg (demo_turn id) [demo_round [Enq 8 demo_key ''c'' 1]] demo0
      = Some (Returned True None, tr, b') \<and> reported tr = length (processed tr) \<and> length (processed tr) = 2"
proof -
  from demo_runOnce obtain b' where
    run: "runOnce memory_Backend ''w0'' demo_cfg (demo_turn id) [demo_round [Enq 8 demo_key ''c'' 1]] demo0
      = Some (Returned True None, RecClaim True # map (OnProcess demo_key) (tasks demo_unit) @ [RecAck 2, RecLoop], b')"
    by blast
  from throughput_honest [OF run] run show ?thesis by (simp add: demo_unit_def)
qed

text \<open>
  C8. The worker's loop ends: with a positive batch size and no interference, one \<open>runOnce\<close> returns
  without error within one drain more than the longest pending list, having either found nothing or
  processed, in order, exactly the tasks that left the claimed unit.
\<close>

theorem worker_returns:
  assumes "mem_inv b" and "mem_env_ok b (reads t)" and "w \<noteq> ''''" and "1 \<le> Batch cfg"
    and "quiet t" and "\<forall>r \<in> set rs. quiet_round r" and "\<forall>k. length (mem_pending b k) < length rs"
  shows "\<exists>tr b'. runOnce memory_Backend w cfg t rs b = Some (Returned False None, tr, b') \<and> mem_inv b' \<and>
      processed tr = [] \<and> mem_pending b' = mem_pending b \<and> mem_holds b' = mem_holds b \<or>
    runOnce memory_Backend w cfg t rs b = Some (Returned True None, tr, b') \<and> mem_inv b' \<and>
      (\<exists>k ps. processed tr = map (Pair k) ps \<and> mem_pending b k = ps @ mem_pending b' k)"
  using memq.runOnce_total [OF assms(1-5) _ assms(7)] assms(6) by simp

theorem worker_returns_witness:
  "\<exists>tr b'. runOnce memory_Backend ''w0'' demo_cfg (demo_turn id) (replicate 3 (demo_round [])) demo0
      = Some (Returned False None, tr, b') \<and> mem_inv b' \<and> processed tr = [] \<and>
        mem_pending b' = mem_pending demo0 \<and> mem_holds b' = mem_holds demo0 \<or>
    runOnce memory_Backend ''w0'' demo_cfg (demo_turn id) (replicate 3 (demo_round [])) demo0
      = Some (Returned True None, tr, b') \<and> mem_inv b' \<and>
      (\<exists>k ps. processed tr = map (Pair k) ps \<and> mem_pending demo0 k = ps @ mem_pending b' k)"
proof (rule worker_returns)
  show "mem_env_ok demo0 (reads (demo_turn id))"
    using demo0_order by (simp add: mem_env_ok_def demo_turn_def) (simp add: demo0_def)
  show "\<forall>k. length (mem_pending demo0 k) < length (replicate 3 (demo_round []))"
    by (auto simp: demo0_def demo_unit_def queue_of_def)
qed (simp_all add: demo0_inv demo_cfg_def demo_turn_def demo_round_def quiet_def quiet_round_def)

section \<open>Single calls\<close>

text \<open>
  C9. Age-fair claims: \<open>Claim\<close> answers nil exactly when no unit is eligible, free and non-empty, and
  then changes nothing; otherwise it claims such a unit with the least flush deadline, ties broken by
  the printed key, for the worker and the lease asked for.
\<close>

theorem claim_age_fair:
  assumes "mem_inv b" and "range_order b ord"
  shows "case mem_Claim ord now w d b of
      (Ok None, b') \<Rightarrow> b' = b \<and> (\<forall>k. \<not> claimable_at b k)
    | (Ok (Some c), b') \<Rightarrow> claimable_at b (Key c) \<and> Worker c = w \<and> LeaseTill c = now + d \<and>
        (\<exists>u. units b (Key c) = Some u \<and>
          units b' = (units b)(Key c \<mapsto> u\<lparr>claimedBy := w, lease := Lease c, leaseDur := d, leaseExpires := now + d\<rparr>) \<and>
          (\<forall>k v. units b k = Some v \<longrightarrow> claimable v \<longrightarrow> flushDeadline u < flushDeadline v \<or>
             flushDeadline u = flushDeadline v \<and> String (Key c) \<le> String k))
    | _ \<Rightarrow> False"
  using assms
proof (cases rule: mem_Claim_cases [where now = now and w = w and d = d])
  case none
  then show ?thesis by simp
next
  case (some k u c b')
  have key: "key v = k'" if "units b k' = Some v" for k' v
    using mem_invD(4) [OF assms(1) that] by (simp add: wf_unit_def)
  have "flushDeadline u < flushDeadline v \<or> flushDeadline u = flushDeadline v \<and> String k \<le> String k'"
    if "units b k' = Some v" "claimable v" for k' v
    using some(9) [OF that] key [OF that(1)] key [OF some(2)] by (auto simp: rank_def)
  with some show ?thesis by (auto simp: claimable_at_def)
qed

theorem claim_age_fair_witness:
  "\<exists>c b'. mem_Claim [demo_key] 7 ''w0'' 30 demo0 = (Ok (Some c), b') \<and> claimable_at demo0 (Key c) \<and>
    Worker c = ''w0'' \<and> LeaseTill c = 37"
  using claim_age_fair [OF demo0_inv demo0_order, where now = 7 and w = "''w0''" and d = 30]
  unfolding demo0_claim by simp

text \<open>
  The choice of \<open>Claim\<close> does not depend on the order in which Go ranges over the map, when no
  workspace or session of a queued unit contains a slash.
\<close>

theorem claim_deterministic:
  assumes "mem_inv b" and "range_order b ord" and "range_order b ord'" and "\<forall>k \<in> dom (units b). slash_free k"
  shows "mem_Claim ord now w d b = mem_Claim ord' now w d b"
  using assms by (rule mem_Claim_order)

theorem claim_deterministic_witness:
  "mem_Claim [demo_key] 7 ''w0'' 30 demo0 = mem_Claim (rev [demo_key]) 7 ''w0'' 30 demo0"
  by (rule claim_deterministic) (simp_all add: demo0_inv demo0_order, simp add: demo0_def demo_key_def slash_free_def)

text \<open>
  Work conservation: as many claims in a row as there are claimable units, by any workers and
  with any iteration orders, leave no unit claimable; so no eligible unit is passed over for ever.
\<close>

theorem claim_conserving:
  assumes "mem_inv b" and "claims_ok b cs" and "card {k. claimable_at b k} \<le> length cs"
  shows "\<not> claimable_at (claim_all cs b) k"
  using assms by (rule claim_all_conserving)

theorem claim_conserving_witness:
  "claimable_at demo0 demo_key \<and> \<not> claimable_at (claim_all [([demo_key], 7, ''w0'', 30)] demo0) demo_key"
proof -
  have "{k. claimable_at demo0 k} = {demo_key}"
    by (auto simp: claimable_at_def demo0_def claimable_def demo_unit_def split: if_splits)
  with claim_conserving [OF demo0_inv, of "[([demo_key], 7, ''w0'', 30)]" demo_key] demo0_order
  show ?thesis by (auto simp: claims_ok_def demo0_def)
qed

text \<open>
  C10. Crash recovery: a unit that is free or whose lease has run out, and that is eligible or has
  reached its flush deadline, is claimed again with all its tasks once the reaper has run at time \<open>now\<close>
  and as many claims have been made as there are units.
\<close>

theorem memory_recovers:
  assumes "mem_inv b" and "range_order b ord" and "units b k = Some u"
    and "claimedBy u = '''' \<or> leaseExpires u < now"
    and "eligible u \<or> flushDeadline u \<noteq> 0 \<and> flushDeadline u \<le> now"
    and "claims_ok b cs" and "card (dom (units b)) \<le> length cs"
  shows "\<exists>v. units (claim_all cs (snd (mem_ReapExpired ord now b))) k = Some v \<and> tasks v = tasks u \<and>
    claimedBy v \<in> claimant ` set cs"
proof -
  let ?r = "snd (mem_ReapExpired ord now b)"
  have inv: "mem_inv ?r" using assms(1,2) by (rule mem_inv_ReapExpired)
  have k: "units ?r k = Some (reaped now u)" using assms(2,3) by (simp add: mem_Reap_units)
  have "claimable (reaped now u)"
    using claimable_after_reap [OF assms(1-3), of now] assms(4,5) k by (simp add: claimable_at_def)
  moreover have dom: "dom (units ?r) = dom (units b)" using assms(2) by (auto simp: mem_ReapExpired_eq domIff)
  moreover have "claims_ok ?r cs"
    using assms(2,6) dom by (auto simp: claims_ok_def range_order_def mem_ReapExpired_eq)
  moreover have "card {k. claimable_at ?r k} \<le> length cs"
    using card_claimable_le [OF inv] assms(7) dom by simp
  ultimately show ?thesis using claim_all_unit [OF inv _ k, of cs] by simp
qed

theorem memory_recovers_witness:
  "claimedBy demo_unit = ''w0'' \<and> leaseExpires demo_unit = 37 \<and>
   (\<exists>v. units (claim_all [([demo_key], 41, ''w1'', 30)] (snd (mem_ReapExpired [demo_key] 40 demo))) demo_key = Some v \<and>
    tasks v = tasks demo_unit \<and> claimedBy v \<in> claimant ` set [([demo_key], 41, ''w1'', 30)])"
proof -
  have "claims_ok demo [([demo_key], 41, ''w1'', 30)]"
    using demo_order by (simp add: claims_ok_def) (simp add: demo_def)
  with memory_recovers [OF demo_inv demo_order, of demo_key demo_unit 40 "[([demo_key], 41, ''w1'', 30)]"]
  show ?thesis by (simp add: demo_def) (simp add: demo_unit_def)
qed

text \<open>
  C11. Redelivery: when the lease of a claim has run out and the reaper has run, the next claim of the
  unit drains exactly the batch the lost claim would have drained, and the lost claim is refused.
\<close>

theorem memory_redelivers:
  assumes "mem_inv b" and "range_order b ord" and "held b c = Ok u" and "Worker c \<noteq> ''''"
    and "leaseExpires u < now" and "leaseCounter b < 2 ^ 63 - 1" and "range_order b ord'"
    and "mem_Claim ord' now' w' d (snd (mem_ReapExpired ord now b)) = (Ok (Some c'), b')"
    and "Key c' = Key c" and "w' \<noteq> ''''"
  shows "fst (mem_Drain c' n b') = fst (mem_Drain c n b) \<and> held b' c = Err ErrLeaseLost"
  using mem_redelivery_unit [OF assms] by blast

theorem memory_redelivers_witness:
  "\<exists>c' b'. mem_Claim [demo_key] 41 ''w1'' 30 (snd (mem_ReapExpired [demo_key] 40 demo)) = (Ok (Some c'), b') \<and>
    fst (mem_Drain c' 10 b') = fst (mem_Drain demo_claim 10 demo) \<and> held b' demo_claim = Err ErrLeaseLost"
proof -
  obtain c' b' where cl: "mem_Claim [demo_key] 41 ''w1'' 30 (snd (mem_ReapExpired [demo_key] 40 demo)) = (Ok (Some c'), b')"
      "Key c' = Key demo_claim"
    by (simp add: mem_ReapExpired_def reap_unit_def demo_def demo_unit_def demo_claim_def mem_Claim_def claimable_def Let_def)
  have "Worker demo_claim \<noteq> ''''" "leaseExpires demo_unit < 40" "leaseCounter demo < 2 ^ 63 - 1"
    by (simp_all add: demo_claim_def demo_unit_def demo_def)
  with memory_redelivers [OF demo_inv demo_order demo_held _ _ _ demo_order cl] cl(1) show ?thesis by auto
qed

text \<open>
  The reaper takes a lease exactly when it has run out strictly before \<open>now\<close>: a lease granted by
  \<open>Claim\<close>, or extended by \<open>Heartbeat\<close> or by an \<open>Ack\<close> that keeps the claim, up to time \<open>e\<close> survives every reap at a
  time up to \<open>e\<close> and none after it.
\<close>

theorem lease_lifetime:
  assumes "mem_inv b" and "range_order b ord" and "held b c = Ok u" and "Worker c \<noteq> ''''"
  shows "(held (snd (mem_ReapExpired ord now b)) c = Err ErrLeaseLost \<longleftrightarrow> leaseExpires u < now) \<and>
    (\<exists>v. held (snd (mem_Heartbeat t c ext b)) c = Ok v \<and> leaseExpires v = t + ext) \<and>
    (fst (mem_Ack t t' c th b) = Ok True \<longrightarrow>
      (\<exists>v. held (snd (mem_Ack t t' c th b)) c = Ok v \<and> leaseExpires v = t' + leaseDur u))"
proof (intro conjI impI)
  show "held (snd (mem_ReapExpired ord now b)) c = Err ErrLeaseLost \<longleftrightarrow> leaseExpires u < now"
    using held_after_reap [OF assms(2-4)] by simp
  have u: "claimedBy u = Worker c" "lease u = Lease c" using assms(3) by (simp_all add: held_Ok_iff)
  then show "\<exists>v. held (snd (mem_Heartbeat t c ext b)) c = Ok v \<and> leaseExpires v = t + ext"
    using assms(3) by (simp add: mem_Heartbeat_def) (simp add: held_Ok_iff)
  assume "fst (mem_Ack t t' c th b) = Ok True"
  with u show "\<exists>v. held (snd (mem_Ack t t' c th b)) c = Ok v \<and> leaseExpires v = t' + leaseDur u"
    by (auto simp: mem_Ack_closed [OF assms(1,3)] Let_def held_Ok_iff advanced_def split: if_splits)
qed

theorem lease_lifetime_witness:
  "(held (snd (mem_ReapExpired [demo_key] 37 demo)) demo_claim = Err ErrLeaseLost \<longleftrightarrow> leaseExpires demo_unit < 37) \<and>
   (held (snd (mem_ReapExpired [demo_key] 38 demo)) demo_claim = Err ErrLeaseLost \<longleftrightarrow> leaseExpires demo_unit < 38) \<and>
   leaseExpires demo_unit = 37"
  using lease_lifetime [OF demo_inv demo_order demo_held, of 37]
    lease_lifetime [OF demo_inv demo_order demo_held, of 38]
  by (simp add: demo_claim_def demo_unit_def)

text \<open>
  C12. What \<open>Ack\<close> does for the lease holder, on every branch: it drops exactly the head tasks up to
  \<open>throughSeq\<close>; an emptied unit is removed; a unit that still passes the gate, judged by what is left and by
  the age of its new head, stays claimed with a renewed lease; any other unit is released.
\<close>

theorem ack_effect:
  assumes "mem_inv b" and "held b c = Ok u"
  shows "mem_Ack now now' c th b =
    (let i = length (takeWhile (\<lambda>t. Seq t \<le> th) (tasks u)); rest = drop i (tasks u);
         t = hd (drop i (enqAt u)); pc = i64 (costs rest);
         keep = (threshold u \<le> pc \<or> t + maxWait u \<noteq> 0 \<and> t + maxWait u \<le> now);
         v = u\<lparr>tasks := rest, enqAt := drop i (enqAt u), pendingCost := pc, attempts := 0,
               oldestPending := t, flushDeadline := t + maxWait u, eligible := keep\<rparr>
     in if rest = [] then (Ok False, b\<lparr>units := (units b)(Key c := None)\<rparr>)
        else if keep then (Ok True, b\<lparr>units := (units b)(Key c \<mapsto> v\<lparr>leaseExpires := now' + leaseDur u\<rparr>)\<rparr>)
        else (Ok False, b\<lparr>units := (units b)(Key c \<mapsto> v\<lparr>claimedBy := '''', lease := ''''\<rparr>)\<rparr>))"
  unfolding mem_Ack_closed [OF assms] dropWhile_eq_drop_takeWhile advanced_def Let_def by simp

theorem ack_effect_witness:
  "mem_Ack 8 9 demo_claim 0 demo = (Ok False, demo\<lparr>units := [demo_key \<mapsto> demo_unit\<lparr>
     tasks := [\<lparr>Seq = 1, Payload = ''b'', Cost = 6\<rparr>], enqAt := [6], pendingCost := 6, oldestPending := 6,
     flushDeadline := 106, eligible := False, claimedBy := '''', lease := ''''\<rparr>]\<rparr>)"
  using ack_effect [OF demo_inv demo_held, of 8 9 0]
  by (simp add: demo_unit_def Let_def i64_id) (simp add: demo_def demo_claim_def)

text \<open>
  What \<open>Fail\<close> does for the lease holder: at the retry cap, and only for the head of the queue, the
  task moves to the dead-letter queue with the reason and the rest of the unit is re-gated and
  released; otherwise the failure is counted and the unit released with every task in place.
\<close>

theorem fail_effect:
  assumes "mem_inv b" and "held b c = Ok u"
  shows "fst (mem_Fail now c seq reason b) = Ok () \<and>
    (held (snd (mem_Fail now c seq reason b)) c = Err ErrLeaseLost \<or> Worker c = '''') \<and>
    (if maxAttempts b \<le> i64 (attempts u + 1) \<and> Seq (hd (tasks u)) = seq
      then dlq (snd (mem_Fail now c seq reason b))
          = dlq b @ [\<lparr>dl_Key = Key c, dl_Task = hd (tasks u), dl_Reason = reason\<rparr>] \<and>
        mem_pending (snd (mem_Fail now c seq reason b)) = (mem_pending b)(Key c := tl (tasks u))
      else dlq (snd (mem_Fail now c seq reason b)) = dlq b \<and>
        mem_pending (snd (mem_Fail now c seq reason b)) = mem_pending b)"
proof (intro conjI)
  have u: "units b (Key c) = Some u" using assms(2) by (simp add: held_Ok_iff)
  show "fst (mem_Fail now c seq reason b) = Ok ()" unfolding mem_Fail_closed [OF assms] by simp
  show "held (snd (mem_Fail now c seq reason b)) c = Err ErrLeaseLost \<or> Worker c = ''''"
    unfolding mem_Fail_closed [OF assms] by (simp add: held_def)
  have "tasks (advanced now 1 u) = tl (tasks u)" by (simp add: advanced_def Let_def drop_Suc)
  then show "if maxAttempts b \<le> i64 (attempts u + 1) \<and> Seq (hd (tasks u)) = seq
      then dlq (snd (mem_Fail now c seq reason b))
          = dlq b @ [\<lparr>dl_Key = Key c, dl_Task = hd (tasks u), dl_Reason = reason\<rparr>] \<and>
        mem_pending (snd (mem_Fail now c seq reason b)) = (mem_pending b)(Key c := tl (tasks u))
      else dlq (snd (mem_Fail now c seq reason b)) = dlq b \<and>
        mem_pending (snd (mem_Fail now c seq reason b)) = mem_pending b"
    unfolding mem_Fail_closed [OF assms] using u by (simp add: fun_upd_idem)
qed

theorem fail_effect_witness:
  "dlq (snd (mem_Fail 8 demo_claim 0 ''boom'' demo)) = dlq demo \<and>
   mem_pending (snd (mem_Fail 8 demo_claim 0 ''boom'' demo)) = mem_pending demo"
proof -
  have "\<not> maxAttempts demo \<le> i64 (attempts demo_unit + 1)" by (simp add: demo_def demo_unit_def i64_id)
  with fail_effect [OF demo_inv demo_held, of 8 0 "''boom''"] show ?thesis by simp
qed

text \<open>
  A claim that is not valid any more is answered with \<open>ErrLeaseLost\<close> by all five calls that need
  one, and changes nothing.
\<close>

theorem lost_lease_is_harmless:
  assumes "held b c = Err ErrLeaseLost"
  shows "mem_Drain c n b = (Err ErrLeaseLost, b) \<and> mem_Ack now now' c th b = (Err ErrLeaseLost, b) \<and>
    mem_Release c b = (Err ErrLeaseLost, b) \<and> mem_Heartbeat now c d b = (Err ErrLeaseLost, b) \<and>
    mem_Fail now c seq reason b = (Err ErrLeaseLost, b)"
  using stale_calls [OF assms] by simp

theorem lost_lease_is_harmless_witness:
  "mem_Drain demo_claim 5 demo0 = (Err ErrLeaseLost, demo0) \<and> mem_Ack 8 8 demo_claim 1 demo0 = (Err ErrLeaseLost, demo0) \<and>
    mem_Release demo_claim demo0 = (Err ErrLeaseLost, demo0) \<and>
    mem_Heartbeat 8 demo_claim 30 demo0 = (Err ErrLeaseLost, demo0) \<and>
    mem_Fail 8 demo_claim 0 ''x'' demo0 = (Err ErrLeaseLost, demo0)"
  by (rule lost_lease_is_harmless) (simp add: held_def demo0_def demo_claim_def)

text \<open>
  \<open>Enqueue\<close> always succeeds; it appends the task under the sequence number it returns, larger than
  every pending one (0 for a unit that was not there), and touches no other unit, lease or claim.
\<close>

theorem enqueue_effect:
  assumes "mem_inv b"
  shows "\<exists>seq b'. mem_Enqueue now k p cost b = (Ok seq, b') \<and>
    mem_pending b' = (mem_pending b)(k := mem_pending b k @ [\<lparr>Seq = seq, Payload = p, Cost = cost\<rparr>]) \<and>
    mem_holder b' = mem_holder b \<and> dlq b' = dlq b \<and> (units b k = None \<longrightarrow> seq = 0) \<and>
    (\<forall>t \<in> set (mem_pending b k). Seq t < seq)"
proof -
  obtain seq b' where eq: "mem_Enqueue now k p cost b = (Ok seq, b')" by (simp add: mem_Enqueue_def Let_def)
  then have seq: "units b k = None \<longrightarrow> seq = 0" by (auto simp: mem_Enqueue_def Let_def)
  have "spec_step (mem_abs b) (EvEnqueue k \<lparr>Seq = seq, Payload = p, Cost = cost\<rparr>) (mem_abs b')"
    using sim_Enq [OF assms, of now k p cost] eq by simp
  then have lt: "\<forall>t \<in> set (mem_pending b k). Seq t < seq"
    and ab: "mem_abs b' = (mem_abs b)\<lparr>s_queue := (mem_pending b)(k := mem_pending b k @ [\<lparr>Seq = seq, Payload = p, Cost = cost\<rparr>])\<rparr>"
    by (auto elim!: spec_stepE)
  from arg_cong [OF ab, of s_queue] arg_cong [OF ab, of s_holder]
  have "mem_pending b' = (mem_pending b)(k := mem_pending b k @ [\<lparr>Seq = seq, Payload = p, Cost = cost\<rparr>])"
    "mem_holder b' = mem_holder b" by simp_all
  moreover have "dlq b' = dlq b" using eq by (auto simp: mem_Enqueue_def Let_def)
  ultimately show ?thesis using eq seq lt by (intro exI [of _ seq] exI [of _ b']) simp
qed

theorem enqueue_effect_witness:
  "\<exists>seq b'. mem_Enqueue 8 demo_key ''c'' 1 demo = (Ok seq, b') \<and>
    mem_pending b' demo_key = mem_pending demo demo_key @ [\<lparr>Seq = seq, Payload = ''c'', Cost = 1\<rparr>] \<and>
    mem_holder b' = mem_holder demo \<and> list_all (\<lambda>t. Seq t < seq) (mem_pending demo demo_key)"
  using enqueue_effect [OF demo_inv, of 8 demo_key "''c''" 1] by (auto simp: list_all_iff)

text \<open>
  \<open>ReapExpired\<close> reports exactly the number of leases it took and of units it made eligible, does
  to every unit what its loop body says, and changes no queue.
\<close>

theorem reap_effect:
  assumes "range_order b ord"
  shows "mem_ReapExpired ord now b =
    (Ok (int (card {k. unit_is (expired now) (units b) k}), int (card {k. unit_is (flush_due now) (units b) k})),
     b\<lparr>units := (\<lambda>k. map_option (\<lambda>u. fst (reap_unit now u)) (units b k))\<rparr>)"
proof -
  have "length (filter (unit_is P (units b)) ord) = card {k. unit_is P (units b) k}" for P
  proof -
    have "set (filter (unit_is P (units b)) ord) = {k. unit_is P (units b) k}"
      using assms by (auto simp: range_order_def unit_is_def split: option.splits)
    moreover have "distinct (filter (unit_is P (units b)) ord)" using assms by (simp add: range_order_def)
    ultimately show ?thesis by (metis distinct_card)
  qed
  then show ?thesis using mem_ReapExpired_eq [OF assms, of now] by (simp add: reaped_def [abs_def])
qed

theorem reap_effect_witness:
  "mem_ReapExpired [demo_key] 40 demo =
    (Ok (int (card {k. unit_is (expired 40) (units demo) k}), int (card {k. unit_is (flush_due 40) (units demo) k})),
     demo\<lparr>units := (\<lambda>k. map_option (\<lambda>u. fst (reap_unit 40 u)) (units demo k))\<rparr>)"
  using demo_order by (rule reap_effect)

end
