(* ===== verification/Go_Lib.thy ===== *)
theory Go_Lib
  imports Prelude "HOL-Library.Word"
begin

unbundle bit_operations_syntax

text \<open>
  The parts of Go's standard library that the configuration, the sharding and the key codec use:
  \<open>strings.Split\<close>, \<open>strings.SplitN\<close>, \<open>strings.TrimSpace\<close>, \<open>strconv.ParseInt\<close> (and \<open>Atoi\<close>, which accepts the same
  strings where an \<open>int\<close> has 64 bits), \<open>strconv.ParseBool\<close> and the 32-bit FNV-1a hash of \<open>hash/fnv\<close>. Strings
  are byte strings; white space outside ASCII is not trimmed.
\<close>

section \<open>Splitting and trimming\<close>

fun Split :: "char \<Rightarrow> string \<Rightarrow> string list" where
  "Split c [] = [[]]"
| "Split c (x # xs) =
    (if x = c then [] # Split c xs
     else case Split c xs of [] \<Rightarrow> [[x]] | y # ys \<Rightarrow> (x # y) # ys)"

text \<open>\<open>SplitN\<close> with a positive limit: at most \<open>n\<close> parts, the last one unsplit.\<close>

fun SplitN :: "char \<Rightarrow> nat \<Rightarrow> string \<Rightarrow> string list" where
  "SplitN c 0 s = []"
| "SplitN c (Suc 0) s = [s]"
| "SplitN c (Suc (Suc n)) s =
    (case dropWhile (\<lambda>x. x \<noteq> c) s of
      [] \<Rightarrow> [s]
    | _ # rest \<Rightarrow> takeWhile (\<lambda>x. x \<noteq> c) s # SplitN c (Suc n) rest)"

definition is_space :: "char \<Rightarrow> bool" where
  "is_space c \<longleftrightarrow> c \<in> set [CHR 0x09, CHR 0x0A, CHR 0x0B, CHR 0x0C, CHR 0x0D, CHR '' '']"

definition TrimSpace :: "string \<Rightarrow> string" where
  "TrimSpace s = rev (dropWhile is_space (rev (dropWhile is_space s)))"

lemma Split_nonempty [simp]: "Split c s \<noteq> []"
  by (induction s) (auto split: list.split)

lemma Split_join: "concat (map (\<lambda>p. c # p) (Split c s)) = c # s"
proof (induction s)
  case (Cons x xs)
  then show ?case by (cases "Split c xs") auto
qed simp

lemma Split_notin: "p \<in> set (Split c s) \<Longrightarrow> c \<notin> set p"
proof (induction s arbitrary: p)
  case (Cons x xs)
  then show ?case by (cases "Split c xs") (auto split: if_splits)
qed simp

lemma SplitN_first:
  assumes "c \<notin> set x"
  shows "SplitN c (Suc (Suc n)) (x @ c # y) = x # SplitN c (Suc n) y"
proof -
  have "takeWhile (\<lambda>z. z \<noteq> c) (x @ c # y) = x" "dropWhile (\<lambda>z. z \<noteq> c) (x @ c # y) = c # y"
    using assms by (induction x) auto
  then show ?thesis by simp
qed

section \<open>Parsing\<close>

definition digit_val :: "char \<Rightarrow> nat option" where
  "digit_val c = (if 48 \<le> (of_char c :: nat) \<and> (of_char c :: nat) \<le> 57 then Some (of_char c - 48) else None)"

fun parse_digits :: "string \<Rightarrow> nat \<Rightarrow> nat option" where
  "parse_digits [] acc = Some acc"
| "parse_digits (c # cs) acc =
    (case digit_val c of None \<Rightarrow> None | Some d \<Rightarrow> parse_digits cs (10 * acc + d))"

definition parse_uint :: "string \<Rightarrow> nat option" where
  "parse_uint s = (if s = [] then None else parse_digits s 0)"

definition ParseInt :: "string \<Rightarrow> int option" where
  "ParseInt s =
    (case s of
      [] \<Rightarrow> None
    | c # cs \<Rightarrow>
        let neg = (c = CHR ''-''); body = (if c = CHR ''+'' \<or> neg then cs else s)
        in case parse_uint body of
            None \<Rightarrow> None
          | Some n \<Rightarrow>
              if neg then (if int n \<le> 2 ^ 63 then Some (- int n) else None)
              else (if int n < 2 ^ 63 then Some (int n) else None))"

definition ParseBool :: "string \<Rightarrow> bool option" where
  "ParseBool s =
    (if s \<in> set [''1'', ''t'', ''T'', ''true'', ''TRUE'', ''True''] then Some True
     else if s \<in> set [''0'', ''f'', ''F'', ''false'', ''FALSE'', ''False''] then Some False
     else None)"

lemma digit_val_digit: "d < 10 \<Longrightarrow> digit_val (digit d) = Some d"
  by (drule less10_cases) (auto simp: digit_val_def digit_def)

lemma parse_digits_append:
  "parse_digits (xs @ ys) acc = (case parse_digits xs acc of None \<Rightarrow> None | Some a \<Rightarrow> parse_digits ys a)"
  by (induction xs arbitrary: acc) (auto split: option.split)

lemma parse_digits_show: "parse_digits (show_nat n) 0 = Some n"
proof (induction n rule: show_nat.induct)
  case (1 n)
  show ?case
  proof (cases "n < 10")
    case True
    then show ?thesis by (simp add: show_nat.simps [of n] digit_val_digit)
  next
    case False
    then show ?thesis using "1.IH"
      by (simp add: show_nat.simps [of n] parse_digits_append digit_val_digit)
  qed
qed

text \<open>Parsing undoes formatting.\<close>

lemma ParseInt_fmt_d:
  assumes "- (2 ^ 63) \<le> i" and "i < 2 ^ 63"
  shows "ParseInt (fmt_d i) = Some i"
proof -
  have pu: "parse_uint (show_nat n) = Some n" for n
    by (simp add: parse_uint_def parse_digits_show)
  show ?thesis
  proof (cases "i < 0")
    case True
    then show ?thesis using assms pu by (simp add: fmt_d_def ParseInt_def)
  next
    case False
    have "hd (show_nat (nat i)) \<noteq> CHR ''-''" "hd (show_nat (nat i)) \<noteq> CHR ''+''"
      by (rule show_nat_hd, simp)+
    with False assms pu [of "nat i"] show ?thesis
      by (cases "show_nat (nat i)") (auto simp: fmt_d_def ParseInt_def)
  qed
qed

section \<open>FNV-1a\<close>

definition fnv_offset :: "32 word" where
  "fnv_offset = 2166136261"

definition fnv_prime :: "32 word" where
  "fnv_prime = 16777619"

fun fnv_write :: "32 word \<Rightarrow> string \<Rightarrow> 32 word" where
  "fnv_write h [] = h"
| "fnv_write h (c # cs) = fnv_write ((h XOR of_nat (of_char c)) * fnv_prime) cs"

definition Sum32 :: "string \<Rightarrow> 32 word" where
  "Sum32 s = fnv_write fnv_offset s"

text \<open>The published test vectors of the hash.\<close>

lemma Sum32_vectors: "Sum32 '''' = 0x811c9dc5" "Sum32 ''a'' = 0xe40c292c" "Sum32 ''foobar'' = 0xbf9cf968"
  by (simp_all add: Sum32_def fnv_offset_def fnv_prime_def)

end
