(* ===== verification/Sharding.thy ===== *)
theory Sharding
  imports Go_Lib Worker
begin

text \<open>
  The sharding both networked drivers share: a backend over \<open>N\<close> independent primaries that routes every
  unit by the FNV-1a hash of its workspace and lets \<open>Claim\<close> consult the primaries in rotation. It is
  written once, over the methods of a single primary, and shown to keep the contract of the \<open>Backend\<close>
  interface whenever each primary does.
\<close>

section \<open>Routing\<close>

text \<open>\<open>shardForWorkspace\<close>: the index of the owning primary; \<open>None\<close> is the division by zero without primaries.\<close>

definition shard_index :: "nat \<Rightarrow> string \<Rightarrow> nat option" where
  "shard_index n ws =
    (if n = 1 then Some 0
     else if (of_nat n :: 32 word) = 0 then None
     else Some (unat (Sum32 ws mod of_nat n)))"

lemma shard_index_lt:
  assumes "0 < n" and "n < 2 ^ 32"
  shows "\<exists>i < n. shard_index n ws = Some i"
proof -
  have n: "unat (of_nat n :: 32 word) = n" using assms(2) by (simp add: unat_of_nat)
  then have "(of_nat n :: 32 word) \<noteq> 0" using assms(1) by (metis neq0_conv unat_0)
  moreover have "unat (Sum32 ws mod of_nat n) < n" using n assms(1) by (simp add: unat_mod)
  ultimately show ?thesis using assms(1) by (auto simp: shard_index_def)
qed

section \<open>The sharded backend\<close>

text \<open>The primaries and the round-robin cursor of \<open>Claim\<close>, an unsigned 64-bit counter.\<close>

record 's cluster =
  shards :: "'s list"
  rr :: int

definition on_shard :: "('s \<Rightarrow> 'a result \<times> 's) \<Rightarrow> nat \<Rightarrow> 's cluster \<Rightarrow> 'a result \<times> 's cluster" where
  "on_shard f i cl =
    (if i < length (shards cl)
     then (case f (shards cl ! i) of (r, s) \<Rightarrow> (r, cl\<lparr>shards := (shards cl)[i := s]\<rparr>))
     else (Panic, cl))"

definition routed :: "string \<Rightarrow> (nat \<Rightarrow> 's \<Rightarrow> 'a result \<times> 's) \<Rightarrow> 's cluster \<Rightarrow> 'a result \<times> 's cluster" where
  "routed ws f cl =
    (case shard_index (length (shards cl)) ws of
      None \<Rightarrow> (Panic, cl)
    | Some i \<Rightarrow> on_shard (f i) i cl)"

text \<open>
  The loop of \<open>Claim\<close>: \<open>start\<close> is the cursor, \<open>i\<close> the number of primaries consulted, \<open>m\<close> the number left. The
  first unit found, or the first error, ends it. Each primary has its own oracle value.
\<close>

fun claim_loop :: "('o, 's) Backend \<Rightarrow> (nat \<Rightarrow> 'o) \<Rightarrow> WorkerID \<Rightarrow> duration \<Rightarrow> int \<Rightarrow> nat \<Rightarrow> nat \<Rightarrow> 's cluster
    \<Rightarrow> ClaimedUnit option result \<times> 's cluster" where
  "claim_loop be e w d start i 0 cl = (Ok None, cl)"
| "claim_loop be e w d start i (Suc m) cl =
    (let j = go_mod (i64 (start + int i)) (int (length (shards cl)))
     in if j < 0 then (Panic, cl)
        else case on_shard (be_Claim be (e (nat j)) w d) (nat j) cl of
            (Ok None, cl) \<Rightarrow> claim_loop be e w d start (Suc i) m cl
          | r \<Rightarrow> r)"

definition sh_Claim :: "('o, 's) Backend \<Rightarrow> (nat \<Rightarrow> 'o) \<Rightarrow> WorkerID \<Rightarrow> duration \<Rightarrow> 's cluster
    \<Rightarrow> ClaimedUnit option result \<times> 's cluster" where
  "sh_Claim be e w d cl =
    (let n = (rr cl + 1) mod 2 ^ 64
     in claim_loop be e w d (i64 n) 0 (length (shards cl)) (cl\<lparr>rr := n\<rparr>))"

text \<open>The reaper runs on every primary in turn and adds up the counts; an error ends it.\<close>

fun reap_shards :: "('o, 's) Backend \<Rightarrow> (nat \<Rightarrow> 'o) \<Rightarrow> time \<Rightarrow> nat \<Rightarrow> nat \<Rightarrow> int \<Rightarrow> int \<Rightarrow> 's cluster
    \<Rightarrow> (int \<times> int) result \<times> 's cluster" where
  "reap_shards be e now i 0 r f cl = (Ok (r, f), cl)"
| "reap_shards be e now i (Suc m) r f cl =
    (case on_shard (be_ReapExpired be (e i) now) i cl of
      (Ok (r', f'), cl) \<Rightarrow> reap_shards be e now (Suc i) m (r + r') (f + f') cl
    | (Err x, cl) \<Rightarrow> (Err x, cl)
    | (Panic, cl) \<Rightarrow> (Panic, cl))"

definition sharded :: "('o, 's) Backend \<Rightarrow> (nat \<Rightarrow> 'o, 's cluster) Backend" where
  "sharded be =
    \<lparr> be_Enqueue = (\<lambda>e k p cost. routed (Workspace k) (\<lambda>i. be_Enqueue be (e i) k p cost)),
      be_Claim = sh_Claim be,
      be_Drain = (\<lambda>e c n. routed (Workspace (Key c)) (\<lambda>i. be_Drain be (e i) c n)),
      be_Ack = (\<lambda>e c th. routed (Workspace (Key c)) (\<lambda>i. be_Ack be (e i) c th)),
      be_Release = (\<lambda>e c. routed (Workspace (Key c)) (\<lambda>i. be_Release be (e i) c)),
      be_Heartbeat = (\<lambda>e c d. routed (Workspace (Key c)) (\<lambda>i. be_Heartbeat be (e i) c d)),
      be_Fail = (\<lambda>e c seq reason. routed (Workspace (Key c)) (\<lambda>i. be_Fail be (e i) c seq reason)),
      be_ReapExpired = (\<lambda>e now cl. reap_shards be e now 0 (length (shards cl)) 0 0 cl) \<rparr>"

lemma sharded_simps [simp]:
  "be_Claim (sharded be) = sh_Claim be"
  "be_Drain (sharded be) e c n = routed (Workspace (Key c)) (\<lambda>i. be_Drain be (e i) c n)"
  "be_Ack (sharded be) e c th = routed (Workspace (Key c)) (\<lambda>i. be_Ack be (e i) c th)"
  "be_Release (sharded be) e c = routed (Workspace (Key c)) (\<lambda>i. be_Release be (e i) c)"
  "be_Heartbeat (sharded be) e c d = routed (Workspace (Key c)) (\<lambda>i. be_Heartbeat be (e i) c d)"
  by (simp_all add: sharded_def)

section \<open>Observations of a cluster\<close>

definition owner :: "'s cluster \<Rightarrow> WorkUnitKey \<Rightarrow> nat" where
  "owner cl k = the (shard_index (length (shards cl)) (Workspace k))"

definition cl_pending :: "('s \<Rightarrow> WorkUnitKey \<Rightarrow> Task list) \<Rightarrow> 's cluster \<Rightarrow> WorkUnitKey \<Rightarrow> Task list" where
  "cl_pending pending cl k = pending (shards cl ! owner cl k) k"

definition cl_holds :: "('s \<Rightarrow> ClaimedUnit \<Rightarrow> bool) \<Rightarrow> 's cluster \<Rightarrow> ClaimedUnit \<Rightarrow> bool" where
  "cl_holds holds cl c = holds (shards cl ! owner cl (Key c)) c"

definition cl_ackable :: "('s \<Rightarrow> ClaimedUnit \<Rightarrow> int \<Rightarrow> bool) \<Rightarrow> 's cluster \<Rightarrow> ClaimedUnit \<Rightarrow> int \<Rightarrow> bool" where
  "cl_ackable ackable cl c th = ackable (shards cl ! owner cl (Key c)) c th"

definition cl_drain_ok :: "('o \<Rightarrow> bool) \<Rightarrow> (nat \<Rightarrow> 'o) \<Rightarrow> bool" where
  "cl_drain_ok drain_ok e \<longleftrightarrow> (\<forall>i. drain_ok (e i))"

definition cl_exclusive :: "('s \<Rightarrow> bool) \<Rightarrow> 's cluster \<Rightarrow> bool" where
  "cl_exclusive exclusive cl \<longleftrightarrow> (\<forall>i < length (shards cl). exclusive (shards cl ! i))"

text \<open>Every primary keeps its invariant and has tasks only for units that are routed to it.\<close>

definition cl_invar :: "('s \<Rightarrow> bool) \<Rightarrow> ('s \<Rightarrow> WorkUnitKey \<Rightarrow> Task list) \<Rightarrow> 's cluster \<Rightarrow> bool" where
  "cl_invar invar pending cl \<longleftrightarrow>
     0 < length (shards cl) \<and> length (shards cl) < 2 ^ 32 \<and> 0 \<le> rr cl \<and>
     (\<forall>i < length (shards cl). invar (shards cl ! i) \<and> (\<forall>k. pending (shards cl ! i) k \<noteq> [] \<longrightarrow> owner cl k = i))"

definition cl_env_ok :: "('s \<Rightarrow> 'o \<Rightarrow> bool) \<Rightarrow> 's cluster \<Rightarrow> (nat \<Rightarrow> 'o) \<Rightarrow> bool" where
  "cl_env_ok env_ok cl e \<longleftrightarrow> (\<forall>i < length (shards cl). env_ok (shards cl ! i) (e i)) \<and> rr cl + 1 + int (length (shards cl)) < 2 ^ 63"

lemma owner_lt: "cl_invar invar pending cl \<Longrightarrow> owner cl k < length (shards cl)"
  using shard_index_lt [of "length (shards cl)" "Workspace k"] by (auto simp: cl_invar_def owner_def)

lemma owner_upd [simp]: "owner (cl\<lparr>shards := (shards cl)[i := s]\<rparr>) k = owner cl k" "owner (cl\<lparr>rr := n\<rparr>) k = owner cl k"
  by (simp_all add: owner_def)

lemma routed_owner:
  assumes "cl_invar invar pending cl"
  shows "routed (Workspace k) f cl = on_shard (f (owner cl k)) (owner cl k) cl"
  using shard_index_lt [of "length (shards cl)" "Workspace k"] assms
  by (auto simp: routed_def owner_def cl_invar_def)

text \<open>Writing one primary back keeps the invariant when its units are still its own.\<close>

lemma cl_invar_upd:
  assumes "cl_invar invar pending cl" and "i < length (shards cl)" and "invar s"
    and "\<And>k. pending s k \<noteq> [] \<Longrightarrow> pending (shards cl ! i) k \<noteq> []"
  shows "cl_invar invar pending (cl\<lparr>shards := (shards cl)[i := s]\<rparr>)"
  using assms by (auto simp: cl_invar_def nth_list_update)

lemma cl_pending_upd:
  assumes "cl_invar invar pending cl" and "i < length (shards cl)"
  shows "cl_pending pending (cl\<lparr>shards := (shards cl)[i := s]\<rparr>) k =
    (if owner cl k = i then pending s k else cl_pending pending cl k)"
  using assms(2) by (simp add: cl_pending_def nth_list_update)

lemma cl_holds_upd:
  assumes "cl_invar invar pending cl" and "i < length (shards cl)"
  shows "cl_holds holds (cl\<lparr>shards := (shards cl)[i := s]\<rparr>) c =
    (if owner cl (Key c) = i then holds s c else cl_holds holds cl c)"
  using assms(2) by (simp add: cl_holds_def nth_list_update)

lemma cl_ackable_upd:
  assumes "i < length (shards cl)" and "\<forall>c th. ackable (shards cl ! i) c th \<longrightarrow> ackable s c th"
  shows "\<forall>c th. cl_ackable ackable cl c th \<longrightarrow> cl_ackable ackable (cl\<lparr>shards := (shards cl)[i := s]\<rparr>) c th"
  using assms by (auto simp: cl_ackable_def nth_list_update)

lemma cl_upd_same:
  assumes "cl_invar invar pending cl" and "i < length (shards cl)" and "pending s = pending (shards cl ! i)"
  shows "cl_pending pending (cl\<lparr>shards := (shards cl)[i := s]\<rparr>) = cl_pending pending cl"
    and "holds s = holds (shards cl ! i) \<Longrightarrow>
      cl_holds holds (cl\<lparr>shards := (shards cl)[i := s]\<rparr>) = cl_holds holds cl"
  using assms by (auto simp: fun_eq_iff cl_pending_def cl_holds_def nth_list_update)

section \<open>A cluster keeps the contract\<close>

text \<open>The primary consulted at step \<open>i\<close>; within one round every primary is consulted once.\<close>

definition turn_of :: "int \<Rightarrow> nat \<Rightarrow> nat \<Rightarrow> nat" where
  "turn_of start n i = (nat start + i) mod n"

lemma turn_of_neq:
  assumes "i < i'" and "i' < i + n"
  shows "turn_of start n i' \<noteq> turn_of start n i"
proof
  assume "turn_of start n i' = turn_of start n i"
  then have "n dvd (nat start + i') - (nat start + i)"
    using assms(1) by (simp add: turn_of_def mod_eq_dvd_iff_nat)
  with assms show False by (auto dest: dvd_imp_le)
qed

lemma turn_of_go:
  assumes "0 \<le> start" and "start + int i < 2 ^ 63" and "0 < n"
  shows "go_mod (i64 (start + int i)) (int n) = int (turn_of start n i)"
proof -
  have "start + int i = int (nat start + i)" using assms(1) by simp
  moreover have "i64 (start + int i) = start + int i" using assms by (intro i64_id) auto
  ultimately have "go_mod (i64 (start + int i)) (int n) = int (nat start + i) mod int n"
    using assms(3) by (simp only: go_mod_nonneg of_nat_0_less_iff of_nat_0_le_iff)
  then show ?thesis by (simp only: turn_of_def zmod_int)
qed

lemma claim_loop_none:
  assumes "n = length (shards cl)" and "0 \<le> start" and "start + int n < 2 ^ 63" and "i + m \<le> n"
    and "claim_loop be e w d start i m cl = (Ok None, cl')" and "i \<le> i'" and "i' < i + m"
  shows "\<exists>s. be_Claim be (e (turn_of start n i')) w d (shards cl ! turn_of start n i') = (Ok None, s)"
  using assms(1,4-7)
proof (induction m arbitrary: i cl)
  case (Suc m)
  let ?j = "turn_of start n i"
  have n: "0 < n" using Suc.prems(2) by linarith
  have j: "go_mod (i64 (start + int i)) (int (length (shards cl))) = int ?j"
    using turn_of_go [OF assms(2) _ n, of i] assms(3) Suc.prems(1,2) by simp
  have lt: "?j < length (shards cl)" using n Suc.prems(1) by (simp add: turn_of_def)
  obtain rc s where r: "be_Claim be (e ?j) w d (shards cl ! ?j) = (rc, s)" by fastforce
  let ?cl = "cl\<lparr>shards := (shards cl)[?j := s]\<rparr>"
  have o: "on_shard (be_Claim be (e ?j) w d) ?j cl = (rc, ?cl)" using r lt by (simp add: on_shard_def)
  then have rc: "rc = Ok None" "claim_loop be e w d start (Suc i) m ?cl = (Ok None, cl')"
    using Suc.prems(3) j by (auto simp: Let_def split: result.splits option.splits)
  show ?case
  proof (cases "i' = i")
    case False
    with Suc.prems(4,5) have i': "Suc i \<le> i'" "i' < Suc i + m" by simp_all
    then have "turn_of start n i' \<noteq> ?j" using Suc.prems(2) by (intro turn_of_neq) auto
    with Suc.IH [OF _ _ rc(2) i'] Suc.prems(1,2) show ?thesis by simp
  qed (use r rc(1) in simp)
qed simp

lemma turn_of_onto:
  assumes "j < n"
  shows "\<exists>i < n. turn_of start n i = j"
proof -
  let ?s = "nat start mod n"
  have s: "?s < n" using assms by simp
  have "(nat start + i) mod n = (?s + i) mod n" for i by (simp add: mod_add_left_eq)
  moreover have "?s + (j + n - ?s) = j + n" using s by linarith
  then have "(?s + (j + n - ?s) mod n) mod n = j" using assms by (simp only: mod_add_right_eq) simp
  moreover have "(j + n - ?s) mod n < n" using assms by simp
  ultimately show ?thesis unfolding turn_of_def by metis
qed

text \<open>What ends the loop early is the answer of a primary: the loop adds no error and no panic of its own.\<close>

lemma claim_loop_answer:
  assumes "n = length (shards cl)" and "0 \<le> start" and "start + int n < 2 ^ 63" and "i + m \<le> n"
    and "claim_loop be e w d start i m cl = (r, cl')" and "r \<noteq> Ok None"
  shows "\<exists>j s s'. j < n \<and> be_Claim be (e j) w d s = (r, s')"
  using assms(1,4,5)
proof (induction m arbitrary: i cl)
  case (Suc m)
  let ?j = "turn_of start n i"
  have n: "0 < n" using Suc.prems(2) by linarith
  have j: "go_mod (i64 (start + int i)) (int (length (shards cl))) = int ?j"
    using turn_of_go [OF assms(2) _ n, of i] assms(3) Suc.prems(1,2) by simp
  have lt: "?j < length (shards cl)" using n Suc.prems(1) by (simp add: turn_of_def)
  obtain rc s where r: "be_Claim be (e ?j) w d (shards cl ! ?j) = (rc, s)" by fastforce
  let ?cl = "cl\<lparr>shards := (shards cl)[?j := s]\<rparr>"
  have o: "on_shard (be_Claim be (e ?j) w d) ?j cl = (rc, ?cl)" using r lt by (simp add: on_shard_def)
  show ?case
  proof (cases "rc = Ok None")
    case True
    with o j Suc.prems(3) have "claim_loop be e w d start (Suc i) m ?cl = (r, cl')" by (simp add: Let_def)
    with Suc.IH [of ?cl "Suc i"] Suc.prems(1,2) show ?thesis by simp
  next
    case False
    with o j Suc.prems(3) have "rc = r" by (auto simp: Let_def split: result.splits option.splits)
    with r lt Suc.prems(1) show ?thesis by blast
  qed
qed (use assms(6) in simp)

lemma sh_Claim_answer:
  assumes "0 \<le> rr cl" and "rr cl + 1 + int (length (shards cl)) < 2 ^ 63" and "sh_Claim be e w d cl = (r, cl')" and "r \<noteq> Ok None"
  shows "\<exists>j s s'. j < length (shards cl) \<and> be_Claim be (e j) w d s = (r, s')"
proof -
  have "(rr cl + 1) mod 2 ^ 64 = rr cl + 1" "i64 (rr cl + 1) = rr cl + 1" using assms(1,2) by (simp_all add: i64_id)
  with assms(3) have "claim_loop be e w d (rr cl + 1) 0 (length (shards cl)) (cl\<lparr>rr := rr cl + 1\<rparr>) = (r, cl')"
    by (simp add: sh_Claim_def Let_def)
  from claim_loop_answer [OF _ _ _ _ this assms(4), of "length (shards cl)"] assms(1,2) show ?thesis by simp
qed

text \<open>When \<open>Claim\<close> answers nil, every primary was asked, and answered nil.\<close>

lemma sh_Claim_none:
  assumes "0 \<le> rr cl" and "rr cl + 1 + int (length (shards cl)) < 2 ^ 63" and "sh_Claim be e w d cl = (Ok None, cl')"
    and "j < length (shards cl)"
  shows "\<exists>s. be_Claim be (e j) w d (shards cl ! j) = (Ok None, s)"
proof -
  let ?n = "rr cl + 1" and ?cl = "cl\<lparr>rr := rr cl + 1\<rparr>"
  have n: "(rr cl + 1) mod 2 ^ 64 = ?n" "i64 ?n = ?n" using assms(1,2) by (simp_all add: i64_id)
  obtain i where i: "i < length (shards cl)" "turn_of ?n (length (shards cl)) i = j" using turn_of_onto [OF assms(4)] by blast
  have "claim_loop be e w d ?n 0 (length (shards cl)) ?cl = (Ok None, cl')"
    using assms(3) n by (simp add: sh_Claim_def Let_def)
  from claim_loop_none [OF refl _ _ _ this, of i] i assms(1,2) show ?thesis by simp
qed

context backend_contract
begin

abbreviation "clp \<equiv> cl_pending pending"
abbreviation "clh \<equiv> cl_holds holds"
abbreviation "cli \<equiv> cl_invar invar pending"
abbreviation "cla \<equiv> cl_ackable ackable"
abbreviation "clx \<equiv> cl_exclusive exclusive"

text \<open>What \<open>Claim\<close> may have done to a cluster, whatever its outcome.\<close>

definition claimed_ok :: "WorkerID \<Rightarrow> 's cluster \<Rightarrow> ClaimedUnit option result \<times> 's cluster \<Rightarrow> bool" where
  "claimed_ok w cl r \<longleftrightarrow> cli (snd r) \<and> clp (snd r) = clp cl \<and>
     (case fst r of
        Ok None \<Rightarrow> clh (snd r) = clh cl \<and> (clx cl \<longrightarrow> clx (snd r))
      | Ok (Some c) \<Rightarrow> clh (snd r) c \<and> Worker c = w \<and> clp cl (Key c) \<noteq> [] \<and>
          (clx cl \<longrightarrow> (\<forall>c'. Key c' = Key c \<longrightarrow> \<not> clh cl c')) \<and> (\<forall>c'. Key c' \<noteq> Key c \<longrightarrow> clh (snd r) c' = clh cl c')
      | _ \<Rightarrow> True)"

lemma claimed_ok_cong:
  assumes "clp cl = clp cl'" and "clh cl = clh cl'" and "clx cl' \<longrightarrow> clx cl" and "claimed_ok w cl r"
  shows "claimed_ok w cl' r"
  using assms(3,4) unfolding claimed_ok_def assms(1,2) by (auto split: result.splits option.splits)

lemma claim_on_shard:
  assumes cl: "cli cl" and j: "j < length (shards cl)" and env: "env_ok (shards cl ! j) e" and w: "w \<noteq> ''''"
  shows "claimed_ok w cl (on_shard (be_Claim be e w d) j cl)"
proof -
  obtain rc s' where c: "be_Claim be e w d (shards cl ! j) = (rc, s')" by (cases "be_Claim be e w d (shards cl ! j)")
  let ?cl = "cl\<lparr>shards := (shards cl)[j := s']\<rparr>"
  have inv: "invar (shards cl ! j)" using cl j by (simp add: cl_invar_def)
  have r: "on_shard (be_Claim be e w d) j cl = (rc, ?cl)" using c j by (simp add: on_shard_def)
  consider (err) "\<forall>x. rc \<noteq> Ok x" | (none) "rc = Ok None" | (some) cu where "rc = Ok (Some cu)"
    by (metis option.exhaust)
  then show ?thesis
  proof cases
    case err
    with claim_err [OF inv env w c] have s: "invar s'" "pending s' = pending (shards cl ! j)" by simp_all
    with err r cl_invar_upd [OF cl j, of s'] cl_upd_same(1) [OF cl j, of s'] show ?thesis
      by (cases rc) (simp_all add: claimed_ok_def)
  next
    case none
    with claim_none [OF inv env w] c
    have s: "invar s'" "pending s' = pending (shards cl ! j)" "holds s' = holds (shards cl ! j)"
      "exclusive (shards cl ! j) \<longrightarrow> exclusive s'" by simp_all
    then have "clx cl \<longrightarrow> clx ?cl" using j by (auto simp: cl_exclusive_def nth_list_update)
    with s none r cl_invar_upd [OF cl j, of s'] cl_upd_same [OF cl j, of s'] show ?thesis
      by (simp add: claimed_ok_def)
  next
    case some
    with claim_some [OF inv env w] c have s: "invar s'" "pending s' = pending (shards cl ! j)" "holds s' cu"
      "Worker cu = w" "pending (shards cl ! j) (Key cu) \<noteq> []"
      "exclusive (shards cl ! j) \<longrightarrow> (\<forall>c'. Key c' = Key cu \<longrightarrow> \<not> holds (shards cl ! j) c')"
      "\<forall>c'. Key c' \<noteq> Key cu \<longrightarrow> holds s' c' = holds (shards cl ! j) c'" by blast+
    have own: "owner cl (Key cu) = j" using s(5) cl j by (auto simp: cl_invar_def)
    have "cli ?cl" "clp ?cl = clp cl" using cl_invar_upd [OF cl j, of s'] cl_upd_same(1) [OF cl j, of s'] s by simp_all
    moreover have "clh ?cl c' = (if owner cl (Key c') = j then holds s' c' else clh cl c')" for c'
      by (rule cl_holds_upd [OF cl j])
    moreover have "clh cl c' = holds (shards cl ! j) c'" if "owner cl (Key c') = j" for c'
      using that by (simp add: cl_holds_def)
    moreover have "owner cl (Key c') = j" if "Key c' = Key cu" for c' using own that by simp
    moreover have "clp cl (Key cu) \<noteq> []" using own s(5) by (simp add: cl_pending_def)
    moreover have "exclusive (shards cl ! j)" if "clx cl" using that j by (simp add: cl_exclusive_def)
    ultimately show ?thesis using some r s own by (simp add: claimed_ok_def)
  qed
qed

lemma claim_loop_ok:
  assumes "cli cl" and "n = length (shards cl)" and "0 \<le> start" and "start + int n < 2 ^ 63" and "i + m \<le> n" and "w \<noteq> ''''"
    and "\<forall>i'. i \<le> i' \<and> i' < i + m \<longrightarrow> env_ok (shards cl ! turn_of start n i') (e (turn_of start n i'))"
  shows "claimed_ok w cl (claim_loop be e w d start i m cl)"
  using assms(1,2,5,7)
proof (induction m arbitrary: i cl)
  case 0
  then show ?case by (simp add: claimed_ok_def)
next
  case (Suc m)
  let ?j = "turn_of start n i"
  have n: "0 < n" using Suc.prems(3) by linarith
  have j: "go_mod (i64 (start + int i)) (int (length (shards cl))) = int ?j"
    using turn_of_go [OF assms(3) _ n, of i] assms(4) Suc.prems(2,3) by simp
  have lt: "?j < length (shards cl)" using n Suc.prems(2) by (simp add: turn_of_def)
  have env: "env_ok (shards cl ! ?j) (e ?j)" using Suc.prems(4) by simp
  note ok = claim_on_shard [OF Suc.prems(1) lt env assms(6), of d]
  obtain rc cl1 where r: "on_shard (be_Claim be (e ?j) w d) ?j cl = (rc, cl1)"
    by (cases "on_shard (be_Claim be (e ?j) w d) ?j cl")
  show ?case
  proof (cases "rc = Ok None")
    case True
    with ok r have c1: "cli cl1" "clp cl1 = clp cl" "clh cl1 = clh cl" "clx cl \<longrightarrow> clx cl1" by (simp_all add: claimed_ok_def)
    obtain s where cl1: "cl1 = cl\<lparr>shards := (shards cl)[?j := s]\<rparr>"
      using r lt by (auto simp: on_shard_def split: prod.splits)
    have "env_ok (shards cl1 ! turn_of start n i') (e (turn_of start n i'))" if "Suc i \<le> i' \<and> i' < Suc i + m" for i'
    proof -
      have "turn_of start n i' \<noteq> ?j" using that Suc.prems(3) by (intro turn_of_neq) auto
      then show ?thesis using cl1 Suc.prems(4) that by simp
    qed
    then have "claimed_ok w cl1 (claim_loop be e w d start (Suc i) m cl1)"
      using Suc.IH [OF c1(1), of "Suc i"] cl1 Suc.prems(2,3) by simp
    then have "claimed_ok w cl (claim_loop be e w d start (Suc i) m cl1)"
      using claimed_ok_cong [OF c1(2-4)] by blast
    with True r j show ?thesis by (simp add: Let_def)
  next
    case False
    then have "claim_loop be e w d start i (Suc m) cl = (rc, cl1)"
      using r j by (auto simp: Let_def split: result.splits option.splits)
    with ok r show ?thesis by simp
  qed
qed

lemma sh_Claim_ok:
  assumes "cli cl" and "cl_env_ok env_ok cl e" and "w \<noteq> ''''"
  shows "claimed_ok w cl (sh_Claim be e w d cl)"
proof -
  let ?n = "rr cl + 1" and ?cl = "cl\<lparr>rr := rr cl + 1\<rparr>"
  have r: "0 \<le> rr cl" "?n + int (length (shards cl)) < 2 ^ 63" using assms(1,2) by (simp_all add: cl_invar_def cl_env_ok_def)
  then have n: "(rr cl + 1) mod 2 ^ 64 = ?n" "i64 ?n = ?n" by (simp_all add: i64_id)
  have inv: "cli ?cl" using assms(1) r by (simp add: cl_invar_def owner_def)
  have pos: "0 < length (shards cl)" using assms(1) by (simp add: cl_invar_def)
  have "claimed_ok w ?cl (claim_loop be e w d ?n 0 (length (shards cl)) ?cl)"
    by (rule claim_loop_ok [OF inv]) (use r assms(2,3) pos in \<open>auto simp: cl_env_ok_def turn_of_def\<close>)
  moreover have "clp ?cl = clp cl" "clh ?cl = clh cl" "clx cl \<longrightarrow> clx ?cl"
    by (auto simp: cl_pending_def cl_holds_def cl_exclusive_def fun_eq_iff)
  ultimately show ?thesis using n claimed_ok_cong [of ?cl cl] by (simp add: sh_Claim_def Let_def)
qed

text \<open>A routed call is the call on the owning primary, written back.\<close>

lemma routed_cases:
  assumes "cli cl" and "routed (Workspace k) f cl = (r, cl')"
  obtains s' where "f (owner cl k) (shards cl ! owner cl k) = (r, s')"
    and "cl' = cl\<lparr>shards := (shards cl)[owner cl k := s']\<rparr>"
    and "owner cl k < length (shards cl)" and "invar (shards cl ! owner cl k)"
proof -
  have lt: "owner cl k < length (shards cl)" using owner_lt [OF assms(1)] .
  moreover have "invar (shards cl ! owner cl k)" using assms(1) lt by (simp add: cl_invar_def)
  ultimately show ?thesis
    using assms(2) that unfolding routed_owner [OF assms(1)] on_shard_def by (auto split: prod.splits)
qed

lemma sharded_Drain:
  assumes "cli cl" and "genuine c" and "cl_drain_ok drain_ok e" and "routed (Workspace (Key c)) (\<lambda>i. be_Drain be (e i) c n) cl = (r, cl')"
  shows "cli cl' \<and> clp cl' = clp cl \<and> clh cl' = clh cl \<and> (\<forall>c th. cla cl c th \<longrightarrow> cla cl' c th) \<and>
      (\<forall>ts. r = Ok ts \<longrightarrow> clh cl c \<and> ts = take (length ts) (clp cl (Key c)) \<and> int (length ts) \<le> max n 0 \<and>
        (ts \<noteq> [] \<longrightarrow> cla cl' c (Seq (last ts))))"
  using assms(1,4)
proof (cases rule: routed_cases)
  case (1 s')
  have "drain_ok (e (owner cl (Key c)))" using assms(3) by (simp add: cl_drain_ok_def)
  from drain [OF 1(4) assms(2) this 1(1)] cl_invar_upd [OF assms(1) 1(3), of s'] cl_upd_same [OF assms(1) 1(3), of s']
    cl_ackable_upd [OF 1(3), of ackable s'] 1(3)
  show ?thesis unfolding 1(2)
    by (simp add: cl_holds_def [of holds cl] cl_pending_def [of pending cl]) (simp add: cl_ackable_def)
qed

lemma sharded_Ack_held:
  assumes "cli cl" and "genuine c" and "routed (Workspace (Key c)) (\<lambda>i. be_Ack be (e i) c th) cl = (Ok h, cl')"
  shows "clh cl c"
  using assms(1,3)
proof (cases rule: routed_cases)
  case (1 s')
  from ack_held [OF 1(4) assms(2) 1(1)] show ?thesis by (simp add: cl_holds_def)
qed

lemma sharded_Ack:
  assumes "cli cl" and "genuine c" and "cla cl c th" and "routed (Workspace (Key c)) (\<lambda>i. be_Ack be (e i) c th) cl = (Ok h, cl')"
  shows "clp cl' (Key c) = dropWhile (\<lambda>t. Seq t \<le> th) (clp cl (Key c)) \<and> h = clh cl' c"
  using assms(1,4)
proof (cases rule: routed_cases)
  case (1 s')
  from ack_ok [OF 1(4) assms(2) _ 1(1)] assms(3) show ?thesis unfolding 1(2)
    by (simp add: cl_pending_upd [OF assms(1) 1(3)] cl_holds_upd [OF assms(1) 1(3)])
      (simp add: cl_pending_def cl_ackable_def)
qed

lemma sharded_Ack_any:
  assumes "cli cl" and "genuine c" and "routed (Workspace (Key c)) (\<lambda>i. be_Ack be (e i) c th) cl = (rb, cl')"
  shows "cli cl' \<and> (\<exists>i. clp cl' (Key c) = drop i (clp cl (Key c))) \<and> (\<forall>k. k \<noteq> Key c \<longrightarrow> clp cl' k = clp cl k)"
  using assms(1,3)
proof (cases rule: routed_cases)
  case (1 s')
  let ?s = "shards cl ! owner cl (Key c)"
  from ack_any [OF 1(4) assms(2) 1(1)] have a: "invar s'" "\<exists>i. pending s' (Key c) = drop i (pending ?s (Key c))"
    "\<forall>k. k \<noteq> Key c \<longrightarrow> pending s' k = pending ?s k" by simp_all
  have "pending ?s k \<noteq> []" if "pending s' k \<noteq> []" for k
    using that a(2,3) by (cases "k = Key c") auto
  with a show ?thesis unfolding 1(2) using cl_invar_upd [OF assms(1) 1(3) a(1)]
    by (simp add: cl_pending_upd [OF assms(1) 1(3)]) (simp add: cl_pending_def)
qed

lemma sharded_Release:
  assumes "cli cl" and "genuine c" and "routed (Workspace (Key c)) (\<lambda>i. be_Release be (e i) c) cl = (ru, cl')"
  shows "cli cl' \<and> clp cl' = clp cl \<and> (ru = Ok () \<longrightarrow> clh cl c \<and> \<not> clh cl' c)"
  using assms(1,3)
proof (cases rule: routed_cases)
  case (1 s')
  from release [OF 1(4) assms(2) 1(1)] cl_invar_upd [OF assms(1) 1(3), of s'] cl_upd_same(1) [OF assms(1) 1(3), of s']
  show ?thesis unfolding 1(2)
    by (simp add: cl_holds_upd [OF assms(1) 1(3)]) (simp add: cl_holds_def)
qed

lemma sharded_Heartbeat:
  assumes "cli cl" and "routed (Workspace (Key c)) (\<lambda>i. be_Heartbeat be (e i) c d) cl = (ru, cl')"
  shows "cli cl' \<and> clp cl' = clp cl \<and> clh cl' = clh cl \<and> (\<forall>c th. cla cl c th \<longrightarrow> cla cl' c th)"
  using assms(1,2)
proof (cases rule: routed_cases)
  case (1 s')
  from heartbeat [OF 1(4) 1(1)] cl_invar_upd [OF assms(1) 1(3), of s'] cl_upd_same [OF assms(1) 1(3), of s']
    cl_ackable_upd [OF 1(3), of ackable s']
  show ?thesis unfolding 1(2) by simp
qed

lemma sharded_contract:
  "backend_contract (sharded be) cli (cl_env_ok env_ok) (cl_drain_ok drain_ok) genuine clp clh cla clx"
proof (unfold_locales, unfold sharded_simps)
  show "seq_sorted (clp cl k)" if "cli cl" for cl k
    using pending_sorted owner_lt [OF that] that by (simp add: cl_pending_def cl_invar_def)
  show "Worker c = Worker c' \<and> Lease c = Lease c'"
    if "cli cl" "clh cl c" "clh cl c'" "Key c = Key c'" for cl c c'
    using holds_unique [of "shards cl ! owner cl (Key c)" c c'] that owner_lt [OF that(1)]
    by (simp add: cl_holds_def cl_invar_def)
  show "genuine c" if "clh cl c" for cl c
    using that holds_genuine by (simp add: cl_holds_def)
  show "cli cl' \<and> clp cl' = clp cl \<and> clh cl' = clh cl \<and> (clx cl \<longrightarrow> clx cl')"
    if "cli cl" "cl_env_ok env_ok cl e" "w \<noteq> ''''" "sh_Claim be e w d cl = (Ok None, cl')" for cl e w d cl'
    using sh_Claim_ok [OF that(1-3), of d] that(4) by (simp add: claimed_ok_def)
  show "cli cl' \<and> clp cl' = clp cl"
    if "cli cl" "cl_env_ok env_ok cl e" "w \<noteq> ''''" "sh_Claim be e w d cl = (rc, cl')" for cl e w d rc cl'
    using sh_Claim_ok [OF that(1-3), of d] that(4) by (simp add: claimed_ok_def)
  show "cli cl' \<and> clh cl' c \<and> Worker c = w \<and> clp cl' = clp cl \<and> clp cl (Key c) \<noteq> [] \<and>
      (clx cl \<longrightarrow> (\<forall>c'. Key c' = Key c \<longrightarrow> \<not> clh cl c')) \<and> (\<forall>c'. Key c' \<noteq> Key c \<longrightarrow> clh cl' c' = clh cl c')"
    if "cli cl" "cl_env_ok env_ok cl e" "w \<noteq> ''''" "sh_Claim be e w d cl = (Ok (Some c), cl')" for cl e w d c cl'
    using sh_Claim_ok [OF that(1-3), of d] that(4) by (simp add: claimed_ok_def)
  show "cli cl' \<and> clp cl' = clp cl \<and> clh cl' = clh cl \<and> (\<forall>c th. cla cl c th \<longrightarrow> cla cl' c th) \<and>
      (\<forall>ts. r = Ok ts \<longrightarrow> clh cl c \<and> ts = take (length ts) (clp cl (Key c)) \<and> int (length ts) \<le> max n 0 \<and>
        (ts \<noteq> [] \<longrightarrow> cla cl' c (Seq (last ts))))"
    if "cli cl" "genuine c" "cl_drain_ok drain_ok e" "routed (Workspace (Key c)) (\<lambda>i. be_Drain be (e i) c n) cl = (r, cl')"
    for cl c n e r cl'
    using that by (rule sharded_Drain)
  show "clh cl c"
    if "cli cl" "genuine c" "routed (Workspace (Key c)) (\<lambda>i. be_Ack be (e i) c th) cl = (Ok h, cl')" for cl c e th h cl'
    using that by (rule sharded_Ack_held)
  show "clp cl' (Key c) = dropWhile (\<lambda>t. Seq t \<le> th) (clp cl (Key c)) \<and> h = clh cl' c"
    if "cli cl" "genuine c" "cla cl c th" "routed (Workspace (Key c)) (\<lambda>i. be_Ack be (e i) c th) cl = (Ok h, cl')"
    for cl c e th h cl'
    using that by (rule sharded_Ack)
  show "cli cl' \<and> (\<exists>i. clp cl' (Key c) = drop i (clp cl (Key c))) \<and> (\<forall>k. k \<noteq> Key c \<longrightarrow> clp cl' k = clp cl k)"
    if "cli cl" "genuine c" "routed (Workspace (Key c)) (\<lambda>i. be_Ack be (e i) c th) cl = (rb, cl')" for cl c e th rb cl'
    using that by (rule sharded_Ack_any)
  show "cli cl' \<and> clp cl' = clp cl \<and> (ru = Ok () \<longrightarrow> clh cl c \<and> \<not> clh cl' c)"
    if "cli cl" "genuine c" "routed (Workspace (Key c)) (\<lambda>i. be_Release be (e i) c) cl = (ru, cl')" for cl c e ru cl'
    using that by (rule sharded_Release)
  show "cli cl' \<and> clp cl' = clp cl \<and> clh cl' = clh cl \<and> (\<forall>c th. cla cl c th \<longrightarrow> cla cl' c th)"
    if "cli cl" "routed (Workspace (Key c)) (\<lambda>i. be_Heartbeat be (e i) c d) cl = (ru, cl')" for cl c e d ru cl'
    using that by (rule sharded_Heartbeat)
qed

end

section \<open>Other clients of a cluster\<close>

text \<open>
  Calls of other clients, each executed on one primary; \<open>ok\<close> says which calls may happen there, and a list
  entry that may not is skipped. What a call does to the claims of one primary it does to the cluster's.
\<close>

fun cl_others :: "('l \<Rightarrow> 's \<Rightarrow> 's) \<Rightarrow> ('s cluster \<Rightarrow> nat \<Rightarrow> 'l \<Rightarrow> bool) \<Rightarrow> (nat \<times> 'l) list \<Rightarrow> 's cluster \<Rightarrow> 's cluster" where
  "cl_others exec ok [] cl = cl"
| "cl_others exec ok ((i, l) # ls) cl =
    cl_others exec ok ls
      (if i < length (shards cl) \<and> ok cl i l then cl\<lparr>shards := (shards cl)[i := exec l (shards cl ! i)]\<rparr> else cl)"

lemma cl_evolves:
  assumes "cl_invar invar pending cl" and "i < length (shards cl)"
    and "evolves UNIV invar pending holds ackable c (shards cl ! i) s"
    and "\<And>k. pending s k \<noteq> [] \<Longrightarrow> owner cl k = i"
  shows "evolves UNIV (cl_invar invar pending) (cl_pending pending) (cl_holds holds) (cl_ackable ackable) c cl
    (cl\<lparr>shards := (shards cl)[i := s]\<rparr>)"
proof -
  let ?cl = "cl\<lparr>shards := (shards cl)[i := s]\<rparr>"
  have "owner ?cl k = owner cl k" for k by (simp add: owner_def)
  then have "cl_invar invar pending ?cl"
    using assms(1,2,4) evolves_invar [OF assms(3)] by (auto simp: cl_invar_def nth_list_update)
  then show ?thesis
    using assms(2,3)
    by (cases "owner cl (Key c) = i")
      (auto simp: evolves_def cl_holds_def cl_pending_def cl_ackable_def nth_list_update)
qed

lemma cl_others_evolves:
  assumes "\<And>cl i l. cl_invar invar pending cl \<Longrightarrow> i < length (shards cl) \<Longrightarrow> ok cl i l \<Longrightarrow>
      evolves UNIV invar pending holds ackable c (shards cl ! i) (exec l (shards cl ! i)) \<and>
      (\<forall>k. pending (exec l (shards cl ! i)) k \<noteq> [] \<longrightarrow> owner cl k = i)"
  shows "cl_invar invar pending cl \<Longrightarrow> evolves UNIV (cl_invar invar pending) (cl_pending pending) (cl_holds holds)
    (cl_ackable ackable) c cl (cl_others exec ok ls cl)"
proof (induction ls arbitrary: cl)
  case (Cons il ls)
  obtain i l where il: "il = (i, l)" by (cases il)
  let ?cl = "if i < length (shards cl) \<and> ok cl i l then cl\<lparr>shards := (shards cl)[i := exec l (shards cl ! i)]\<rparr> else cl"
  have e: "evolves UNIV (cl_invar invar pending) (cl_pending pending) (cl_holds holds) (cl_ackable ackable) c cl ?cl"
  proof (cases "i < length (shards cl) \<and> ok cl i l")
    case True
    with assms [OF Cons.prems, of i l] have
      "evolves UNIV invar pending holds ackable c (shards cl ! i) (exec l (shards cl ! i))"
      "\<And>k. pending (exec l (shards cl ! i)) k \<noteq> [] \<Longrightarrow> owner cl k = i" by auto
    from cl_evolves [OF Cons.prems _ this] True show ?thesis by simp
  next
    case False
    show ?thesis unfolding if_not_P [OF False] by (intro evolves_refl extensions_UNIV Cons.prems)
  qed
  with Cons.IH [OF evolves_invar [OF e]] il show ?case by (auto intro: evolves_trans)
qed (simp add: evolves_refl)

end
