(* ===== verification/Postgres.thy ===== *)
theory Postgres
  imports Sharding "HOL-Library.AList"
begin

text \<open>
  Package \<open>internal/postgres\<close>, the Path 1 driver. A primary is its tables: \<open>work_units\<close> and \<open>tasks\<close> of
  \<open>schema.sql\<close> with their columns, \<open>dead_letters\<close> and \<open>tenant_config\<close>, a nullable column as an option. Each
  SQL statement of the driver is the function on the tables that its text says; a statement, or a
  transaction that holds the unit's row lock, is one atomic step. Timestamps are in the unit of the
  clock, intervals are converted from milliseconds.

  What a call reads from outside is its oracle value: \<open>now()\<close>, the UUID that \<open>gen_random_uuid()\<close> returns,
  the rows other transactions have locked, and the faults of the connection: an error before the
  statement runs, an error instead of the reply after it has run, and an error between the reaper's
  two statements. The tenant cache belongs to the driver; a workspace's entry is only used with the
  workspace's own primary, so it is kept with that primary.
\<close>

section \<open>Tables\<close>

record pg_unit =
  pending_cost :: int
  next_seq :: int
  u_threshold :: int
  max_wait_ms :: int
  u_eligible :: bool
  claimed_by :: "WorkerID option"
  u_token :: "LeaseToken option"
  lease_ms :: "int option"
  lease_expires :: "time option"
  oldest_pending_at :: "time option"
  flush_deadline :: "time option"

record pg_task =
  t_key :: WorkUnitKey
  t_seq :: int
  t_payload :: string
  t_cost :: int
  t_attempts :: int
  enqueued_at :: time

record pg_dead =
  d_key :: WorkUnitKey
  d_seq :: int
  d_payload :: string
  d_cost :: int
  d_attempts :: int
  d_enqueued_at :: time
  failed_at :: time
  d_reason :: string

record pg =
  work_units :: "(WorkUnitKey \<times> pg_unit) list"
  pg_tasks :: "pg_task list"
  dead_letters :: "pg_dead list"
  tenant_config :: "(string \<times> int \<times> int) list"
  tenants :: "string \<rightharpoonup> int \<times> duration"
  defT :: int
  defWait :: duration
  maxTries :: int

record pg_env =
  pg_now :: time
  uuid :: LeaseToken
  locked :: "WorkUnitKey list"
  fault :: "qerror option"
  fault_mid :: "qerror option"
  lost_reply :: "qerror option"
  tenant_fault :: bool

text \<open>The range of \<open>int\<close> (that of \<open>bigint\<close> is \<open>int8\<close>); a value outside is an error of the statement, not a wrap-around.\<close>

definition int4 :: "int \<Rightarrow> bool" where
  "int4 x \<longleftrightarrow> - (2 ^ 31) \<le> x \<and> x < 2 ^ 31"

definition ms :: "int \<Rightarrow> duration" where
  "ms n = n * 1000000"

text \<open>A round trip to the primary.\<close>

definition driver :: "pg_env \<Rightarrow> (pg \<Rightarrow> 'a result \<times> pg) \<Rightarrow> pg \<Rightarrow> 'a result \<times> pg" where
  "driver e f s =
    (case fault e of
      Some x \<Rightarrow> (Err x, s)
    | None \<Rightarrow> (case f s of (r, s') \<Rightarrow> (case lost_reply e of None \<Rightarrow> (r, s') | Some x \<Rightarrow> (Err x, s'))))"

definition unit_tasks :: "WorkUnitKey \<Rightarrow> pg \<Rightarrow> pg_task list" where
  "unit_tasks k s = filter (\<lambda>t. t_key t = k) (pg_tasks s)"

definition to_task :: "pg_task \<Rightarrow> Task" where
  "to_task t = \<lparr>Seq = t_seq t, Payload = t_payload t, Cost = t_cost t\<rparr>"

text \<open>\<open>min(enqueued_at)\<close>, NULL over no rows, and the deadline it gives.\<close>

definition min_enq :: "pg_task list \<Rightarrow> time option" where
  "min_enq ts = (if ts = [] then None else Some (min_list (map enqueued_at ts)))"

definition keeps :: "time \<Rightarrow> pg_unit \<Rightarrow> int \<Rightarrow> time option \<Rightarrow> bool" where
  "keeps now w pc head \<longleftrightarrow>
     pc \<ge> u_threshold w \<or> (case head of None \<Rightarrow> False | Some t \<Rightarrow> t + ms (max_wait_ms w) \<le> now)"

section \<open>Tenant configuration\<close>

definition tenant_get :: "pg_env \<Rightarrow> string \<Rightarrow> pg \<Rightarrow> (int \<times> duration) \<times> pg" where
  "tenant_get e ws s =
    (case tenants s ws of
      Some v \<Rightarrow> (v, s)
    | None \<Rightarrow>
        let v = (if tenant_fault e then (defT s, defWait s)
                 else case map_of (tenant_config s) ws of
                     Some (t, wait) \<Rightarrow> (t, ms wait)
                   | None \<Rightarrow> (defT s, defWait s))
        in (v, s\<lparr>tenants := (tenants s)(ws \<mapsto> v)\<rparr>))"

section \<open>Operations\<close>

text \<open>The row that the upsert of \<open>Enqueue\<close> leaves; its \<open>next_seq\<close> is the sequence number of the new task.\<close>

definition upsert :: "time \<Rightarrow> int \<Rightarrow> int \<Rightarrow> int \<Rightarrow> pg_unit option \<Rightarrow> pg_unit" where
  "upsert now t waitMs cost old =
    (case old of
      None \<Rightarrow>
        \<lparr> pending_cost = cost, next_seq = 0, u_threshold = t, max_wait_ms = waitMs, u_eligible = cost \<ge> t,
          claimed_by = None, u_token = None, lease_ms = None, lease_expires = None,
          oldest_pending_at = Some now, flush_deadline = Some (now + ms waitMs) \<rparr>
    | Some w \<Rightarrow>
        w\<lparr> pending_cost := pending_cost w + cost, next_seq := next_seq w + 1,
           u_eligible := pending_cost w + cost \<ge> u_threshold w \<or> u_eligible w,
           oldest_pending_at := (if pending_cost w = 0 then Some now else oldest_pending_at w),
           flush_deadline := (if pending_cost w = 0 then Some (now + ms (max_wait_ms w)) else flush_deadline w) \<rparr>)"

definition enqueue_stmt :: "time \<Rightarrow> int \<Rightarrow> int \<Rightarrow> WorkUnitKey \<Rightarrow> string \<Rightarrow> int \<Rightarrow> pg \<Rightarrow> int result \<times> pg" where
  "enqueue_stmt now t waitMs k payload cost s =
    (let w = upsert now t waitMs cost (map_of (work_units s) k)
     in if \<not> (int4 t \<and> int4 waitMs \<and> int4 cost \<and> int8 (pending_cost w) \<and> int8 (next_seq w))
        then (Err (ErrDriver ''out of range''), s)
        else if \<exists>x \<in> set (unit_tasks k s). t_seq x = next_seq w then (Err (ErrDriver ''unique_violation''), s)
        else (Ok (next_seq w),
              s\<lparr>work_units := AList.update k w (work_units s),
                pg_tasks := pg_tasks s @ [\<lparr>t_key = k, t_seq = next_seq w, t_payload = payload, t_cost = cost,
                  t_attempts = 0, enqueued_at = now\<rparr>]\<rparr>))"

definition pg_Enqueue :: "pg_env \<Rightarrow> WorkUnitKey \<Rightarrow> string \<Rightarrow> int \<Rightarrow> pg \<Rightarrow> int result \<times> pg" where
  "pg_Enqueue e k payload cost s =
    (let ((t, wait), s) = tenant_get e (Workspace k) s
     in driver e (enqueue_stmt (pg_now e) t (go_div wait 1000000) k payload cost) s)"

text \<open>The subquery of \<open>Claim\<close>: \<open>ORDER BY flush_deadline NULLS LAST, ws, sess, peer\<close>, skipping locked rows.\<close>

definition claim_order :: "WorkUnitKey \<times> pg_unit \<Rightarrow> (bool \<times> time) \<times> WorkUnitKey" where
  "claim_order r = (case flush_deadline (snd r) of None \<Rightarrow> (True, 0) | Some t \<Rightarrow> (False, t), fst r)"

definition claim_row :: "pg_env \<Rightarrow> pg \<Rightarrow> (WorkUnitKey \<times> pg_unit) option" where
  "claim_row e s =
    (case sort_key claim_order (filter (\<lambda>(k, u). u_eligible u \<and> claimed_by u = None \<and> k \<notin> set (locked e)) (work_units s)) of
      [] \<Rightarrow> None
    | r # _ \<Rightarrow> Some r)"

definition claim_stmt :: "pg_env \<Rightarrow> WorkerID \<Rightarrow> int \<Rightarrow> pg \<Rightarrow> ClaimedUnit option result \<times> pg" where
  "claim_stmt e worker leaseMs s =
    (if \<not> int4 leaseMs then (Err (ErrDriver ''out of range''), s)
     else case claim_row e s of
         None \<Rightarrow> (Ok None, s)
       | Some (k, w) \<Rightarrow>
           let exp = pg_now e + ms leaseMs
           in (Ok (Some \<lparr>Key = k, Worker = worker, Lease = uuid e, LeaseTill = exp\<rparr>),
               s\<lparr>work_units := AList.update k
                   (w\<lparr>claimed_by := Some worker, u_token := Some (uuid e), lease_ms := Some leaseMs,
                      lease_expires := Some exp\<rparr>) (work_units s)\<rparr>))"

definition pg_Claim :: "pg_env \<Rightarrow> WorkerID \<Rightarrow> duration \<Rightarrow> pg \<Rightarrow> ClaimedUnit option result \<times> pg" where
  "pg_Claim e worker lease = driver e (claim_stmt e worker (go_div lease 1000000))"

definition holds_row :: "ClaimedUnit \<Rightarrow> pg_unit \<Rightarrow> bool" where
  "holds_row c w \<longleftrightarrow> claimed_by w = Some (Worker c) \<and> u_token w = Some (Lease c)"

definition checkLease :: "ClaimedUnit \<Rightarrow> pg \<Rightarrow> pg_unit result" where
  "checkLease c s =
    (case map_of (work_units s) (Key c) of
      None \<Rightarrow> Err ErrLeaseLost
    | Some w \<Rightarrow> if holds_row c w then Ok w else Err ErrLeaseLost)"

definition select_tasks :: "ClaimedUnit \<Rightarrow> int \<Rightarrow> pg \<Rightarrow> Task list result" where
  "select_tasks c limit s =
    (if limit < 0 then Err (ErrDriver ''LIMIT must not be negative'')
     else Ok (map to_task (take (nat limit) (sort_key t_seq (unit_tasks (Key c) s)))))"

definition drain_stmts :: "pg_env \<Rightarrow> ClaimedUnit \<Rightarrow> int \<Rightarrow> pg \<Rightarrow> Task list result \<times> pg" where
  "drain_stmts e c limit s =
    (case checkLease c s of
        Err x \<Rightarrow> (Err x, s)
      | Panic \<Rightarrow> (Panic, s)
      | Ok _ \<Rightarrow> (select_tasks c limit s, s))"

definition pg_Drain :: "pg_env \<Rightarrow> ClaimedUnit \<Rightarrow> int \<Rightarrow> pg \<Rightarrow> Task list result \<times> pg" where
  "pg_Drain e c limit = driver e (drain_stmts e c limit)"

definition released :: "pg_unit \<Rightarrow> pg_unit" where
  "released w = w\<lparr>claimed_by := None, u_token := None, lease_expires := None\<rparr>"

definition ack_tx :: "pg_env \<Rightarrow> ClaimedUnit \<Rightarrow> int \<Rightarrow> pg \<Rightarrow> bool result \<times> pg" where
  "ack_tx e c throughSeq s =
    (case checkLease c s of
        Err x \<Rightarrow> (Err x, s)
      | Panic \<Rightarrow> (Panic, s)
      | Ok w \<Rightarrow>
          let k = Key c;
              acked = sum_list (map t_cost (filter (\<lambda>t. t_seq t \<le> throughSeq) (unit_tasks k s)));
              head = min_enq (filter (\<lambda>t. t_seq t > throughSeq) (unit_tasks k s));
              keep = keeps (pg_now e) w (pending_cost w - acked) head;
              w' = w\<lparr>pending_cost := pending_cost w - acked, oldest_pending_at := head,
                     flush_deadline := map_option (\<lambda>t. t + ms (max_wait_ms w)) head, u_eligible := keep,
                     claimed_by := (if keep then Some (Worker c) else None),
                     u_token := (if keep then Some (Lease c) else None),
                     lease_expires := (if keep then map_option (\<lambda>m. pg_now e + ms m) (lease_ms w) else None)\<rparr>
          in (Ok keep,
              s\<lparr>work_units := AList.update k w' (work_units s),
                pg_tasks := filter (\<lambda>t. \<not> (t_key t = k \<and> t_seq t \<le> throughSeq)) (pg_tasks s)\<rparr>))"

definition pg_Ack :: "pg_env \<Rightarrow> ClaimedUnit \<Rightarrow> int \<Rightarrow> pg \<Rightarrow> bool result \<times> pg" where
  "pg_Ack e c throughSeq = driver e (ack_tx e c throughSeq)"

definition release_stmt :: "pg_env \<Rightarrow> ClaimedUnit \<Rightarrow> pg \<Rightarrow> unit result \<times> pg" where
  "release_stmt e c s =
    (case checkLease c s of
        Err x \<Rightarrow> (Err x, s)
      | Panic \<Rightarrow> (Panic, s)
      | Ok w \<Rightarrow> (Ok (), s\<lparr>work_units := AList.update (Key c) (released w) (work_units s)\<rparr>))"

definition pg_Release :: "pg_env \<Rightarrow> ClaimedUnit \<Rightarrow> pg \<Rightarrow> unit result \<times> pg" where
  "pg_Release e c = driver e (release_stmt e c)"

definition heartbeat_stmt :: "pg_env \<Rightarrow> ClaimedUnit \<Rightarrow> int \<Rightarrow> pg \<Rightarrow> unit result \<times> pg" where
  "heartbeat_stmt e c m s =
    (if \<not> int4 m then (Err (ErrDriver ''out of range''), s)
     else case checkLease c s of
         Err x \<Rightarrow> (Err x, s)
       | Panic \<Rightarrow> (Panic, s)
       | Ok w \<Rightarrow> (Ok (), s\<lparr>work_units := AList.update (Key c)
           (w\<lparr>lease_ms := Some m, lease_expires := Some (pg_now e + ms m)\<rparr>) (work_units s)\<rparr>))"

definition pg_Heartbeat :: "pg_env \<Rightarrow> ClaimedUnit \<Rightarrow> duration \<Rightarrow> pg \<Rightarrow> unit result \<times> pg" where
  "pg_Heartbeat e c ext = driver e (heartbeat_stmt e c (go_div ext 1000000))"

text \<open>
  \<open>Fail\<close>: the attempts of the named task are counted; at the cap, and only for the head of the unit, the
  task moves to the dead letters and the unit is re-gated; the lease is given up in any case.
\<close>

definition fail_tx :: "pg_env \<Rightarrow> ClaimedUnit \<Rightarrow> int \<Rightarrow> string \<Rightarrow> pg \<Rightarrow> unit result \<times> pg" where
  "fail_tx e c seq reason s =
    (case checkLease c s of
        Err x \<Rightarrow> (Err x, s)
      | Panic \<Rightarrow> (Panic, s)
      | Ok w \<Rightarrow>
          let k = Key c;
              hit = (\<lambda>t. t_key t = k \<and> t_seq t = seq);
              s = s\<lparr>pg_tasks := map (\<lambda>t. if hit t then t\<lparr>t_attempts := t_attempts t + 1\<rparr> else t) (pg_tasks s)\<rparr>
          in case find hit (pg_tasks s) of
              Some t \<Rightarrow>
                if t_attempts t \<ge> maxTries s \<and> seq = min_list (map t_seq (unit_tasks k s)) then
                  let pc = pending_cost w - t_cost t;
                      head = min_enq (filter (\<lambda>t. t_seq t \<noteq> seq) (unit_tasks k s))
                  in (Ok (),
                      s\<lparr>work_units := AList.update k
                          (released (w\<lparr>pending_cost := pc, oldest_pending_at := head,
                             flush_deadline := map_option (\<lambda>t. t + ms (max_wait_ms w)) head,
                             u_eligible := keeps (pg_now e) w pc head\<rparr>)) (work_units s),
                        pg_tasks := filter (\<lambda>t. \<not> hit t) (pg_tasks s),
                        dead_letters := dead_letters s @
                          [\<lparr>d_key = k, d_seq = seq, d_payload = t_payload t, d_cost = t_cost t, d_attempts = t_attempts t,
                            d_enqueued_at = enqueued_at t, failed_at = pg_now e, d_reason = reason\<rparr>]\<rparr>)
                else (Ok (), s\<lparr>work_units := AList.update k (released w) (work_units s)\<rparr>)
            | None \<Rightarrow> (Ok (), s\<lparr>work_units := AList.update k (released w) (work_units s)\<rparr>))"

definition pg_Fail :: "pg_env \<Rightarrow> ClaimedUnit \<Rightarrow> int \<Rightarrow> string \<Rightarrow> pg \<Rightarrow> unit result \<times> pg" where
  "pg_Fail e c seq reason = driver e (fail_tx e c seq reason)"

definition expired_row :: "time \<Rightarrow> pg_unit \<Rightarrow> bool" where
  "expired_row now w \<longleftrightarrow> claimed_by w \<noteq> None \<and> (case lease_expires w of None \<Rightarrow> False | Some t \<Rightarrow> t < now)"

definition flush_row :: "time \<Rightarrow> pg_unit \<Rightarrow> bool" where
  "flush_row now w \<longleftrightarrow> \<not> u_eligible w \<and> claimed_by w = None \<and>
     (case flush_deadline w of None \<Rightarrow> False | Some t \<Rightarrow> t \<le> now) \<and> pending_cost w > 0"

definition reap_stmts :: "pg_env \<Rightarrow> time \<Rightarrow> pg \<Rightarrow> (int \<times> int) result \<times> pg" where
  "reap_stmts e now s =
    (let r = int (length (filter (\<lambda>(k, w). expired_row now w) (work_units s)));
          s = s\<lparr>work_units := map (\<lambda>(k, w). (k, if expired_row now w then released w else w)) (work_units s)\<rparr>
      in case fault_mid e of
          Some x \<Rightarrow> (Err x, s)
        | None \<Rightarrow>
            let f = int (length (filter (\<lambda>(k, w). flush_row now w) (work_units s)))
            in (Ok (r, f), s\<lparr>work_units := map (\<lambda>(k, w). (k, if flush_row now w then w\<lparr>u_eligible := True\<rparr> else w)) (work_units s)\<rparr>))"

definition pg_ReapExpired :: "pg_env \<Rightarrow> time \<Rightarrow> pg \<Rightarrow> (int \<times> int) result \<times> pg" where
  "pg_ReapExpired e now = driver e (reap_stmts e now)"

text \<open>The depth of one primary; \<open>PendingTasks\<close> is not read.\<close>

definition pg_Stats :: "pg_env \<Rightarrow> pg \<Rightarrow> Stats" where
  "pg_Stats e s =
    \<lparr> TotalUnits = int (length (work_units s)),
      EligibleUnits = int (length (filter (\<lambda>(k, w). u_eligible w \<and> claimed_by w = None) (work_units s))),
      PendingTasks = 0,
      DeadLetters = int (length (dead_letters s)),
      OldestBelowT =
        (case List.map_filter (\<lambda>(k, w). if \<not> u_eligible w \<and> claimed_by w = None then oldest_pending_at w else None) (work_units s) of
          [] \<Rightarrow> 0
        | ts \<Rightarrow> pg_now e - min_list ts) \<rparr>"

definition pg_Reset :: "pg \<Rightarrow> pg" where
  "pg_Reset s = s\<lparr>work_units := [], pg_tasks := [], dead_letters := []\<rparr>"

definition pg_Backend :: "(pg_env, pg) Backend" where
  "pg_Backend =
    \<lparr> be_Enqueue = pg_Enqueue, be_Claim = pg_Claim, be_Drain = pg_Drain, be_Ack = pg_Ack,
      be_Release = pg_Release, be_Heartbeat = pg_Heartbeat, be_Fail = pg_Fail, be_ReapExpired = pg_ReapExpired \<rparr>"

text \<open>The totals over all primaries, with the greatest staleness; \<open>e i\<close> is what primary \<open>i\<close> reads.\<close>

fun pg_Stats_all :: "(nat \<Rightarrow> pg_env) \<Rightarrow> nat \<Rightarrow> pg list \<Rightarrow> Stats \<Rightarrow> Stats result" where
  "pg_Stats_all e i [] out = Ok out"
| "pg_Stats_all e i (s # ss) out =
    (case fault (e i) of
      Some x \<Rightarrow> Err x
    | None \<Rightarrow>
        let st = pg_Stats (e i) s
        in pg_Stats_all e (Suc i) ss
             (out\<lparr>TotalUnits := TotalUnits out + TotalUnits st, EligibleUnits := EligibleUnits out + EligibleUnits st,
                  DeadLetters := DeadLetters out + DeadLetters st,
                  OldestBelowT := max (OldestBelowT out) (OldestBelowT st)\<rparr>))"

fun pg_Reset_all :: "(nat \<Rightarrow> pg_env) \<Rightarrow> nat \<Rightarrow> pg list \<Rightarrow> pg list \<Rightarrow> unit result \<times> pg list" where
  "pg_Reset_all e i done [] = (Ok (), done)"
| "pg_Reset_all e i done (s # ss) =
    (case fault (e i) of
      Some x \<Rightarrow> (Err x, done @ s # ss)
    | None \<Rightarrow> pg_Reset_all e (Suc i) (done @ [pg_Reset s]) ss)"

section \<open>Opening the driver\<close>

text \<open>\<open>stripSQLComments\<close> and the statements that \<open>applySchema\<close> runs.\<close>

fun cut_comment :: "string \<Rightarrow> string" where
  "cut_comment [] = []"
| "cut_comment (c # cs) = (if take 2 (c # cs) = ''--'' then [] else c # cut_comment cs)"

definition stripSQLComments :: "string \<Rightarrow> string" where
  "stripSQLComments s = concat (map (\<lambda>line. cut_comment line @ [CHR 0x0A]) (Split (CHR 0x0A) s))"

definition schema_stmts :: "string \<Rightarrow> string list" where
  "schema_stmts sql = filter (\<lambda>t. t \<noteq> []) (map TrimSpace (Split (CHR '';'') (stripSQLComments sql)))"

fun run_stmts :: "(string \<Rightarrow> pg \<Rightarrow> unit result \<times> pg) \<Rightarrow> string list \<Rightarrow> pg \<Rightarrow> unit result \<times> pg" where
  "run_stmts exec [] p = (Ok (), p)"
| "run_stmts exec (t # ts) p =
    (case exec t p of (Ok _, p) \<Rightarrow> run_stmts exec ts p | (Err x, p) \<Rightarrow> (Err x, p) | (Panic, p) \<Rightarrow> (Panic, p))"

definition applySchema :: "(string \<Rightarrow> pg \<Rightarrow> unit result \<times> pg) \<Rightarrow> string \<Rightarrow> pg \<Rightarrow> unit result \<times> pg" where
  "applySchema exec sql p = run_stmts exec (schema_stmts sql) p"

text \<open>
  \<open>New\<close>: one pool per DSN, with the schema applied to each; the first failure ends it. \<open>connect\<close> (opening a
  pool) and \<open>exec\<close> (running a statement of the schema) are the Postgres client's. The driver's own fields,
  the tenant cache, the defaults and the retry cap, are kept with each primary.
\<close>

fun open_pools :: "(string \<Rightarrow> pg result) \<Rightarrow> (string \<Rightarrow> pg \<Rightarrow> unit result \<times> pg) \<Rightarrow> string \<Rightarrow> string list \<Rightarrow> pg list \<Rightarrow> pg list result" where
  "open_pools connect exec sql [] ps = Ok ps"
| "open_pools connect exec sql (d # ds) ps =
    (case connect d of
      Ok p \<Rightarrow> (case applySchema exec sql p of
          (Ok _, p) \<Rightarrow> open_pools connect exec sql ds (ps @ [p])
        | (Err x, _) \<Rightarrow> Err x
        | (Panic, _) \<Rightarrow> Panic)
    | Err x \<Rightarrow> Err x
    | Panic \<Rightarrow> Panic)"

definition pg_New :: "(string \<Rightarrow> pg result) \<Rightarrow> (string \<Rightarrow> pg \<Rightarrow> unit result \<times> pg) \<Rightarrow> string
    \<Rightarrow> string list \<Rightarrow> int \<Rightarrow> duration \<Rightarrow> int \<Rightarrow> pg cluster result" where
  "pg_New connect exec sql dsns T wait tries =
    (if dsns = [] then Err ErrNoDSN
     else
       let tries = (if tries \<le> 0 then 3 else tries)
       in case open_pools connect exec sql dsns [] of
           Ok ps \<Rightarrow> Ok \<lparr>shards = map (\<lambda>p. p\<lparr>tenants := Map.empty, defT := T, defWait := wait, maxTries := tries\<rparr>) ps, rr = 0\<rparr>
         | Err x \<Rightarrow> Err x
         | Panic \<Rightarrow> Panic)"

end
