(* ===== verification/Postgres_Inv.thy ===== *)
theory Postgres_Inv
  imports Postgres Lease_Spec
begin

text \<open>
  The invariant of a Postgres primary and what its statements do to it. A unit's row agrees with the
  unit's tasks: the aggregate is their total cost, sequence numbers ascend up to \<open>next_seq\<close>, and an
  eligible or claimed unit has tasks. It is kept for positive costs and positive thresholds, which the
  driver relies on when it takes an aggregate of zero for an empty unit.
\<close>

section \<open>The invariant\<close>

abbreviation seqs_ascend :: "pg_task list \<Rightarrow> bool" where
  "seqs_ascend ts \<equiv> sorted_wrt (\<lambda>t t'. t_seq t < t_seq t') ts"

abbreviation total_cost :: "pg_task list \<Rightarrow> int" where
  "total_cost ts \<equiv> sum_list (map t_cost ts)"

definition row_ok :: "pg_unit \<Rightarrow> pg_task list \<Rightarrow> bool" where
  "row_ok w ts \<longleftrightarrow>
     seqs_ascend ts \<and> (\<forall>t \<in> set ts. 1 \<le> t_cost t \<and> t_seq t \<le> next_seq w) \<and>
     pending_cost w = total_cost ts \<and> 1 \<le> u_threshold w \<and>
     (u_eligible w \<longrightarrow> ts \<noteq> []) \<and> (claimed_by w \<noteq> None \<longrightarrow> ts \<noteq> []) \<and>
     (claimed_by w = None \<longleftrightarrow> u_token w = None)"

definition unit_ok :: "pg_unit option \<Rightarrow> pg_task list \<Rightarrow> bool" where
  "unit_ok r ts = (case r of None \<Rightarrow> ts = [] | Some w \<Rightarrow> row_ok w ts)"

definition conf_ok :: "pg \<Rightarrow> bool" where
  "conf_ok s \<longleftrightarrow> 1 \<le> defT s \<and> (\<forall>(ws, t, m) \<in> set (tenant_config s). 1 \<le> t) \<and>
     (\<forall>ws v. tenants s ws = Some v \<longrightarrow> 1 \<le> fst v)"

abbreviation row :: "pg \<Rightarrow> WorkUnitKey \<rightharpoonup> pg_unit" where
  "row s \<equiv> map_of (work_units s)"

definition pg_inv :: "pg \<Rightarrow> bool" where
  "pg_inv s \<longleftrightarrow> distinct (map fst (work_units s)) \<and> conf_ok s \<and> (\<forall>k. unit_ok (row s k) (unit_tasks k s))"

lemma pg_invD:
  assumes "pg_inv s"
  shows "distinct (map fst (work_units s))" and "conf_ok s" and "unit_ok (row s k) (unit_tasks k s)"
    and "row s k = Some w \<Longrightarrow> row_ok w (unit_tasks k s)"
  using assms by (auto simp: pg_inv_def unit_ok_def dest: spec [of _ k])

lemma row_okD:
  assumes "row_ok w ts"
  shows "seqs_ascend ts" and "t \<in> set ts \<Longrightarrow> 1 \<le> t_cost t" and "t \<in> set ts \<Longrightarrow> t_seq t \<le> next_seq w"
    and "pending_cost w = total_cost ts" and "1 \<le> u_threshold w" and "u_eligible w \<Longrightarrow> ts \<noteq> []"
    and "claimed_by w \<noteq> None \<Longrightarrow> ts \<noteq> []" and "claimed_by w = None \<longleftrightarrow> u_token w = None"
  using assms by (auto simp: row_ok_def)

section \<open>Tables\<close>

lemma unit_tasks_update [simp]:
  "unit_tasks k (s\<lparr>work_units := x\<rparr>) = unit_tasks k s" "unit_tasks k (s\<lparr>dead_letters := y\<rparr>) = unit_tasks k s"
  "unit_tasks k (s\<lparr>tenants := z\<rparr>) = unit_tasks k s"
  by (simp_all add: unit_tasks_def)

lemma unit_tasks_append [simp]:
  "unit_tasks k (s\<lparr>pg_tasks := pg_tasks s @ [t]\<rparr>) = unit_tasks k s @ (if t_key t = k then [t] else [])"
  by (simp add: unit_tasks_def)

lemma unit_tasks_delete [simp]:
  "unit_tasks k' (s\<lparr>pg_tasks := filter (\<lambda>t. t_key t = k \<longrightarrow> P t) ts\<rparr>) =
    (if k' = k then filter P (unit_tasks k (s\<lparr>pg_tasks := ts\<rparr>)) else unit_tasks k' (s\<lparr>pg_tasks := ts\<rparr>))"
  by (auto simp: unit_tasks_def intro: filter_cong)

lemma row_update [simp]: "row (s\<lparr>work_units := AList.update k w (work_units s)\<rparr>) = (row s)(k \<mapsto> w)"
  by (simp add: update_conv')

lemma conf_ok_update [simp]:
  "conf_ok (s\<lparr>work_units := x\<rparr>) = conf_ok s" "conf_ok (s\<lparr>pg_tasks := y\<rparr>) = conf_ok s"
  "conf_ok (s\<lparr>dead_letters := z\<rparr>) = conf_ok s"
  by (simp_all add: conf_ok_def)

text \<open>Changing one row, and only tasks of its unit, keeps the invariant when the unit stays well-formed.\<close>

lemma pg_inv_write:
  assumes "pg_inv s" and "row_ok w ts" and "unit_tasks k s' = ts" and "\<And>k'. k' \<noteq> k \<Longrightarrow> unit_tasks k' s' = unit_tasks k' s"
    and "work_units s' = AList.update k w (work_units s)" and "conf_ok s' = conf_ok s"
  shows "pg_inv s'"
proof -
  have "unit_ok (row s' k') (unit_tasks k' s')" for k'
    using pg_invD(3) [OF assms(1), of k'] assms(2-5) by (cases "k' = k") (auto simp: update_conv' unit_ok_def)
  then show ?thesis
    using pg_invD(1,2) [OF assms(1)] assms(5,6) by (simp add: pg_inv_def distinct_update)
qed

lemma checkLease_Ok: "checkLease c s = Ok w \<longleftrightarrow> row s (Key c) = Some w \<and> holds_row c w"
  by (auto simp: checkLease_def split: option.splits)

lemma checkLease_cases:
  obtains (lost) "checkLease c s = Err ErrLeaseLost" | (ok) w where "checkLease c s = Ok w"
proof (cases "row s (Key c)")
  case (Some w)
  with lost ok show ?thesis by (cases "holds_row c w") (simp_all add: checkLease_def)
qed (use lost in \<open>simp add: checkLease_def\<close>)

lemma total_cost_nonneg: "\<forall>t \<in> set ts. 1 \<le> t_cost t \<Longrightarrow> int (length ts) \<le> total_cost ts"
  by (induction ts) auto

lemma total_cost_split: "total_cost ts = total_cost (filter P ts) + total_cost (filter (\<lambda>t. \<not> P t) ts)"
  by (induction ts) auto

text \<open>
  The gate evaluated over the remaining tasks never keeps an empty unit: its aggregate would be 0,
  below every threshold.
\<close>

lemma keeps_nonempty:
  assumes "keeps now w (total_cost ts) (min_enq ts)" and "1 \<le> u_threshold w"
  shows "ts \<noteq> []"
  using assms by (auto simp: keeps_def min_enq_def)

section \<open>A round trip\<close>

lemma driverE:
  assumes "driver e f s = (r, s')"
  obtains (failed) x where "s' = s" and "r = Err x"
    | (ran) r0 where "f s = (r0, s')" and "r = r0 \<or> (\<exists>x. r = Err x)"
  using assms by (auto simp: driver_def split: option.splits prod.splits)

lemma driver_Ok: "driver e f s = (Ok v, s') \<Longrightarrow> f s = (Ok v, s')"
  by (auto simp: driver_def split: option.splits prod.splits)

lemma driver_inv:
  assumes "driver e f s = (r, s')" and "P s" and "P (snd (f s))"
  shows "P s'"
  using assms by (cases rule: driverE) auto

section \<open>Enqueue\<close>

lemma tenant_get_inv:
  assumes "pg_inv s" and "tenant_get e ws s = ((t, wait), s')"
  shows "pg_inv s' \<and> 1 \<le> t \<and> (\<exists>c. s' = s\<lparr>tenants := c\<rparr>)"
proof -
  have c: "1 \<le> defT s" "\<forall>(ws, t, m) \<in> set (tenant_config s). 1 \<le> t" "\<forall>ws v. tenants s ws = Some v \<longrightarrow> 1 \<le> fst v"
    using pg_invD(2) [OF assms(1)] by (auto simp: conf_ok_def)
  have t: "1 \<le> t" using assms(2) c
    by (auto simp: tenant_get_def Let_def split: option.splits if_splits dest!: map_of_SomeD)
  have "s' = s \<or> s' = s\<lparr>tenants := (tenants s)(ws \<mapsto> (t, wait))\<rparr>"
    using assms(2) by (auto simp: tenant_get_def Let_def split: option.splits)
  moreover have "pg_inv (s\<lparr>tenants := (tenants s)(ws \<mapsto> (t, wait))\<rparr>)"
    using assms(1) t by (auto simp: pg_inv_def conf_ok_def)
  moreover have "s = s\<lparr>tenants := tenants s\<rparr>" by simp
  ultimately show ?thesis using assms(1) t by metis
qed

lemma upsert_row_ok:
  assumes "unit_ok old ts" and "1 \<le> cost" and "1 \<le> t" and "t_cost x = cost"
    and "t_seq x = next_seq (upsert now t waitMs cost old)"
  shows "row_ok (upsert now t waitMs cost old) (ts @ [x])"
proof (cases old)
  case None
  then show ?thesis using assms by (auto simp: unit_ok_def row_ok_def upsert_def)
next
  case (Some w)
  then have "row_ok w ts" using assms(1) by (simp add: unit_ok_def)
  then show ?thesis using Some assms(2-5)
    by (fastforce simp: row_ok_def upsert_def sorted_wrt_append)
qed

lemma enqueue_stmt_inv:
  assumes "pg_inv s" and "1 \<le> cost" and "1 \<le> t"
  shows "pg_inv (snd (enqueue_stmt now t waitMs k p cost s))"
proof -
  let ?w = "upsert now t waitMs cost (row s k)"
  let ?x = "\<lparr>t_key = k, t_seq = next_seq ?w, t_payload = p, t_cost = cost, t_attempts = 0, enqueued_at = now\<rparr>"
  have "row_ok ?w (unit_tasks k s @ [?x])"
    using upsert_row_ok [OF pg_invD(3) [OF assms(1)] assms(2,3)] by simp
  then have "pg_inv (s\<lparr>work_units := AList.update k ?w (work_units s), pg_tasks := pg_tasks s @ [?x]\<rparr>)"
    by (rule pg_inv_write [OF assms(1)]) (simp_all add: unit_tasks_def)
  with assms(1) show ?thesis by (simp add: enqueue_stmt_def Let_def)
qed


section \<open>Claim\<close>

lemma claim_row_Some:
  assumes "pg_inv s" and "claim_row e s = Some (k, w)"
  shows "row s k = Some w" and "u_eligible w" and "claimed_by w = None" and "k \<notin> set (locked e)"
proof -
  let ?P = "\<lambda>(k, u). u_eligible u \<and> claimed_by u = None \<and> k \<notin> set (locked e)"
  from assms(2) have "\<exists>rs. sort_key claim_order (filter ?P (work_units s)) = (k, w) # rs"
    by (simp add: claim_row_def split: list.splits)
  then have "(k, w) \<in> set (sort_key claim_order (filter ?P (work_units s)))" by (metis list.set_intros(1))
  then have "(k, w) \<in> set (work_units s)" "u_eligible w \<and> claimed_by w = None \<and> k \<notin> set (locked e)" by simp_all
  then show "row s k = Some w" "u_eligible w" "claimed_by w = None" "k \<notin> set (locked e)"
    using pg_invD(1) [OF assms(1)] by simp_all
qed

lemma claim_stmt_cases:
  assumes "pg_inv s" and "claim_stmt e worker m s = (r, s')"
  obtains (out) x where "r = Err x" and "s' = s"
    | (none) "r = Ok None" and "s' = s"
    | (some) k w where "row s k = Some w" and "u_eligible w" and "claimed_by w = None"
        and "r = Ok (Some \<lparr>Key = k, Worker = worker, Lease = uuid e, LeaseTill = pg_now e + ms m\<rparr>)"
        and "s' = s\<lparr>work_units := AList.update k
          (w\<lparr>claimed_by := Some worker, u_token := Some (uuid e), lease_ms := Some m,
             lease_expires := Some (pg_now e + ms m)\<rparr>) (work_units s)\<rparr>"
proof (cases "int4 m")
  case True
  show ?thesis
  proof (cases "claim_row e s")
    case None
    with none assms(2) True show ?thesis by (simp add: claim_stmt_def)
  next
    case (Some kw)
    then obtain k w where kw: "claim_row e s = Some (k, w)" by (cases kw) simp
    note row = claim_row_Some [OF assms(1) kw]
    from assms(2) True kw show ?thesis
      by (intro some [OF row(1-3)]) (simp_all add: claim_stmt_def Let_def)
  qed
next
  case False
  then have "(r, s') = (Err (ErrDriver ''out of range''), s)" using assms(2) by (simp add: claim_stmt_def)
  then show ?thesis by (intro out) simp_all
qed

text \<open>A write to the lease columns of a row, and to nothing else.\<close>

lemma pg_inv_lease:
  assumes "pg_inv s" and "row s k = Some w" and "row_ok w' (unit_tasks k s)"
  shows "pg_inv (s\<lparr>work_units := AList.update k w' (work_units s)\<rparr>)"
  by (rule pg_inv_write [OF assms(1,3)]) (simp_all add: unit_tasks_def)

lemma row_ok_released: "row_ok w ts \<Longrightarrow> row_ok (released w) ts"
  by (simp add: row_ok_def released_def)

lemma claim_stmt_inv:
  assumes "pg_inv s"
  shows "pg_inv (snd (claim_stmt e worker m s))"
proof (rule claim_stmt_cases [OF assms surjective_pairing, of e worker m])
  fix k w
  assume some: "row s k = Some w" "u_eligible w" "snd (claim_stmt e worker m s) = s\<lparr>work_units := AList.update k
    (w\<lparr>claimed_by := Some worker, u_token := Some (uuid e), lease_ms := Some m,
      lease_expires := Some (pg_now e + ms m)\<rparr>) (work_units s)\<rparr>"
  from pg_invD(4) [OF assms some(1)] some(2) have "row_ok (w\<lparr>claimed_by := Some worker, u_token := Some (uuid e),
      lease_ms := Some m, lease_expires := Some (pg_now e + ms m)\<rparr>) (unit_tasks k s)"
    by (simp add: row_ok_def)
  from pg_inv_lease [OF assms some(1) this] show ?thesis unfolding some(3) .
qed (simp_all add: assms)

section \<open>Ack, Release, Heartbeat\<close>

lemma filter_above: "seqs_ascend ts \<Longrightarrow> filter (\<lambda>t. \<not> t_seq t \<le> th) ts = dropWhile (\<lambda>t. t_seq t \<le> th) ts"
proof (induction ts)
  case (Cons t ts)
  from Cons.prems have "filter (\<lambda>t. \<not> t_seq t \<le> th) ts = ts" if "\<not> t_seq t \<le> th"
    using that by (auto simp: filter_id_conv)
  with Cons show ?case by simp
qed simp

lemma filter_below: "seqs_ascend ts \<Longrightarrow> filter (\<lambda>t. t_seq t \<le> th) ts = takeWhile (\<lambda>t. t_seq t \<le> th) ts"
proof (induction ts)
  case (Cons t ts)
  from Cons.prems have "filter (\<lambda>t. t_seq t \<le> th) ts = []" if "\<not> t_seq t \<le> th"
    using that by (auto simp: filter_empty_conv)
  with Cons show ?case by simp
qed simp

text \<open>The row an acknowledgement leaves: \<open>rest\<close> are the unit's remaining tasks.\<close>

definition acked_row :: "time \<Rightarrow> pg_unit \<Rightarrow> pg_task list \<Rightarrow> pg_unit" where
  "acked_row now w rest =
    (let keep = keeps now w (total_cost rest) (min_enq rest)
     in w\<lparr>pending_cost := total_cost rest, oldest_pending_at := min_enq rest,
          flush_deadline := map_option (\<lambda>t. t + ms (max_wait_ms w)) (min_enq rest), u_eligible := keep,
          claimed_by := (if keep then claimed_by w else None), u_token := (if keep then u_token w else None),
          lease_expires := (if keep then map_option (\<lambda>m. now + ms m) (lease_ms w) else None)\<rparr>)"

lemma ack_tx_held:
  fixes th :: int
  assumes "pg_inv s" and "checkLease c s = Ok w"
  defines "rest \<equiv> dropWhile (\<lambda>t. t_seq t \<le> th) (unit_tasks (Key c) s)"
  shows "ack_tx e c th s = (Ok (keeps (pg_now e) w (total_cost rest) (min_enq rest)),
    s\<lparr>work_units := AList.update (Key c) (acked_row (pg_now e) w rest) (work_units s),
      pg_tasks := filter (\<lambda>t. \<not> (t_key t = Key c \<and> t_seq t \<le> th)) (pg_tasks s)\<rparr>)"
proof -
  from assms(2) have r: "row s (Key c) = Some w" "claimed_by w = Some (Worker c)" "u_token w = Some (Lease c)"
    by (simp_all add: checkLease_Ok holds_row_def)
  note ok = row_okD [OF pg_invD(4) [OF assms(1) r(1)]]
  have rest: "filter (\<lambda>t. t_seq t > th) (unit_tasks (Key c) s) = rest"
    using filter_above [OF ok(1), of th] by (simp add: rest_def not_le)
  then have "pending_cost w - total_cost (filter (\<lambda>t. t_seq t \<le> th) (unit_tasks (Key c) s)) = total_cost rest"
    using ok(4) total_cost_split [of "unit_tasks (Key c) s" "\<lambda>t. t_seq t \<le> th"] by (simp add: not_le)
  with rest r assms(2) show ?thesis by (simp add: ack_tx_def acked_row_def Let_def)
qed

lemma row_ok_suffix:
  assumes "row_ok w (pre @ rest)" and "pending_cost w' = total_cost rest" and "next_seq w' = next_seq w"
    and "u_threshold w' = u_threshold w" and "u_eligible w' \<Longrightarrow> rest \<noteq> []" and "claimed_by w' \<noteq> None \<Longrightarrow> rest \<noteq> []"
    and "claimed_by w' = None \<longleftrightarrow> u_token w' = None"
  shows "row_ok w' rest"
  using assms by (auto simp: row_ok_def sorted_wrt_append)

lemma acked_row_ok:
  assumes "row_ok w ts"
  shows "row_ok (acked_row now w (dropWhile P ts)) (dropWhile P ts)"
proof -
  have "row_ok w (takeWhile P ts @ dropWhile P ts)" using assms by simp
  then show ?thesis
  proof (rule row_ok_suffix)
    have ne: "dropWhile P ts \<noteq> []" if "keeps now w (total_cost (dropWhile P ts)) (min_enq (dropWhile P ts))"
      using that row_okD(5) [OF assms] by (rule keeps_nonempty)
    show "dropWhile P ts \<noteq> []" if "u_eligible (acked_row now w (dropWhile P ts))"
      using that ne by (simp only: acked_row_def Let_def) simp
    show "dropWhile P ts \<noteq> []" if "claimed_by (acked_row now w (dropWhile P ts)) \<noteq> None"
      using that ne by (simp only: acked_row_def Let_def) (simp split: if_splits)
  qed (use row_okD(8) [OF assms] in \<open>simp_all add: acked_row_def Let_def\<close>)
qed

lemma ack_tx_inv:
  assumes "pg_inv s"
  shows "pg_inv (snd (ack_tx e c th s))"
proof (cases rule: checkLease_cases [of c s])
  case lost
  then show ?thesis using assms by (simp add: ack_tx_def)
next
  case (ok w)
  then have r: "row s (Key c) = Some w" by (simp add: checkLease_Ok)
  note w = pg_invD(4) [OF assms r]
  show ?thesis
    unfolding ack_tx_held [OF assms ok] snd_conv
  proof (rule pg_inv_write [OF assms acked_row_ok [OF w]])
    show "unit_tasks (Key c) (s\<lparr>work_units := x, pg_tasks := filter (\<lambda>t. \<not> (t_key t = Key c \<and> t_seq t \<le> th)) (pg_tasks s)\<rparr>)
        = dropWhile (\<lambda>t. t_seq t \<le> th) (unit_tasks (Key c) s)" for x
      using filter_above [OF row_okD(1) [OF w], of th] by (simp add: unit_tasks_def conj_commute cong: conj_cong)
  qed (auto simp: unit_tasks_def intro: filter_cong)
qed

lemma release_stmt_inv:
  assumes "pg_inv s"
  shows "pg_inv (snd (release_stmt e c s))"
proof (cases rule: checkLease_cases [of c s])
  case (ok w)
  then have r: "row s (Key c) = Some w" by (simp add: checkLease_Ok)
  from ok pg_inv_lease [OF assms r row_ok_released [OF pg_invD(4) [OF assms r]]]
  show ?thesis by (simp add: release_stmt_def)
qed (simp add: release_stmt_def assms)

lemma heartbeat_stmt_inv:
  assumes "pg_inv s"
  shows "pg_inv (snd (heartbeat_stmt e c m s))"
proof (cases rule: checkLease_cases [of c s])
  case (ok w)
  then have r: "row s (Key c) = Some w" by (simp add: checkLease_Ok)
  have "row_ok (w\<lparr>lease_ms := Some m, lease_expires := Some (pg_now e + ms m)\<rparr>) (unit_tasks (Key c) s)"
    using pg_invD(4) [OF assms r] by (auto simp: row_ok_def)
  from ok pg_inv_lease [OF assms r this] assms show ?thesis by (simp add: heartbeat_stmt_def)
qed (simp add: heartbeat_stmt_def assms)


section \<open>Fail\<close>

definition bump :: "WorkUnitKey \<Rightarrow> int \<Rightarrow> pg_task \<Rightarrow> pg_task" where
  "bump k seq t = (if t_key t = k \<and> t_seq t = seq then t\<lparr>t_attempts := t_attempts t + 1\<rparr> else t)"

lemma bump_simps [simp]: "t_key (bump k seq t) = t_key t" "t_seq (bump k seq t) = t_seq t" "t_cost (bump k seq t) = t_cost t"
  "t_payload (bump k seq t) = t_payload t" "enqueued_at (bump k seq t) = enqueued_at t"
  "to_task (bump k seq t) = to_task t"
  by (simp_all add: bump_def to_task_def)

lemma bump_above:
  assumes "\<forall>x \<in> set ts. seq < t_seq x"
  shows "map (bump k seq) ts = ts" and "filter (\<lambda>x. t_seq x \<noteq> seq) ts = ts"
proof -
  show "map (bump k seq) ts = ts" using assms by (intro map_idI) (auto simp: bump_def)
  show "filter (\<lambda>x. t_seq x \<noteq> seq) ts = ts" using assms by (auto simp: filter_id_conv)
qed

lemma unit_tasks_bump [simp]:
  "unit_tasks k' (s\<lparr>pg_tasks := map (bump k seq) ts\<rparr>) = map (bump k seq) (unit_tasks k' (s\<lparr>pg_tasks := ts\<rparr>))"
  "unit_tasks k' (s\<lparr>work_units := x, pg_tasks := pg_tasks s\<rparr>) = unit_tasks k' s"
  by (simp_all add: unit_tasks_def filter_map o_def)

lemma bump_other: "k' \<noteq> k \<Longrightarrow> map (bump k seq) (unit_tasks k' s) = unit_tasks k' s"
  by (auto simp: unit_tasks_def bump_def intro: map_idI)

lemma row_ok_bump: "row_ok w (map (bump k seq) ts) = row_ok w ts"
  by (simp add: row_ok_def sorted_wrt_map o_def)

lemma find_unit: "find (\<lambda>t. t_key t = k \<and> P t) (pg_tasks s) = find P (unit_tasks k s)"
proof -
  have "find (\<lambda>t. t_key t = k \<and> P t) ts = find P (filter (\<lambda>t. t_key t = k) ts)" for ts
    by (induction ts) auto
  then show ?thesis by (simp add: unit_tasks_def)
qed

lemma head_least: "seqs_ascend (t # ts) \<Longrightarrow> min_list (map t_seq (t # ts)) = t_seq t"
proof -
  assume a: "seqs_ascend (t # ts)"
  have "min_list (map t_seq (t # ts)) = linorder_class.Min (set (map t_seq (t # ts)))" by (rule min_list_Min) simp
  also have "\<dots> = t_seq t" using a by (intro Min_eqI) (auto intro: less_imp_le)
  finally show ?thesis .
qed

text \<open>
  With a valid lease, either the unit is released with every task in place, or its head, at the cap, moves
  to the dead letters and what remains is re-gated and released.
\<close>

definition dead_letter :: "time \<Rightarrow> string \<Rightarrow> pg_task \<Rightarrow> pg_dead" where
  "dead_letter now reason t =
    \<lparr>d_key = t_key t, d_seq = t_seq t, d_payload = t_payload t, d_cost = t_cost t, d_attempts = t_attempts t + 1,
     d_enqueued_at = enqueued_at t, failed_at = now, d_reason = reason\<rparr>"

definition at_cap :: "pg \<Rightarrow> WorkUnitKey \<Rightarrow> int \<Rightarrow> bool" where
  "at_cap s k seq = (case unit_tasks k s of [] \<Rightarrow> False | t # _ \<Rightarrow> t_seq t = seq \<and> maxTries s \<le> t_attempts t + 1)"

lemma fail_tx_poison:
  assumes "pg_inv s" and "checkLease c s = Ok w" and "unit_tasks (Key c) s = t # rest"
    and "maxTries s \<le> t_attempts t + 1"
  shows "fail_tx e c (t_seq t) reason s = (Ok (),
    s\<lparr>work_units := AList.update (Key c) (released (acked_row (pg_now e) w rest)) (work_units s),
      pg_tasks := filter (\<lambda>x. \<not> (t_key x = Key c \<and> t_seq x = t_seq t)) (map (bump (Key c) (t_seq t)) (pg_tasks s)),
      dead_letters := dead_letters s @ [dead_letter (pg_now e) reason t]\<rparr>)"
proof -
  let ?k = "Key c" and ?b = "bump (Key c) (t_seq t)"
  from assms(2) have r: "row s ?k = Some w" by (simp add: checkLease_Ok)
  note ok = row_okD [OF pg_invD(4) [OF assms(1) r]]
  have k: "t_key t = ?k" using assms(3) by (auto simp: unit_tasks_def filter_eq_Cons_iff)
  have asc: "seqs_ascend (t # rest)" using ok(1) assms(3) by simp
  then have rest: "filter (\<lambda>x. t_seq x \<noteq> t_seq t) rest = rest" "map ?b rest = rest"
    by (simp_all add: bump_above)
  let ?s = "s\<lparr>pg_tasks := map ?b (pg_tasks s)\<rparr>"
  have ut: "map ?b (unit_tasks ?k s) = t\<lparr>t_attempts := t_attempts t + 1\<rparr> # rest"
    using rest(2) k by (simp add: assms(3)) (simp add: bump_def)
  have find: "find (\<lambda>x. t_key x = ?k \<and> t_seq x = t_seq t) (map ?b (pg_tasks s)) = Some (t\<lparr>t_attempts := t_attempts t + 1\<rparr>)"
    using find_unit [of ?k "\<lambda>x. t_seq x = t_seq t" ?s] ut by simp
  have hd: "min_list (map t_seq (t # rest)) = t_seq t" using asc by (rule head_least)
  have pc: "pending_cost w - t_cost t = total_cost rest" using ok(4) assms(3) by simp
  have bump: "(\<lambda>x. if t_key x = ?k \<and> t_seq x = t_seq t then x\<lparr>t_attempts := t_attempts x + 1\<rparr> else x) = ?b"
    by (simp add: fun_eq_iff bump_def)
  show ?thesis
    unfolding fail_tx_def Let_def bump
    using assms(2,4) find hd pc rest(1) k
    by (simp add: ut acked_row_def released_def dead_letter_def Let_def)
qed

lemma fail_tx_retry:
  assumes "pg_inv s" and "checkLease c s = Ok w"
    and "\<not> at_cap s (Key c) seq"
  shows "fail_tx e c seq reason s = (Ok (),
    s\<lparr>work_units := AList.update (Key c) (released w) (work_units s), pg_tasks := map (bump (Key c) seq) (pg_tasks s)\<rparr>)"
proof -
  let ?k = "Key c" and ?b = "bump (Key c) seq"
  let ?s = "s\<lparr>pg_tasks := map ?b (pg_tasks s)\<rparr>"
  from assms(2) have r: "row s ?k = Some w" by (simp add: checkLease_Ok)
  note ok = row_okD [OF pg_invD(4) [OF assms(1) r]]
  have bump: "(\<lambda>x. if t_key x = ?k \<and> t_seq x = seq then x\<lparr>t_attempts := t_attempts x + 1\<rparr> else x) = ?b"
    by (simp add: fun_eq_iff bump_def)
  have no: "\<not> (maxTries s \<le> t_attempts x \<and> seq = min_list (map t_seq (unit_tasks ?k ?s)))"
    if f: "find (\<lambda>x. t_key x = ?k \<and> t_seq x = seq) (map ?b (pg_tasks s)) = Some x" for x
  proof
    assume a: "maxTries s \<le> t_attempts x \<and> seq = min_list (map t_seq (unit_tasks ?k ?s))"
    have x: "find (\<lambda>x. t_seq x = seq) (map ?b (unit_tasks ?k s)) = Some x"
      using f find_unit [of ?k "\<lambda>x. t_seq x = seq" ?s] by simp
    then obtain t rest where ts: "unit_tasks ?k s = t # rest" by (cases "unit_tasks ?k s") auto
    then have k: "t_key t = ?k" by (auto simp: unit_tasks_def filter_eq_Cons_iff)
    have "t_seq t = seq" using a head_least [of t rest] ok(1) ts by (simp add: o_def)
    with x ts k have "t_attempts x = t_attempts t + 1" by (auto simp: bump_def)
    with a assms(3) ts \<open>t_seq t = seq\<close> show False by (simp add: at_cap_def)
  qed
  show ?thesis
    unfolding fail_tx_def Let_def bump using assms(2) no
    by (auto split: option.split)
qed

lemma fail_tx_inv:
  assumes "pg_inv s"
  shows "pg_inv (snd (fail_tx e c seq reason s))"
proof (cases rule: checkLease_cases [of c s])
  case lost
  then show ?thesis using assms by (simp add: fail_tx_def)
next
  case (ok w)
  then have r: "row s (Key c) = Some w" by (simp add: checkLease_Ok)
  note w = pg_invD(4) [OF assms r]
  show ?thesis
  proof (cases "at_cap s (Key c) seq")
    case True
    then obtain t rest where ts: "unit_tasks (Key c) s = t # rest" "t_seq t = seq" "maxTries s \<le> t_attempts t + 1"
      by (auto simp: at_cap_def split: list.splits)
    have asc: "\<forall>x \<in> set rest. seq < t_seq x" using row_okD(1) [OF w] ts by auto
    have d: "dropWhile (\<lambda>x. t_seq x \<le> seq) (t # rest) = rest" using asc ts(2) by (cases rest) auto
    have "row_ok (acked_row (pg_now e) w rest) rest"
      using acked_row_ok [OF w, of "pg_now e" "\<lambda>x. t_seq x \<le> seq"] ts(1) d by simp
    then have "row_ok (released (acked_row (pg_now e) w rest)) rest" by (rule row_ok_released)
    moreover have "filter (\<lambda>x. t_seq x \<noteq> seq) (map (bump (Key c) seq) (unit_tasks (Key c) s)) = rest"
      using bump_above [OF asc] ts by simp
    ultimately show ?thesis
      unfolding fail_tx_poison [OF assms ok ts(1,3), unfolded ts(2)] snd_conv
      by (intro pg_inv_write [OF assms, where w = "released (acked_row (pg_now e) w rest)" and k = "Key c" and ts = rest])
        (simp_all add: bump_other)
  next
    case False
    note eq = fail_tx_retry [OF assms ok False]
    from row_ok_released [OF w] show ?thesis
      unfolding eq snd_conv
      by (intro pg_inv_write [OF assms, where w = "released w" and k = "Key c"
            and ts = "map (bump (Key c) seq) (unit_tasks (Key c) s)"])
        (simp_all add: row_ok_bump bump_other)
  qed
qed

section \<open>ReapExpired\<close>

lemma row_reap:
  "row (snd (reap_stmts e now s)) k =
    map_option ((\<lambda>w. if fault_mid e = None \<and> flush_row now w then w\<lparr>u_eligible := True\<rparr> else w) \<circ>
      (\<lambda>w. if expired_row now w then released w else w)) (row s k)"
  by (auto simp: reap_stmts_def Let_def map_of_map option.map_comp o_def simp del: map_map split: option.split)

lemma reap_keys:
  "map fst (work_units (snd (reap_stmts e now s))) = map fst (work_units s)"
  "unit_tasks k (snd (reap_stmts e now s)) = unit_tasks k s" "conf_ok (snd (reap_stmts e now s)) = conf_ok s"
  by (auto simp: reap_stmts_def Let_def o_def case_prod_beta unit_tasks_def conf_ok_def split: option.split)

lemma reap_stmts_inv:
  assumes "pg_inv s"
  shows "pg_inv (snd (reap_stmts e now s))"
proof -
  have flush: "row_ok (w\<lparr>u_eligible := True\<rparr>) ts" if "row_ok w ts" "flush_row now w" for w ts
    using that by (auto simp: row_ok_def flush_row_def)
  have "unit_ok (row (snd (reap_stmts e now s)) k) (unit_tasks k s)" for k
    using pg_invD(3) [OF assms, of k] row_ok_released flush
    by (auto simp: row_reap unit_ok_def split: option.splits)
  with pg_invD(1,2) [OF assms] show ?thesis by (simp add: pg_inv_def reap_keys)
qed

end
