(* ===== verification/Postgres_System.thy ===== *)
theory Postgres_System
  imports Postgres_Inv
begin

text \<open>
  Histories of one Postgres primary: calls by any number of producers, workers and reapers, serialised by
  the row locks, with connection faults at any point. Every call, also one whose reply is lost, is one
  step of the abstract lease queue. The tokens issued so far are kept beside the tables, because the
  tables forget a token when its lease ends; a UUID drawn for a claim is assumed to be none of them.
\<close>

section \<open>Observations\<close>

definition row_holder :: "pg_unit \<Rightarrow> (WorkerID \<times> LeaseToken) option" where
  "row_holder w = (case claimed_by w of None \<Rightarrow> None | Some x \<Rightarrow> map_option (Pair x) (u_token w))"

definition pg_pending :: "pg \<Rightarrow> WorkUnitKey \<Rightarrow> Task list" where
  "pg_pending s k = map to_task (unit_tasks k s)"

definition pg_holder :: "pg \<Rightarrow> WorkUnitKey \<Rightarrow> (WorkerID \<times> LeaseToken) option" where
  "pg_holder s k = (case row s k of None \<Rightarrow> None | Some w \<Rightarrow> row_holder w)"

definition dead_task :: "pg_dead \<Rightarrow> WorkUnitKey \<times> Task" where
  "dead_task d = (d_key d, \<lparr>Seq = d_seq d, Payload = d_payload d, Cost = d_cost d\<rparr>)"

definition pg_abs :: "pg \<times> LeaseToken set \<Rightarrow> spec" where
  "pg_abs su = \<lparr>s_queue = pg_pending (fst su), s_holder = pg_holder (fst su), s_issued = snd su,
    s_dead = map dead_task (dead_letters (fst su))\<rparr>"

lemma pg_holder_checkLease: "pg_holder s (Key c) = Some (Worker c, Lease c) \<longleftrightarrow> (\<exists>w. checkLease c s = Ok w)"
  by (auto simp: pg_holder_def row_holder_def checkLease_Ok holds_row_def split: option.splits)

lemma pg_pending_cong: "(\<And>k. unit_tasks k s' = unit_tasks k s) \<Longrightarrow> pg_pending s' = pg_pending s"
  by (simp add: pg_pending_def fun_eq_iff)

lemma pg_holder_upd:
  "pg_holder (s\<lparr>work_units := AList.update k w (work_units s)\<rparr>) = (pg_holder s)(k := row_holder w)"
  "pg_holder (s\<lparr>work_units := AList.update k w (work_units s), pg_tasks := ts\<rparr>) = (pg_holder s)(k := row_holder w)"
  "pg_holder (s\<lparr>work_units := AList.update k w (work_units s), pg_tasks := ts, dead_letters := ds\<rparr>)
    = (pg_holder s)(k := row_holder w)"
  by (auto simp: pg_holder_def fun_eq_iff update_conv')

lemma row_holder_simps [simp]:
  "row_holder (released w) = None"
  "row_holder (w\<lparr>claimed_by := Some x, u_token := Some y, lease_ms := a, lease_expires := b\<rparr>) = Some (x, y)"
  "row_holder (w\<lparr>lease_ms := a, lease_expires := b\<rparr>) = row_holder w"
  by (simp_all add: row_holder_def released_def split: option.split)

lemma pg_abs_simps [simp]:
  "s_queue (pg_abs (s, U)) = pg_pending s" "s_holder (pg_abs (s, U)) = pg_holder s"
  "s_issued (pg_abs (s, U)) = U" "s_dead (pg_abs (s, U)) = map dead_task (dead_letters s)"
  by (simp_all add: pg_abs_def)

section \<open>Calls\<close>

datatype pg_call =
    PEnq pg_env WorkUnitKey string int
  | PCla pg_env WorkerID duration
  | PDra pg_env ClaimedUnit int
  | PAck pg_env ClaimedUnit int
  | PRel pg_env ClaimedUnit
  | PHbt pg_env ClaimedUnit duration
  | PFai pg_env ClaimedUnit int string
  | PRea pg_env time

fun pg_exec :: "pg_call \<Rightarrow> pg \<Rightarrow> pg" where
  "pg_exec (PEnq e k p cost) s = snd (pg_Enqueue e k p cost s)"
| "pg_exec (PCla e w d) s = snd (pg_Claim e w d s)"
| "pg_exec (PDra e c n) s = snd (pg_Drain e c n s)"
| "pg_exec (PAck e c th) s = snd (pg_Ack e c th s)"
| "pg_exec (PRel e c) s = snd (pg_Release e c s)"
| "pg_exec (PHbt e c d) s = snd (pg_Heartbeat e c d s)"
| "pg_exec (PFai e c seq reason) s = snd (pg_Fail e c seq reason s)"
| "pg_exec (PRea e now) s = snd (pg_ReapExpired e now s)"

fun call_env :: "pg_call \<Rightarrow> pg_env" where
  "call_env (PEnq e k p cost) = e"
| "call_env (PCla e w d) = e"
| "call_env (PDra e c n) = e"
| "call_env (PAck e c th) = e"
| "call_env (PRel e c) = e"
| "call_env (PHbt e c d) = e"
| "call_env (PFai e c seq reason) = e"
| "call_env (PRea e now) = e"

text \<open>What the statements of a call do when the connection lets them run.\<close>

fun stmt_event :: "pg \<Rightarrow> pg_call \<Rightarrow> event" where
  "stmt_event s (PEnq e k p cost) =
    (let ((t, wait), s) = tenant_get e (Workspace k) s
     in case fst (enqueue_stmt (pg_now e) t (go_div wait 1000000) k p cost s) of
         Ok seq \<Rightarrow> EvEnqueue k \<lparr>Seq = seq, Payload = p, Cost = cost\<rparr>
       | _ \<Rightarrow> EvNone)"
| "stmt_event s (PCla e w d) =
    (case fst (claim_stmt e w (go_div d 1000000) s) of Ok (Some c) \<Rightarrow> EvClaim (Key c) w (Lease c) | _ \<Rightarrow> EvNone)"
| "stmt_event s (PDra e c n) = EvNone"
| "stmt_event s (PAck e c th) =
    (case fst (ack_tx e c th s) of
      Ok h \<Rightarrow> EvAck (Key c) (Worker c) (Lease c) (takeWhile (\<lambda>t. Seq t \<le> th) (pg_pending s (Key c))) h
    | _ \<Rightarrow> EvNone)"
| "stmt_event s (PRel e c) =
    (case fst (release_stmt e c s) of Ok _ \<Rightarrow> EvRelease (Key c) (Worker c) (Lease c) | _ \<Rightarrow> EvNone)"
| "stmt_event s (PHbt e c d) = EvNone"
| "stmt_event s (PFai e c seq reason) =
    (case fst (fail_tx e c seq reason s) of
      Ok _ \<Rightarrow> EvFail (Key c) (Worker c) (Lease c)
        (if at_cap s (Key c) seq then Some (hd (pg_pending s (Key c))) else None)
    | _ \<Rightarrow> EvNone)"
| "stmt_event s (PRea e now) = EvExpire {k. case row s k of None \<Rightarrow> False | Some w \<Rightarrow> expired_row now w}"

definition pg_event :: "pg \<times> LeaseToken set \<Rightarrow> pg_call \<Rightarrow> event" where
  "pg_event su cl = (if fault (call_env cl) = None then stmt_event (fst su) cl else EvNone)"

text \<open>Costs are positive, and the UUID of a claim is fresh.\<close>

fun pg_possible :: "LeaseToken set \<Rightarrow> pg_call \<Rightarrow> bool" where
  "pg_possible U (PEnq e k p cost) = (1 \<le> cost)"
| "pg_possible U (PCla e w d) = (uuid e \<notin> U)"
| "pg_possible U _ = True"

definition pg_next :: "pg_call \<Rightarrow> pg \<times> LeaseToken set \<Rightarrow> pg \<times> LeaseToken set" where
  "pg_next cl su = (pg_exec cl (fst su), snd su \<union> issues (pg_event su cl))"

inductive pg_step :: "pg \<times> LeaseToken set \<Rightarrow> pg_call \<Rightarrow> pg \<times> LeaseToken set \<Rightarrow> bool" where
  call: "pg_possible (snd su) cl \<Longrightarrow> pg_step su cl (pg_next cl su)"

inductive_simps pg_step_iff: "pg_step su cl su'"

section \<open>The invariant over calls\<close>

lemma driver_snd: "snd (driver e f s) = (if fault e = None then snd (f s) else s)"
  by (auto simp: driver_def split: option.split prod.split)

lemma pg_Enqueue_inv:
  assumes "pg_inv s" and "1 \<le> cost"
  shows "pg_inv (snd (pg_Enqueue e k p cost s))"
proof -
  obtain t wait s' where g: "tenant_get e (Workspace k) s = ((t, wait), s')" by (metis prod.collapse)
  note inv = tenant_get_inv [OF assms(1) g]
  with enqueue_stmt_inv [of s' cost t] assms(2) show ?thesis by (simp add: pg_Enqueue_def g driver_snd)
qed

lemma drain_stmts_snd [simp]: "snd (drain_stmts e c n s) = s"
  by (simp add: drain_stmts_def split: result.split)

lemma pg_inv_exec: "pg_inv s \<Longrightarrow> pg_possible U cl \<Longrightarrow> pg_inv (pg_exec cl s)"
  by (cases cl)
    (simp_all add: pg_Enqueue_inv pg_Claim_def pg_Drain_def pg_Ack_def pg_Release_def pg_Heartbeat_def pg_Fail_def
      pg_ReapExpired_def driver_snd claim_stmt_inv ack_tx_inv release_stmt_inv heartbeat_stmt_inv fail_tx_inv reap_stmts_inv)


section \<open>Each call is a step of the lease queue\<close>

lemma enqueue_stmt_Ok:
  assumes "enqueue_stmt now t waitMs k p cost s = (Ok seq, s')"
  shows "seq = next_seq (upsert now t waitMs cost (row s k))"
    and "s' = s\<lparr>work_units := AList.update k (upsert now t waitMs cost (row s k)) (work_units s),
      pg_tasks := pg_tasks s @ [\<lparr>t_key = k, t_seq = seq, t_payload = p, t_cost = cost, t_attempts = 0, enqueued_at = now\<rparr>]\<rparr>"
  using assms by (auto simp: enqueue_stmt_def Let_def split: if_splits)

lemma upsert_holder: "row_holder (upsert now t waitMs cost (row s k)) = pg_holder s k"
  by (auto simp: pg_holder_def row_holder_def upsert_def split: option.split)

lemma upsert_seq_fresh:
  assumes "pg_inv s" and "x \<in> set (unit_tasks k s)"
  shows "t_seq x < next_seq (upsert now t waitMs cost (row s k))"
proof (cases "row s k")
  case None
  with pg_invD(3) [OF assms(1), of k] assms(2) show ?thesis by (simp add: unit_ok_def)
next
  case (Some w)
  with row_okD(3) [OF pg_invD(4) [OF assms(1) Some] assms(2)] show ?thesis by (simp add: upsert_def)
qed

lemma sim_enqueue_stmt:
  assumes "pg_inv s" and "enqueue_stmt now t waitMs k p cost s = (Ok seq, s')"
  shows "spec_step (pg_abs (s, U)) (EvEnqueue k \<lparr>Seq = seq, Payload = p, Cost = cost\<rparr>) (pg_abs (s', U))"
proof -
  note ok = enqueue_stmt_Ok [OF assms(2)]
  let ?t = "\<lparr>Seq = seq, Payload = p, Cost = cost\<rparr>"
  have q: "pg_pending s' = (pg_pending s)(k := pg_pending s k @ [?t])"
    unfolding ok(2) by (auto simp: pg_pending_def unit_tasks_def fun_eq_iff to_task_def)
  have h: "pg_holder s' = pg_holder s"
    unfolding ok(2) pg_holder_upd upsert_holder by simp
  have st: "pg_abs (s', U) = (pg_abs (s, U))\<lparr>s_queue := (s_queue (pg_abs (s, U)))(k := s_queue (pg_abs (s, U)) k @ [?t])\<rparr>"
    using q h ok(2) by (simp add: pg_abs_def)
  show ?thesis
    unfolding st
    by (rule spec_step.enqueue)
      (use upsert_seq_fresh [OF assms(1), of _ k now t waitMs cost] ok(1) in \<open>auto simp: pg_pending_def to_task_def\<close>)
qed

lemma enqueue_stmt_not_Ok:
  "\<nexists>x. fst (enqueue_stmt now t waitMs k p cost s) = Ok x \<Longrightarrow> snd (enqueue_stmt now t waitMs k p cost s) = s"
  by (auto simp: enqueue_stmt_def Let_def split: if_splits)

lemma pg_abs_tenants [simp]: "pg_abs (s\<lparr>tenants := c\<rparr>, U) = pg_abs (s, U)"
  by (simp add: pg_abs_def pg_pending_def [abs_def] pg_holder_def [abs_def])

lemma sim_PEnq:
  assumes "pg_inv s"
  shows "spec_step (pg_abs (s, U)) (pg_event (s, U) (PEnq e k p cost)) (pg_abs (pg_exec (PEnq e k p cost) s, U))"
proof -
  obtain t wait s1 where g: "tenant_get e (Workspace k) s = ((t, wait), s1)" by (metis prod.collapse)
  with tenant_get_inv [OF assms g] have inv: "pg_inv s1" and ab: "pg_abs (s1, U) = pg_abs (s, U)" by auto
  let ?r = "enqueue_stmt (pg_now e) t (go_div wait 1000000) k p cost s1"
  show ?thesis
  proof (cases "fault e = None \<and> (\<exists>seq. fst ?r = Ok seq)")
    case True
    then obtain seq s' where "?r = (Ok seq, s')" by (metis prod.collapse)
    with True sim_enqueue_stmt [OF inv this, of U, unfolded ab] show ?thesis by (simp add: pg_event_def g pg_Enqueue_def driver_snd)
  next
    case False
    then have "pg_event (s, U) (PEnq e k p cost) = EvNone" "pg_exec (PEnq e k p cost) s = s1"
      using enqueue_stmt_not_Ok [of "pg_now e" t "go_div wait 1000000" k p cost s1]
      by (auto simp: pg_event_def g pg_Enqueue_def driver_snd split: result.split)
    with ab show ?thesis by (simp add: spec_step.stutter)
  qed
qed

lemma sim_claim_stmt:
  assumes "pg_inv s" and "uuid e \<notin> U" and "claim_stmt e w m s = (r, s')"
  defines "ev \<equiv> (case r of Ok (Some c) \<Rightarrow> EvClaim (Key c) w (Lease c) | _ \<Rightarrow> EvNone)"
  shows "spec_step (pg_abs (s, U)) ev (pg_abs (s', U \<union> issues ev))"
proof (rule claim_stmt_cases [OF assms(1,3)])
  fix k u
  assume some: "row s k = Some u" "u_eligible u" "claimed_by u = None"
    "r = Ok (Some \<lparr>Key = k, Worker = w, Lease = uuid e, LeaseTill = pg_now e + ms m\<rparr>)"
    "s' = s\<lparr>work_units := AList.update k (u\<lparr>claimed_by := Some w, u_token := Some (uuid e), lease_ms := Some m,
      lease_expires := Some (pg_now e + ms m)\<rparr>) (work_units s)\<rparr>"
  have ev: "ev = EvClaim k w (uuid e)" by (simp add: ev_def some(4))
  have st: "pg_abs (s', U \<union> issues ev) = (pg_abs (s, U))\<lparr>s_holder := (s_holder (pg_abs (s, U)))(k \<mapsto> (w, uuid e)),
      s_issued := insert (uuid e) U\<rparr>"
    by (simp add: ev some(5) pg_abs_def pg_holder_upd pg_pending_def [abs_def]) (simp add: row_holder_def)
  show ?thesis
    unfolding st unfolding ev
  proof (rule spec_step.claim)
    show "s_queue (pg_abs (s, U)) k \<noteq> []"
      using row_okD(6) [OF pg_invD(4) [OF assms(1) some(1)] some(2)] by (simp add: pg_pending_def)
    show "s_holder (pg_abs (s, U)) k = None" using some(1,3) by (simp add: pg_holder_def row_holder_def)
  qed (use assms(2) in simp_all)
qed (simp_all add: ev_def spec_step.stutter)

lemma map_dropWhile_seq:
  "map to_task (dropWhile (\<lambda>t. t_seq t \<le> th) ts) = dropWhile (\<lambda>t. Seq t \<le> th) (map to_task ts)"
  "map to_task (takeWhile (\<lambda>t. t_seq t \<le> th) ts) = takeWhile (\<lambda>t. Seq t \<le> th) (map to_task ts)"
  by (simp_all add: dropWhile_map takeWhile_map o_def) (simp_all add: to_task_def)

text \<open>The state an acknowledgement leaves, seen from outside.\<close>

lemma ack_tx_view:
  assumes "pg_inv s" and "checkLease c s = Ok w"
  obtains h s' where "ack_tx e c th s = (Ok h, s')"
    and "pg_pending s' = (pg_pending s)(Key c := dropWhile (\<lambda>t. Seq t \<le> th) (pg_pending s (Key c)))"
    and "pg_holder s' = (pg_holder s)(Key c := if h then Some (Worker c, Lease c) else None)"
    and "dead_letters s' = dead_letters s" and "h \<Longrightarrow> pg_pending s' (Key c) \<noteq> []"
proof -
  from assms(2) have r: "row s (Key c) = Some w" "claimed_by w = Some (Worker c)" "u_token w = Some (Lease c)"
    by (simp_all add: checkLease_Ok holds_row_def)
  note ok = pg_invD(4) [OF assms(1) r(1)]
  let ?rest = "dropWhile (\<lambda>t. t_seq t \<le> th) (unit_tasks (Key c) s)"
  let ?h = "keeps (pg_now e) w (total_cost ?rest) (min_enq ?rest)"
  let ?s = "snd (ack_tx e c th s)"
  note eq = ack_tx_held [OF assms, of e th]
  have ut: "unit_tasks k ?s = (if k = Key c then ?rest else unit_tasks k s)" for k
    using filter_above [OF row_okD(1) [OF ok], of th] by (simp add: eq)
  show ?thesis
  proof (rule that [of ?h ?s])
    show q: "pg_pending ?s = (pg_pending s)(Key c := dropWhile (\<lambda>t. Seq t \<le> th) (pg_pending s (Key c)))"
      by (auto simp: fun_eq_iff pg_pending_def ut map_dropWhile_seq)
    show "pg_holder ?s = (pg_holder s)(Key c := if ?h then Some (Worker c, Lease c) else None)"
      unfolding eq snd_conv pg_holder_upd using r by (simp add: acked_row_def row_holder_def Let_def)
    show "pg_pending ?s (Key c) \<noteq> []" if ?h
      using keeps_nonempty [OF that row_okD(5) [OF ok]] by (simp add: pg_pending_def ut)
  qed (simp_all add: eq)
qed

lemma sim_ack_tx:
  assumes "pg_inv s"
  shows "spec_step (pg_abs (s, U)) (stmt_event s (PAck e c th)) (pg_abs (snd (ack_tx e c th s), U))"
proof (cases rule: checkLease_cases [of c s])
  case lost
  then show ?thesis by (simp add: ack_tx_def spec_step.stutter)
next
  case (ok w)
  from ack_tx_view [OF assms ok, of e th] obtain h s' where v: "ack_tx e c th s = (Ok h, s')"
    "pg_pending s' = (pg_pending s)(Key c := dropWhile (\<lambda>t. Seq t \<le> th) (pg_pending s (Key c)))"
    "pg_holder s' = (pg_holder s)(Key c := if h then Some (Worker c, Lease c) else None)"
    "dead_letters s' = dead_letters s" "h \<longrightarrow> pg_pending s' (Key c) \<noteq> []" by metis
  let ?\<sigma> = "pg_abs (s, U)"
  have st: "pg_abs (snd (ack_tx e c th s), U) =
      ?\<sigma>\<lparr>s_queue := (s_queue ?\<sigma>)(Key c := dropWhile (\<lambda>t. Seq t \<le> th) (pg_pending s (Key c))),
        s_holder := (s_holder ?\<sigma>)(Key c := if h then Some (Worker c, Lease c) else None)\<rparr>"
    by (simp add: v pg_abs_def)
  have ev: "stmt_event s (PAck e c th) = EvAck (Key c) (Worker c) (Lease c) (takeWhile (\<lambda>t. Seq t \<le> th) (pg_pending s (Key c))) h"
    by (simp add: v)
  show ?thesis
    unfolding st ev
    by (rule spec_step.ack) (use v(2,5) ok pg_holder_checkLease in \<open>auto simp del: dropWhile_eq_Nil_conv\<close>)
qed

lemma sim_release_stmt:
  "spec_step (pg_abs (s, U)) (stmt_event s (PRel e c)) (pg_abs (snd (release_stmt e c s), U))"
proof (cases rule: checkLease_cases [of c s])
  case lost
  then show ?thesis by (simp add: release_stmt_def spec_step.stutter)
next
  case (ok w)
  have st: "pg_abs (snd (release_stmt e c s), U) = (pg_abs (s, U))\<lparr>s_holder := (s_holder (pg_abs (s, U)))(Key c := None)\<rparr>"
    using ok by (simp add: release_stmt_def pg_abs_def pg_holder_upd pg_pending_def [abs_def])
  have ev: "stmt_event s (PRel e c) = EvRelease (Key c) (Worker c) (Lease c)" using ok by (simp add: release_stmt_def)
  show ?thesis
    unfolding st ev by (rule spec_step.release) (use ok pg_holder_checkLease in auto)
qed

lemma heartbeat_abs: "pg_abs (snd (heartbeat_stmt e c m s), U) = pg_abs (s, U)"
proof (cases rule: checkLease_cases [of c s])
  case (ok w)
  then have r: "row s (Key c) = Some w" by (simp add: checkLease_Ok)
  then have "pg_holder s (Key c) = row_holder w" by (simp add: pg_holder_def)
  with ok show ?thesis by (simp add: heartbeat_stmt_def pg_abs_def pg_holder_upd pg_pending_def [abs_def] fun_upd_idem)
qed (simp add: heartbeat_stmt_def)


text \<open>The state a failure report leaves, seen from outside.\<close>

lemma fail_tx_view:
  assumes "pg_inv s" and "checkLease c s = Ok w"
  shows "fst (fail_tx e c seq reason s) = Ok () \<and>
    pg_holder (snd (fail_tx e c seq reason s)) = (pg_holder s)(Key c := None) \<and>
    (if at_cap s (Key c) seq
     then pg_pending (snd (fail_tx e c seq reason s)) = (pg_pending s)(Key c := tl (pg_pending s (Key c))) \<and>
       (\<exists>d. dead_letters (snd (fail_tx e c seq reason s)) = dead_letters s @ [d] \<and> d_reason d = reason \<and>
         dead_task d = (Key c, hd (pg_pending s (Key c))))
     else pg_pending (snd (fail_tx e c seq reason s)) = pg_pending s \<and>
       dead_letters (snd (fail_tx e c seq reason s)) = dead_letters s)"
proof -
  from assms(2) have r: "row s (Key c) = Some w" by (simp add: checkLease_Ok)
  note ok = pg_invD(4) [OF assms(1) r]
  show ?thesis
  proof (cases "at_cap s (Key c) seq")
    case True
    then obtain t rest where ts: "unit_tasks (Key c) s = t # rest" "t_seq t = seq" "maxTries s \<le> t_attempts t + 1"
      by (auto simp: at_cap_def split: list.splits)
    note eq = fail_tx_poison [OF assms ts(1,3), unfolded ts(2)]
    have k: "t_key t = Key c" using ts(1) by (auto simp: unit_tasks_def filter_eq_Cons_iff)
    have "\<forall>x \<in> set rest. seq < t_seq x" using row_okD(1) [OF ok] ts by auto
    from bump_above [OF this] have ut:
      "unit_tasks k (snd (fail_tx e c seq reason s)) = (if k = Key c then rest else unit_tasks k s)" for k
      using ts by (simp add: eq bump_other)
    then have "pg_pending (snd (fail_tx e c seq reason s)) = (pg_pending s)(Key c := tl (pg_pending s (Key c)))"
      using ts(1) by (auto simp: fun_eq_iff pg_pending_def)
    moreover have "pg_holder (snd (fail_tx e c seq reason s)) = (pg_holder s)(Key c := None)"
      by (simp add: eq pg_holder_upd)
    ultimately show ?thesis
      using True ts k by (simp add: eq) (simp add: dead_letter_def dead_task_def pg_pending_def to_task_def)
  next
    case False
    note eq = fail_tx_retry [OF assms False]
    have "pg_pending (snd (fail_tx e c seq reason s)) = pg_pending s"
      by (simp add: eq pg_pending_def [abs_def] o_def)
    moreover have "pg_holder (snd (fail_tx e c seq reason s)) = (pg_holder s)(Key c := None)"
      by (simp add: eq pg_holder_upd)
    ultimately show ?thesis using False by (simp add: eq)
  qed
qed

lemma sim_fail_tx:
  assumes "pg_inv s"
  shows "spec_step (pg_abs (s, U)) (stmt_event s (PFai e c seq reason)) (pg_abs (snd (fail_tx e c seq reason s), U))"
proof (cases rule: checkLease_cases [of c s])
  case lost
  then show ?thesis by (simp add: fail_tx_def spec_step.stutter)
next
  case (ok w)
  let ?\<sigma> = "pg_abs (s, U)" and ?s = "snd (fail_tx e c seq reason s)"
  note v = fail_tx_view [OF assms ok, of e seq reason]
  have hold: "s_holder ?\<sigma> (Key c) = Some (Worker c, Lease c)" using ok pg_holder_checkLease by auto
  show ?thesis
  proof (cases "at_cap s (Key c) seq")
    case True
    then obtain t rest where ts: "unit_tasks (Key c) s = t # rest" by (auto simp: at_cap_def split: list.splits)
    then have q: "s_queue ?\<sigma> (Key c) = to_task t # map to_task rest" by (simp add: pg_pending_def)
    have st: "pg_abs (?s, U) = ?\<sigma>\<lparr>s_queue := (s_queue ?\<sigma>)(Key c := map to_task rest),
        s_holder := (s_holder ?\<sigma>)(Key c := None), s_dead := s_dead ?\<sigma> @ [(Key c, to_task t)]\<rparr>"
      using v True q by (auto simp: pg_abs_def)
    have ev: "stmt_event s (PFai e c seq reason) = EvFail (Key c) (Worker c) (Lease c) (Some (to_task t))"
      using v True q by simp
    show ?thesis unfolding st ev by (rule spec_step.poison [OF hold q])
  next
    case False
    have st: "pg_abs (?s, U) = ?\<sigma>\<lparr>s_holder := (s_holder ?\<sigma>)(Key c := None)\<rparr>"
      using v False by (auto simp: pg_abs_def)
    have ev: "stmt_event s (PFai e c seq reason) = EvFail (Key c) (Worker c) (Lease c) None"
      using v False by simp
    show ?thesis unfolding st ev by (rule spec_step.retry [OF hold])
  qed
qed

lemma reap_holder:
  "pg_holder (snd (reap_stmts e now s)) =
    (\<lambda>k. if k \<in> {k. case row s k of None \<Rightarrow> False | Some w \<Rightarrow> expired_row now w} then None else pg_holder s k)"
  by (auto simp: fun_eq_iff pg_holder_def row_reap row_holder_def released_def split: option.splits)

lemma reap_dead: "dead_letters (snd (reap_stmts e now s)) = dead_letters s"
  by (simp add: reap_stmts_def Let_def split: option.split)

lemma sim_reap_stmts:
  "spec_step (pg_abs (s, U)) (stmt_event s (PRea e now)) (pg_abs (snd (reap_stmts e now s), U))"
proof -
  let ?K = "{k. case row s k of None \<Rightarrow> False | Some w \<Rightarrow> expired_row now w}"
  have st: "pg_abs (snd (reap_stmts e now s), U) =
      (pg_abs (s, U))\<lparr>s_holder := (\<lambda>k. if k \<in> ?K then None else s_holder (pg_abs (s, U)) k)\<rparr>"
    by (simp add: pg_abs_def reap_holder reap_dead pg_pending_def [abs_def] reap_keys cong: if_cong)
  show ?thesis unfolding st stmt_event.simps by (rule spec_step.expire)
qed

text \<open>A call that does not reach the primary changes nothing there.\<close>

lemma pg_event_other: "(\<And>e k w tok. cl \<noteq> PCla e k w) \<Longrightarrow> issues (pg_event su cl) = {}"
  by (cases cl) (auto simp: pg_event_def Let_def case_prod_beta split: result.split)

lemma sim_PCla:
  assumes "pg_inv s" and "uuid e \<notin> U"
  shows "spec_step (pg_abs (s, U)) (pg_event (s, U) (PCla e w d))
    (pg_abs (pg_exec (PCla e w d) s, U \<union> issues (pg_event (s, U) (PCla e w d))))"
  using sim_claim_stmt [OF assms surjective_pairing]
  by (simp add: pg_event_def pg_Claim_def driver_snd spec_step.stutter)

lemma pg_sim_call:
  assumes "pg_inv s" and "pg_possible U cl"
  shows "spec_step (pg_abs (s, U)) (pg_event (s, U) cl) (pg_abs (pg_next cl (s, U)))"
proof (cases "\<exists>e w d. cl = PCla e w d")
  case True
  then show ?thesis using assms sim_PCla by (auto simp: pg_next_def)
next
  case False
  then have "pg_next cl (s, U) = (pg_exec cl s, U)" using pg_event_other by (auto simp: pg_next_def)
  moreover have "spec_step (pg_abs (s, U)) (pg_event (s, U) cl) (pg_abs (pg_exec cl s, U))"
  proof (cases cl)
    case (PEnq e k p cost)
    then show ?thesis using sim_PEnq [OF assms(1)] by simp
  next
    case (PAck e c th)
    then show ?thesis using sim_ack_tx [OF assms(1)] by (simp add: pg_event_def pg_Ack_def driver_snd spec_step.stutter)
  next
    case (PRel e c)
    then show ?thesis using sim_release_stmt by (simp add: pg_event_def pg_Release_def driver_snd spec_step.stutter)
  next
    case (PHbt e c d)
    then show ?thesis by (simp add: pg_event_def pg_Heartbeat_def driver_snd heartbeat_abs spec_step.stutter)
  next
    case (PFai e c seq reason)
    then show ?thesis using sim_fail_tx [OF assms(1)] by (simp add: pg_event_def pg_Fail_def driver_snd spec_step.stutter)
  next
    case (PRea e now)
    then show ?thesis using sim_reap_stmts by (simp add: pg_event_def pg_ReapExpired_def driver_snd spec_step.stutter)
  qed (use False in \<open>auto simp: pg_event_def pg_Drain_def driver_snd spec_step.stutter\<close>)
  ultimately show ?thesis by simp
qed

section \<open>The simulation\<close>

definition pg_ok :: "pg \<times> LeaseToken set \<Rightarrow> bool" where
  "pg_ok su \<longleftrightarrow> pg_inv (fst su) \<and> leases_sound (pg_abs su)"

lemma pg_step_ok:
  assumes "pg_ok su" and "pg_step su cl su'"
  shows "pg_ok su'" and "spec_step (pg_abs su) (pg_event su cl) (pg_abs su')"
proof -
  from assms have inv: "pg_inv (fst su)" and p: "pg_possible (snd su) cl" and su': "su' = pg_next cl su"
    by (simp_all add: pg_ok_def pg_step_iff)
  from pg_sim_call [OF inv p] su' show st: "spec_step (pg_abs su) (pg_event su cl) (pg_abs su')" by simp
  have "pg_inv (fst su')" using pg_inv_exec [OF inv p] su' by (simp add: pg_next_def)
  with spec_step_leases [OF st] assms(1) show "pg_ok su'" by (simp add: pg_ok_def)
qed

interpretation pg: lease_simulation pg_step pg_event pg_abs "\<lambda>_. pg_ok" limit for limit
  by unfold_locales (auto simp: pg_step_ok, simp add: pg_ok_def)

abbreviation pg_run :: "pg \<times> LeaseToken set \<Rightarrow> pg_call list \<Rightarrow> event list \<Rightarrow> pg \<times> LeaseToken set \<Rightarrow> bool" where
  "pg_run \<equiv> impl_run pg_step pg_event"


section \<open>Runs computed from their calls\<close>

fun pg_nexts :: "pg_call list \<Rightarrow> pg \<times> LeaseToken set \<Rightarrow> pg \<times> LeaseToken set" where
  "pg_nexts [] su = su"
| "pg_nexts (pc # pcs) su = pg_nexts pcs (pg_next pc su)"

fun pg_events :: "pg \<times> LeaseToken set \<Rightarrow> pg_call list \<Rightarrow> event list" where
  "pg_events su [] = []"
| "pg_events su (pc # pcs) = pg_event su pc # pg_events (pg_next pc su) pcs"

fun pg_feasible :: "pg \<times> LeaseToken set \<Rightarrow> pg_call list \<Rightarrow> bool" where
  "pg_feasible su [] = True"
| "pg_feasible su (pc # pcs) = (pg_possible (snd su) pc \<and> pg_feasible (pg_next pc su) pcs)"

lemma pg_run_nexts: "pg_feasible su pcs \<Longrightarrow> pg_run su pcs (pg_events su pcs) (pg_nexts pcs su)"
proof (induction pcs arbitrary: su)
  case (Cons pc pcs)
  then show ?case using impl_run_Cons [OF Cons.IH pg_step.call, of pc su] by simp
qed (simp add: impl_run.nil)

text \<open>A primary on which nothing has been enqueued yet.\<close>

definition pg_fresh :: "pg \<Rightarrow> bool" where
  "pg_fresh s \<longleftrightarrow> work_units s = [] \<and> pg_tasks s = [] \<and> dead_letters s = [] \<and> conf_ok s"

lemma pg_fresh_ok:
  assumes "pg_fresh s"
  shows "pg_ok (s, {})" and "pg_pending s k = []" and "pg_holder s k = None"
  using assms by (auto simp: pg_fresh_def pg_ok_def pg_inv_def unit_ok_def unit_tasks_def leases_sound_def pg_holder_def pg_pending_def)

end
