(* ===== verification/Postgres_Contract.thy ===== *)
theory Postgres_Contract
  imports Postgres_System
begin

text \<open>
  A Postgres primary keeps the contract of the \<open>Backend\<close> interface, with connection faults at any point
  of any call; so does the sharded driver over any number of such primaries. What is shown of the worker
  loop over the contract therefore holds of workers on the sharded driver, against any interleaving of
  statements by other clients on any of the primaries.
\<close>

section \<open>One primary\<close>

definition pg_holds :: "pg \<Rightarrow> ClaimedUnit \<Rightarrow> bool" where
  "pg_holds s c \<longleftrightarrow> Worker c \<noteq> '''' \<and> pg_holder s (Key c) = Some (Worker c, Lease c)"

definition pg_env_ok :: "pg \<Rightarrow> pg_env \<Rightarrow> bool" where
  "pg_env_ok s e \<longleftrightarrow> True"

lemma pg_Backend_simps [simp]:
  "be_Enqueue pg_Backend = pg_Enqueue" "be_Claim pg_Backend = pg_Claim" "be_Drain pg_Backend = pg_Drain"
  "be_Ack pg_Backend = pg_Ack" "be_Release pg_Backend = pg_Release" "be_Heartbeat pg_Backend = pg_Heartbeat"
  "be_Fail pg_Backend = pg_Fail" "be_ReapExpired pg_Backend = pg_ReapExpired"
  by (simp_all add: pg_Backend_def)

lemma pg_holds_checkLease: "Worker c \<noteq> '''' \<Longrightarrow> pg_holds s c \<longleftrightarrow> (\<exists>w. checkLease c s = Ok w)"
  by (simp add: pg_holds_def pg_holder_checkLease)

lemma pg_holds_cong: "pg_holder s' = pg_holder s \<Longrightarrow> pg_holds s' = pg_holds s"
  by (simp add: pg_holds_def fun_eq_iff)

lemma pg_pending_sorted: "pg_inv s \<Longrightarrow> seq_sorted (pg_pending s k)"
  using pg_invD(3) [of s k]
  by (cases "row s k") (auto simp: unit_ok_def row_ok_def pg_pending_def sorted_wrt_map to_task_def)

text \<open>A claim, whether or not its reply arrives, leaves every queue as it is.\<close>

lemma claim_stmt_view:
  assumes "pg_inv s" and "claim_stmt e w m s = (r, s')"
  shows "pg_inv s' \<and> pg_pending s' = pg_pending s \<and>
    (case r of Ok (Some c) \<Rightarrow> Worker c = w \<and> Lease c = uuid e \<and> pg_holder s (Key c) = None \<and> pg_pending s (Key c) \<noteq> [] \<and>
        pg_holder s' = (pg_holder s)(Key c \<mapsto> (w, uuid e))
      | _ \<Rightarrow> s' = s)"
proof -
  have inv: "pg_inv s'" using claim_stmt_inv [OF assms(1), of e w m] assms(2) by simp
  show ?thesis
  proof (rule claim_stmt_cases [OF assms])
    fix k u
    assume some: "row s k = Some u" "u_eligible u" "claimed_by u = None"
      "r = Ok (Some \<lparr>Key = k, Worker = w, Lease = uuid e, LeaseTill = pg_now e + ms m\<rparr>)"
      "s' = s\<lparr>work_units := AList.update k (u\<lparr>claimed_by := Some w, u_token := Some (uuid e), lease_ms := Some m,
        lease_expires := Some (pg_now e + ms m)\<rparr>) (work_units s)\<rparr>"
    have "pg_pending s k \<noteq> []"
      using row_okD(6) [OF pg_invD(4) [OF assms(1) some(1)] some(2)] by (simp add: pg_pending_def)
    moreover have "pg_holder s k = None" using some(1,3) by (simp add: pg_holder_def row_holder_def)
    moreover have "pg_holder s' = (pg_holder s)(k \<mapsto> (w, uuid e))"
      unfolding some(5) pg_holder_upd by (simp add: row_holder_def)
    moreover have "pg_pending s' = pg_pending s" by (simp add: some(5) pg_pending_def [abs_def])
    ultimately show ?thesis using inv by (simp add: some(4))
  qed (use inv in simp_all)
qed

lemma pg_Claim_some:
  assumes "pg_inv s" and "w \<noteq> ''''" and "pg_Claim e w d s = (Ok (Some c), s')"
  shows "pg_inv s' \<and> pg_holds s' c \<and> Worker c = w \<and> pg_pending s' = pg_pending s \<and> pg_pending s (Key c) \<noteq> [] \<and>
    (\<forall>c'. Key c' = Key c \<longrightarrow> \<not> pg_holds s c') \<and> (\<forall>c'. Key c' \<noteq> Key c \<longrightarrow> pg_holds s' c' = pg_holds s c')"
  using claim_stmt_view [OF assms(1) driver_Ok [OF assms(3) [unfolded pg_Claim_def]]] assms(2)
  by (auto simp: pg_holds_def)

lemma pg_Claim_other:
  assumes "pg_inv s" and "pg_Claim e w d s = (r, s')"
  shows "pg_inv s' \<and> pg_pending s' = pg_pending s" and "r = Ok None \<Longrightarrow> s' = s"
proof -
  have d: "driver e (claim_stmt e w (go_div d 1000000)) s = (r, s')" using assms(2) by (simp add: pg_Claim_def)
  show "pg_inv s' \<and> pg_pending s' = pg_pending s"
    using d by (cases rule: driverE) (use assms(1) claim_stmt_view [OF assms(1)] in auto)
  show "s' = s" if "r = Ok None"
    using claim_stmt_view [OF assms(1) driver_Ok [OF d [unfolded that]]] by simp
qed

lemma select_take:
  assumes "pg_inv s" and "select_tasks c n s = Ok ts"
  shows "ts = take (nat n) (pg_pending s (Key c))"
proof -
  have "sorted (map t_seq (unit_tasks (Key c) s))"
    using pg_invD(3) [OF assms(1), of "Key c"]
    by (cases "row s (Key c)") (auto simp: unit_ok_def row_ok_def sorted_map elim: sorted_wrt_mono_rel [rotated])
  then have "sort_key t_seq (unit_tasks (Key c) s) = unit_tasks (Key c) s" by (rule sort_key_id_if_sorted)
  with assms(2) show ?thesis by (auto simp: select_tasks_def pg_pending_def take_map split: if_splits)
qed

lemma pg_Drain_view:
  assumes "pg_inv s" and "Worker c \<noteq> ''''" and "pg_Drain e c n s = (r, s')"
  shows "s' = s" and "r = Ok ts \<Longrightarrow> pg_holds s c \<and> ts = take (nat n) (pg_pending s (Key c))"
proof -
  have d: "driver e (drain_stmts e c n) s = (r, s')" using assms(3) by (simp add: pg_Drain_def)
  show "s' = s" using arg_cong [OF d, of snd] by (auto simp: driver_snd split: if_splits)
  show "pg_holds s c \<and> ts = take (nat n) (pg_pending s (Key c))" if "r = Ok ts"
  proof -
    from driver_Ok [OF d [unfolded that]] obtain w where "checkLease c s = Ok w" "select_tasks c n s = Ok ts"
      by (auto simp: drain_stmts_def split: result.splits)
    then show ?thesis using select_take [OF assms(1)] pg_holds_checkLease [OF assms(2)] by blast
  qed
qed

lemma pg_Ack_view:
  assumes "pg_inv s" and "ack_tx e c th s = (r, s')"
  shows "pg_inv s' \<and> (s' = s \<and> r = Err ErrLeaseLost \<or> (\<exists>h. r = Ok h \<and> pg_holder s (Key c) = Some (Worker c, Lease c) \<and>
    pg_pending s' = (pg_pending s)(Key c := dropWhile (\<lambda>t. Seq t \<le> th) (pg_pending s (Key c))) \<and>
    pg_holder s' = (pg_holder s)(Key c := if h then Some (Worker c, Lease c) else None)))"
proof -
  have inv: "pg_inv s'" using ack_tx_inv [OF assms(1), of e c th] assms(2) by simp
  show ?thesis
  proof (cases rule: checkLease_cases [of c s])
    case lost
    with assms inv show ?thesis by (simp add: ack_tx_def)
  next
    case (ok w)
    from ack_tx_view [OF assms(1) ok, of e th] assms(2) inv ok pg_holder_checkLease [of s c] show ?thesis
      by (metis Pair_inject)
  qed
qed

lemma pg_Release_view:
  assumes "pg_inv s" and "release_stmt e c s = (r, s')"
  shows "pg_inv s' \<and> pg_pending s' = pg_pending s \<and>
    (r = Ok () \<longrightarrow> pg_holder s (Key c) = Some (Worker c, Lease c) \<and> pg_holder s' (Key c) = None)"
proof -
  have inv: "pg_inv s'" using release_stmt_inv [OF assms(1), of e c] assms(2) by simp
  show ?thesis
  proof (cases rule: checkLease_cases [of c s])
    case lost
    with assms inv show ?thesis by (auto simp: release_stmt_def)
  next
    case (ok w)
    with assms(2) have s': "s' = s\<lparr>work_units := AList.update (Key c) (released w) (work_units s)\<rparr>"
      by (simp add: release_stmt_def)
    then have "pg_pending s' = pg_pending s" "pg_holder s' (Key c) = None"
      unfolding s' pg_holder_upd by (simp_all add: pg_pending_def [abs_def])
    with inv ok pg_holder_checkLease [of s c] show ?thesis by auto
  qed
qed

lemma pg_Heartbeat_view:
  assumes "pg_inv s" and "pg_Heartbeat e c d s = (r, s')"
  shows "pg_inv s' \<and> pg_pending s' = pg_pending s \<and> pg_holder s' = pg_holder s"
proof -
  have s': "s' = (if fault e = None then snd (heartbeat_stmt e c (go_div d 1000000) s) else s)"
    using arg_cong [OF assms(2), of snd] by (simp add: pg_Heartbeat_def driver_snd)
  have "pg_abs (s', {}) = pg_abs (s, {})" by (simp add: s' heartbeat_abs)
  from arg_cong [OF this, of s_queue] arg_cong [OF this, of s_holder]
  show ?thesis using heartbeat_stmt_inv [OF assms(1)] assms(1) by (simp add: s')
qed

interpretation pgq: backend_contract pg_Backend pg_inv pg_env_ok any_env named pg_pending pg_holds any_ack any_env
proof (unfold_locales, unfold pg_Backend_simps)
  show "seq_sorted (pg_pending s k)" if "pg_inv s" for s k using that by (rule pg_pending_sorted)
  show "Worker c = Worker c' \<and> Lease c = Lease c'" if "pg_holds s c" "pg_holds s c'" "Key c = Key c'" for s c c'
    using that by (auto simp: pg_holds_def)
  show "Worker c \<noteq> ''''" if "pg_holds s c" for s c using that by (simp add: pg_holds_def)
  show "pg_inv s' \<and> pg_pending s' = pg_pending s \<and> pg_holds s' = pg_holds s \<and> (True \<longrightarrow> True)"
    if "pg_inv s" "pg_Claim e w d s = (Ok None, s')" for s e w d s'
    using pg_Claim_other(2) [OF that] that(1) by simp
  show "pg_inv s' \<and> pg_pending s' = pg_pending s" if "pg_inv s" "pg_Claim e w d s = (rc, s')" for s e w d rc s'
    using that by (rule pg_Claim_other(1))
  show "pg_inv s' \<and> pg_holds s' c \<and> Worker c = w \<and> pg_pending s' = pg_pending s \<and> pg_pending s (Key c) \<noteq> [] \<and>
      (True \<longrightarrow> (\<forall>c'. Key c' = Key c \<longrightarrow> \<not> pg_holds s c')) \<and> (\<forall>c'. Key c' \<noteq> Key c \<longrightarrow> pg_holds s' c' = pg_holds s c')"
    if "pg_inv s" "w \<noteq> ''''" "pg_Claim e w d s = (Ok (Some c), s')" for s e w d c s'
    using pg_Claim_some [OF that] by simp
  show "pg_inv s' \<and> pg_pending s' = pg_pending s \<and> pg_holds s' = pg_holds s \<and> (\<forall>c th. True \<longrightarrow> True) \<and>
      (\<forall>ts. r = Ok ts \<longrightarrow> pg_holds s c \<and> ts = take (length ts) (pg_pending s (Key c)) \<and> int (length ts) \<le> max n 0 \<and>
        (ts \<noteq> [] \<longrightarrow> True))"
    if "pg_inv s" "Worker c \<noteq> ''''" "pg_Drain e c n s = (r, s')" for s c e n r s'
  proof (intro conjI allI impI)
    from pg_Drain_view(1) [OF that] that(1)
    show "pg_inv s'" "pg_pending s' = pg_pending s" "pg_holds s' = pg_holds s" by simp_all
    show "pg_holds s c" "ts = take (length ts) (pg_pending s (Key c))" "int (length ts) \<le> max n 0" if "r = Ok ts" for ts
      using pg_Drain_view(2) [OF \<open>pg_inv s\<close> \<open>Worker c \<noteq> ''''\<close> \<open>pg_Drain e c n s = (r, s')\<close> that] by (auto simp: min_def)
  qed simp_all
  show "pg_holds s c"
    if "pg_inv s" "Worker c \<noteq> ''''" "pg_Ack e c th s = (Ok h, s')" for s c e th h s'
    using pg_Ack_view [OF that(1) driver_Ok [OF that(3) [unfolded pg_Ack_def]]] that(2) by (auto simp: pg_holds_def)
  show "pg_pending s' (Key c) = dropWhile (\<lambda>t. Seq t \<le> th) (pg_pending s (Key c)) \<and> (h \<longleftrightarrow> pg_holds s' c)"
    if "pg_inv s" "Worker c \<noteq> ''''" "pg_Ack e c th s = (Ok h, s')" for s c e th h s'
    using pg_Ack_view [OF that(1) driver_Ok [OF that(3) [unfolded pg_Ack_def]]] that(2) by (auto simp: pg_holds_def)
  show "pg_inv s' \<and> (\<exists>i. pg_pending s' (Key c) = drop i (pg_pending s (Key c))) \<and>
      (\<forall>k. k \<noteq> Key c \<longrightarrow> pg_pending s' k = pg_pending s k)"
    if "pg_inv s" "pg_Ack e c th s = (rb, s')" for s c e th rb s'
    using that(2) [unfolded pg_Ack_def]
  proof (cases rule: driverE)
    case (ran r0)
    from pg_Ack_view [OF that(1) ran(1)] show ?thesis by (auto intro: exI [of _ 0] dropWhile_drop_ex)
  qed (use that(1) in \<open>auto intro: exI [of _ 0]\<close>)
  show "pg_inv s' \<and> pg_pending s' = pg_pending s \<and> (ru = Ok () \<longrightarrow> pg_holds s c \<and> \<not> pg_holds s' c)"
    if "pg_inv s" "Worker c \<noteq> ''''" "pg_Release e c s = (ru, s')" for s c e ru s'
    using that(3) [unfolded pg_Release_def]
  proof (cases rule: driverE)
    case (ran r0)
    from pg_Release_view [OF that(1) ran(1)] ran(2) that(2) show ?thesis by (auto simp: pg_holds_def)
  qed (use that(1) in simp)
  show "pg_inv s' \<and> pg_pending s' = pg_pending s \<and> pg_holds s' = pg_holds s \<and> (\<forall>c th. True \<longrightarrow> True)"
    if "pg_inv s" "pg_Heartbeat e c d s = (ru, s')" for s e c d ru s'
    using pg_Heartbeat_view [OF that] pg_holds_cong by blast
qed

section \<open>Many primaries\<close>

abbreviation pgc_inv :: "pg cluster \<Rightarrow> bool" where
  "pgc_inv \<equiv> cl_invar pg_inv pg_pending"

abbreviation pgc_pending :: "pg cluster \<Rightarrow> WorkUnitKey \<Rightarrow> Task list" where
  "pgc_pending \<equiv> cl_pending pg_pending"

abbreviation pgc_holds :: "pg cluster \<Rightarrow> ClaimedUnit \<Rightarrow> bool" where
  "pgc_holds \<equiv> cl_holds pg_holds"

interpretation pgc: backend_contract "sharded pg_Backend" pgc_inv "cl_env_ok pg_env_ok" "cl_drain_ok any_env" named
  pgc_pending pgc_holds "cl_ackable any_ack" "cl_exclusive any_env"
  by (rule pgq.sharded_contract)


section \<open>Other clients of the cluster\<close>

text \<open>
  Calls of producers, reapers and workers other than \<open>w\<close>, each on the primary it is routed to; a sweep of
  the reaper is one call per primary. A list entry that cannot be such a call is skipped.
\<close>

fun pg_by_worker :: "WorkerID \<Rightarrow> pg_call \<Rightarrow> bool" where
  "pg_by_worker w (PEnq e k p cost) = False"
| "pg_by_worker w (PRea e now) = False"
| "pg_by_worker w (PHbt e c d) = False"
| "pg_by_worker w (PCla e w' d) = (w' = w)"
| "pg_by_worker w (PDra e c n) = (Worker c = w)"
| "pg_by_worker w (PAck e c th) = (Worker c = w)"
| "pg_by_worker w (PRel e c) = (Worker c = w)"
| "pg_by_worker w (PFai e c seq reason) = (Worker c = w)"

fun routes_to :: "pg cluster \<Rightarrow> nat \<Rightarrow> pg_call \<Rightarrow> bool" where
  "routes_to cl i (PEnq e k p cost) = (owner cl k = i \<and> 1 \<le> cost)"
| "routes_to cl i _ = True"

definition pgc_others :: "WorkerID \<Rightarrow> (nat \<times> pg_call) list \<Rightarrow> pg cluster \<Rightarrow> pg cluster" where
  "pgc_others w = cl_others pg_exec (\<lambda>cl i pc. \<not> pg_by_worker w pc \<and> routes_to cl i pc)"

lemma pgc_others_Nil [simp]: "pgc_others w [] cl = cl"
  by (simp add: pgc_others_def)

lemma pg_by_worker_event: "\<not> pg_by_worker w pc \<Longrightarrow> \<not> by_holder k w tok (pg_event su pc)"
  by (cases pc) (auto simp: pg_event_def Let_def split: result.splits option.splits prod.splits)

lemma pg_by_worker_claim: "grants k w tok (pg_event su pc) \<Longrightarrow> pg_by_worker w pc"
  by (cases pc) (auto simp: pg_event_def Let_def split: result.splits option.splits prod.splits if_splits)

lemma pg_other_call:
  assumes "pg_inv s" and "pg_possible {} pc" and "\<not> pg_by_worker (Worker c) pc"
  shows "evolves UNIV pg_inv pg_pending pg_holds any_ack c s (pg_exec pc s)"
proof -
  obtain U where n: "pg_next pc (s, {}) = (pg_exec pc s, U)" by (simp add: pg_next_def)
  have step: "spec_step (pg_abs (s, {})) (pg_event (s, {}) pc) (pg_abs (pg_exec pc s, U))"
    using pg_sim_call [OF assms(1,2)] n by simp
  have "pg_holder s (Key c) = Some (Worker c, Lease c) \<and>
      pg_pending (pg_exec pc s) (Key c) = pg_pending s (Key c) @ entered (Key c) (pg_event (s, {}) pc)"
    if h: "pg_holder (pg_exec pc s) (Key c) = Some (Worker c, Lease c)"
  proof -
    from spec_step_gains [OF step, of "Key c" "Worker c" "Lease c"] h pg_by_worker_claim assms(3)
    have "pg_holder s (Key c) = Some (Worker c, Lease c)" by auto
    with spec_step_others [OF step] h pg_by_worker_event [OF assms(3)] show ?thesis by auto
  qed
  with pg_inv_exec [OF assms(1,2)] show ?thesis by (auto simp: evolves_def pg_holds_def)
qed

text \<open>Only an enqueue makes tasks appear, and only of its own unit.\<close>

lemma pg_exec_pending:
  assumes "pg_inv s" and "pg_possible {} pc" and "pg_pending (pg_exec pc s) k \<noteq> []"
  shows "pg_pending s k \<noteq> [] \<or> (\<exists>e p cost. pc = PEnq e k p cost)"
proof -
  obtain U where n: "pg_next pc (s, {}) = (pg_exec pc s, U)" by (simp add: pg_next_def)
  have "spec_step (pg_abs (s, {})) (pg_event (s, {}) pc) (pg_abs (pg_exec pc s, U))"
    using pg_sim_call [OF assms(1,2)] n by simp
  from spec_step_fifo [OF this, of k] assms(3)
  have "pg_pending s k \<noteq> [] \<or> entered k (pg_event (s, {}) pc) \<noteq> []" by (cases "pg_pending s k") auto
  moreover have "entered k (pg_event (s, {}) pc) = []" if "\<nexists>e p cost. pc = PEnq e k p cost"
    using that by (cases pc) (auto simp: pg_event_def Let_def split: result.splits option.splits prod.splits)
  ultimately show ?thesis by blast
qed

lemma routes_possible: "routes_to cl i pc \<Longrightarrow> pg_possible {} pc"
  by (cases pc) auto

lemma pgc_others_evolves:
  assumes "pgc_inv cl"
  shows "evolves UNIV pgc_inv pgc_pending pgc_holds (cl_ackable any_ack) c cl (pgc_others (Worker c) pcs cl)"
  unfolding pgc_others_def
proof (rule cl_others_evolves [OF _ assms], intro conjI allI impI)
  fix cl :: "pg cluster" and i pc k
  assume cl: "pgc_inv cl" and i: "i < length (shards cl)" and ok: "\<not> pg_by_worker (Worker c) pc \<and> routes_to cl i pc"
  have inv: "pg_inv (shards cl ! i)" and p: "pg_possible {} pc"
    using cl i routes_possible ok by (auto simp: cl_invar_def)
  show "evolves UNIV pg_inv pg_pending pg_holds any_ack c (shards cl ! i) (pg_exec pc (shards cl ! i))"
    using pg_other_call [OF inv p] ok by simp
  show "owner cl k = i" if "pg_pending (pg_exec pc (shards cl ! i)) k \<noteq> []"
    using pg_exec_pending [OF inv p that] cl i ok by (auto simp: cl_invar_def)
qed

definition pgc_others_turn :: "WorkerID \<Rightarrow> (nat \<Rightarrow> pg_env, pg cluster) turn \<Rightarrow> bool" where
  "pgc_others_turn w t \<longleftrightarrow> (\<exists>pcs. interfere t = pgc_others w pcs)"

definition pgc_others_round :: "WorkerID \<Rightarrow> (nat \<Rightarrow> pg_env, pg cluster) round \<Rightarrow> bool" where
  "pgc_others_round w r \<longleftrightarrow> pgc_others_turn w (drain_turn r) \<and> pgc_others_turn w (ack_turn r) \<and>
     (\<forall>t \<in> set (beat_turns r). pgc_others_turn w t)"

lemma pgc_others_round_relies:
  assumes "pgc_others_round (Worker c) r"
  shows "round_relies UNIV pgc_inv pgc_pending pgc_holds (cl_ackable any_ack) c r"
proof -
  have "relies UNIV pgc_inv pgc_pending pgc_holds (cl_ackable any_ack) c t" if "pgc_others_turn (Worker c) t" for t
    using that pgc_others_evolves by (auto simp: pgc_others_turn_def relies_def)
  with assms show ?thesis by (auto simp: pgc_others_round_def round_relies_def)
qed

lemma pgc_runOnce_concurrent:
  assumes "pgc_inv cl" and "cl_env_ok pg_env_ok cl (reads t)" and "w \<noteq> ''''" and "interfere t = id"
    and "\<forall>r \<in> set rs. pgc_others_round w r"
    and "runOnce (sharded pg_Backend) w cfg t rs cl = Some (ex, tr, cl')"
  shows "pgc_inv cl' \<and> (\<exists>k ps. processed tr = map (Pair k) ps \<and>
    fifo_prefix UNIV (pgc_pending cl k) ps ex (pgc_pending cl' k))"
proof -
  have "\<forall>r \<in> set rs. round_relies UNIV pgc_inv pgc_pending pgc_holds (cl_ackable any_ack) c r" if "Worker c = w" for c
    using assms(5) that pgc_others_round_relies by blast
  with pgc.runOnce_sound [OF extensions_UNIV, of t cl w rs cfg ex tr cl'] assms show ?thesis
    by (simp add: cl_drain_ok_def)
qed


section \<open>A new driver\<close>

text \<open>
  What \<open>New\<close> is given: connections to primaries without units, whose tenant configuration has positive
  thresholds, and a schema whose statements leave the tables of such a primary alone.
\<close>

definition unused :: "pg \<Rightarrow> bool" where
  "unused p \<longleftrightarrow> work_units p = [] \<and> pg_tasks p = [] \<and> dead_letters p = [] \<and> (\<forall>(ws, t, m) \<in> set (tenant_config p). 1 \<le> t)"

lemma run_stmts_unused:
  assumes "\<And>t q r q'. unused q \<Longrightarrow> exec t q = (r, q') \<Longrightarrow> unused q'"
  shows "unused p \<Longrightarrow> run_stmts exec ts p = (r, p') \<Longrightarrow> unused p'"
proof (induction ts arbitrary: p)
  case (Cons t ts)
  obtain r1 p1 where e: "exec t p = (r1, p1)" by fastforce
  from assms [OF Cons.prems(1) e] Cons.IH [of p1] Cons.prems(2) e show ?case by (cases r1) auto
qed simp

lemma open_pools_unused:
  assumes "\<And>d p. connect d = Ok p \<Longrightarrow> unused p" and "\<And>t q r q'. unused q \<Longrightarrow> exec t q = (r, q') \<Longrightarrow> unused q'"
  shows "open_pools connect exec sql ds ps = Ok qs \<Longrightarrow> \<forall>p \<in> set ps. unused p \<Longrightarrow>
    length qs = length ps + length ds \<and> (\<forall>p \<in> set qs. unused p)"
proof (induction ds arbitrary: ps)
  case (Cons d ds)
  from Cons.prems(1) obtain p where p: "connect d = Ok p" by (auto split: result.splits)
  with Cons.prems(1) obtain u p' where p': "applySchema exec sql p = (Ok u, p')" by (auto split: result.splits prod.splits)
  have "unused p'" using run_stmts_unused [OF assms(2) assms(1) [OF p]] p' by (simp add: applySchema_def)
  with Cons.IH [of "ps @ [p']"] Cons.prems p p' show ?case by simp
qed simp

lemma pg_New_inv:
  assumes "\<And>d p. connect d = Ok p \<Longrightarrow> unused p" and "\<And>t q r q'. unused q \<Longrightarrow> exec t q = (r, q') \<Longrightarrow> unused q'"
    and "1 \<le> T" and "length dsns < 2 ^ 32" and "pg_New connect exec sql dsns T wait tries = Ok cl"
  shows "pgc_inv cl \<and> length (shards cl) = length dsns \<and> pgc_pending cl k = []"
proof -
  let ?init = "\<lambda>p. p\<lparr>tenants := Map.empty, defT := T, defWait := wait, maxTries := if tries \<le> 0 then 3 else tries\<rparr>"
  from assms(5) obtain qs where qs: "open_pools connect exec sql dsns [] = Ok qs" and ne: "dsns \<noteq> []"
    and cl: "cl = \<lparr>shards = map ?init qs, rr = 0\<rparr>"
    by (auto simp: pg_New_def Let_def split: if_splits result.splits)
  have len: "length qs = length dsns" and un: "\<forall>p \<in> set qs. unused p"
    using open_pools_unused [OF assms(1,2) qs] by simp_all
  have f: "pg_fresh (?init p)" if "p \<in> set qs" for p
    using un that assms(3) by (auto simp: pg_fresh_def unused_def conf_ok_def)
  have "pg_fresh (shards cl ! i)" if "i < length qs" for i using f that by (simp add: cl)
  then have "pg_inv (shards cl ! i)" "pg_pending (shards cl ! i) k = []" if "i < length qs" for i k
    using pg_fresh_ok [of "shards cl ! i"] that by (auto simp: pg_ok_def)
  then have inv: "pgc_inv cl" using len ne assms(4) by (auto simp: cl_invar_def cl)
  moreover have "owner cl k < length qs" using owner_lt [OF inv] by (simp add: cl)
  ultimately show ?thesis
    using len \<open>\<And>k i. i < length qs \<Longrightarrow> pg_pending (shards cl ! i) k = []\<close> by (simp add: cl_pending_def) (simp add: cl)
qed

end
