(* ===== verification/Postgres_Gate.thy ===== *)
theory Postgres_Gate
  imports Postgres_System
begin

text \<open>
  The cost gate of a Postgres primary: in a history whose clock readings are at most \<open>T\<close>, a unit that has
  reached its threshold is eligible, and a unit is eligible only if it has, or if one of its pending tasks
  has waited for the age cap.
\<close>

definition row_gated :: "time \<Rightarrow> pg_unit \<Rightarrow> pg_task list \<Rightarrow> bool" where
  "row_gated T w ts \<longleftrightarrow>
     (u_threshold w \<le> pending_cost w \<longrightarrow> u_eligible w) \<and>
     (u_eligible w \<longrightarrow> u_threshold w \<le> pending_cost w \<or> (\<exists>d \<le> T. flush_deadline w = Some d)) \<and>
     (ts \<noteq> [] \<longrightarrow> (\<exists>x \<in> set ts. flush_deadline w = Some (enqueued_at x + ms (max_wait_ms w))))"

definition pg_gated :: "time \<Rightarrow> pg \<Rightarrow> bool" where
  "pg_gated T s \<longleftrightarrow> (\<forall>k w. row s k = Some w \<longrightarrow> row_gated T w (unit_tasks k s))"

lemma pg_gated_write:
  assumes "pg_gated T s" and "row_gated T w (unit_tasks k s')" and "\<And>k'. k' \<noteq> k \<Longrightarrow> unit_tasks k' s' = unit_tasks k' s"
    and "work_units s' = AList.update k w (work_units s)"
  shows "pg_gated T s'"
  using assms by (auto simp: pg_gated_def update_conv')

lemma row_gated_released [simp]: "row_gated T (released w) ts = row_gated T w ts"
  by (simp add: row_gated_def released_def)

lemma row_gated_bump [simp]: "row_gated T w (map (bump k seq) ts) = row_gated T w ts"
  by (simp add: row_gated_def)

lemma row_gated_lease:
  "row_gated T (w\<lparr>claimed_by := a, u_token := b, lease_ms := c, lease_expires := d\<rparr>) ts = row_gated T w ts"
  "row_gated T (w\<lparr>lease_ms := c, lease_expires := d\<rparr>) ts = row_gated T w ts"
  by (simp_all add: row_gated_def)

lemma upsert_gated:
  assumes "unit_ok old ts" and "\<And>w. old = Some w \<Longrightarrow> row_gated T w ts" and "1 \<le> cost" and "1 \<le> t" and "enqueued_at x = now"
  shows "row_gated T (upsert now t waitMs cost old) (ts @ [x])"
proof (cases old)
  case None
  with assms show ?thesis by (auto simp: row_gated_def upsert_def unit_ok_def)
next
  case (Some w)
  with assms(1) have ok: "row_ok w ts" by (simp add: unit_ok_def)
  note g = assms(2) [OF Some]
  show ?thesis
  proof (cases "ts = []")
    case True
    with ok have "pending_cost w = 0" "\<not> u_eligible w" by (auto simp: row_ok_def)
    with Some True assms(5) show ?thesis by (auto simp: row_gated_def upsert_def)
  next
    case False
    with ok have "1 \<le> int (length ts)" "\<forall>t \<in> set ts. 1 \<le> t_cost t" by (cases ts; simp add: row_ok_def)+
    with total_cost_nonneg [of ts] ok have "pending_cost w \<noteq> 0" by (auto simp: row_ok_def)
    with Some g False assms(3) show ?thesis by (auto simp: row_gated_def upsert_def)
  qed
qed

lemma min_enq_mem: "ts \<noteq> [] \<Longrightarrow> \<exists>x \<in> set ts. min_enq ts = Some (enqueued_at x)"
proof -
  assume "ts \<noteq> []"
  then have "min_list (map enqueued_at ts) \<in> set (map enqueued_at ts)"
    by (metis Min_in List.finite_set list.map_disc_iff min_list_Min set_empty)
  with \<open>ts \<noteq> []\<close> show ?thesis by (auto simp: min_enq_def)
qed

lemma acked_row_gated: "now \<le> T \<Longrightarrow> row_gated T (acked_row now w rest) rest"
  using min_enq_mem [of rest]
  by (cases "rest = []") (auto simp: row_gated_def acked_row_def keeps_def min_enq_def Let_def)

section \<open>Statements\<close>

lemma gated_enqueue_stmt:
  assumes "pg_inv s" and "pg_gated T s" and "1 \<le> cost" and "1 \<le> t"
  shows "pg_gated T (snd (enqueue_stmt now t waitMs k p cost s))"
proof (cases "\<exists>x. fst (enqueue_stmt now t waitMs k p cost s) = Ok x")
  case True
  then obtain seq s' where ok: "enqueue_stmt now t waitMs k p cost s = (Ok seq, s')" by (metis prod.collapse)
  note s' = enqueue_stmt_Ok [OF ok]
  have "row_gated T (upsert now t waitMs cost (row s k)) (unit_tasks k s @
      [\<lparr>t_key = k, t_seq = seq, t_payload = p, t_cost = cost, t_attempts = 0, enqueued_at = now\<rparr>])"
    using assms(2-4) by (intro upsert_gated pg_invD(3) [OF assms(1)]) (auto simp: pg_gated_def)
  then have "pg_gated T s'"
    by (intro pg_gated_write [OF assms(2), where k = k]) (simp_all add: s'(2) unit_tasks_def)
  with ok show ?thesis by simp
qed (use enqueue_stmt_not_Ok assms(2) in simp)

lemma gated_lease:
  assumes "pg_gated T s" and "row s k = Some w" and "row_gated T w' (unit_tasks k s) = row_gated T w (unit_tasks k s)"
  shows "pg_gated T (s\<lparr>work_units := AList.update k w' (work_units s)\<rparr>)"
  using assms by (intro pg_gated_write [OF assms(1), where k = k and w = w']) (auto simp: pg_gated_def)

lemma gated_claim_stmt:
  assumes "pg_inv s" and "pg_gated T s"
  shows "pg_gated T (snd (claim_stmt e worker m s))"
proof (rule claim_stmt_cases [OF assms(1) surjective_pairing, of e worker m])
  fix k w
  assume "row s k = Some w" "snd (claim_stmt e worker m s) = s\<lparr>work_units := AList.update k
    (w\<lparr>claimed_by := Some worker, u_token := Some (uuid e), lease_ms := Some m,
      lease_expires := Some (pg_now e + ms m)\<rparr>) (work_units s)\<rparr>"
  then show ?thesis using gated_lease [OF assms(2)] row_gated_lease(1) by metis
qed (simp_all add: assms)

lemma gated_ack_tx:
  assumes "pg_inv s" and "pg_gated T s" and "pg_now e \<le> T"
  shows "pg_gated T (snd (ack_tx e c th s))"
proof (cases rule: checkLease_cases [of c s])
  case lost
  then show ?thesis using assms(2) by (simp add: ack_tx_def)
next
  case (ok w)
  then have r: "row s (Key c) = Some w" by (simp add: checkLease_Ok)
  let ?rest = "dropWhile (\<lambda>t. t_seq t \<le> th) (unit_tasks (Key c) s)"
  have "row_gated T (acked_row (pg_now e) w ?rest) ?rest" using assms(3) by (rule acked_row_gated)
  moreover have "filter (\<lambda>t. \<not> t_seq t \<le> th) (unit_tasks (Key c) s) = ?rest"
    using filter_above row_okD(1) [OF pg_invD(4) [OF assms(1) r]] by blast
  ultimately show ?thesis
    unfolding ack_tx_held [OF assms(1) ok] snd_conv
    by (intro pg_gated_write [OF assms(2), where k = "Key c"]) simp_all
qed

lemma gated_fail_tx:
  assumes "pg_inv s" and "pg_gated T s" and "pg_now e \<le> T"
  shows "pg_gated T (snd (fail_tx e c seq reason s))"
proof (cases rule: checkLease_cases [of c s])
  case lost
  then show ?thesis using assms(2) by (simp add: fail_tx_def)
next
  case (ok w)
  then have r: "row s (Key c) = Some w" by (simp add: checkLease_Ok)
  show ?thesis
  proof (cases "at_cap s (Key c) seq")
    case True
    then obtain t rest where ts: "unit_tasks (Key c) s = t # rest" "t_seq t = seq" "maxTries s \<le> t_attempts t + 1"
      by (auto simp: at_cap_def split: list.splits)
    have "\<forall>x \<in> set rest. seq < t_seq x" using row_okD(1) [OF pg_invD(4) [OF assms(1) r]] ts by auto
    note rest = bump_above [OF this]
    show ?thesis
      unfolding fail_tx_poison [OF assms(1) ok ts(1,3), unfolded ts(2)] snd_conv
      using acked_row_gated [OF assms(3)] ts rest
      by (intro pg_gated_write [OF assms(2), where k = "Key c"]) (simp_all add: bump_other)
  next
    case False
    have "row_gated T w (unit_tasks (Key c) s)" using assms(2) r by (simp add: pg_gated_def)
    then show ?thesis
      unfolding fail_tx_retry [OF assms(1) ok False] snd_conv
      by (intro pg_gated_write [OF assms(2), where k = "Key c"]) (simp_all add: bump_other)
  qed
qed

lemma gated_reap_stmts:
  assumes "pg_gated T s" and "now \<le> T"
  shows "pg_gated T (snd (reap_stmts e now s))"
proof -
  have flush: "row_gated T (w\<lparr>u_eligible := True\<rparr>) ts" if "row_gated T w ts" "flush_row now w" for w ts
    using that assms(2) by (cases "flush_deadline w") (auto simp: row_gated_def flush_row_def)
  let ?f = "\<lambda>w. if fault_mid e = None \<and> flush_row now w then w\<lparr>u_eligible := True\<rparr> else w"
  let ?g = "\<lambda>w. if expired_row now w then released w else w"
  have step: "row_gated T (?f (?g w)) ts" if "row_gated T w ts" for w ts
    using that flush [of "?g w" ts] by simp
  show ?thesis
    unfolding pg_gated_def
  proof (intro allI impI)
    fix k w
    assume "row (snd (reap_stmts e now s)) k = Some w"
    then obtain u where "row s k = Some u" "w = ?f (?g u)" by (auto simp only: row_reap map_option_eq_Some o_def)
    with assms(1) show "row_gated T w (unit_tasks k (snd (reap_stmts e now s)))"
      unfolding reap_keys by (simp only: step pg_gated_def)
  qed
qed

section \<open>Histories\<close>

text \<open>The clock readings that the gate compares with deadlines.\<close>

fun gate_clocks :: "pg_call \<Rightarrow> time set" where
  "gate_clocks (PAck e c th) = {pg_now e}"
| "gate_clocks (PFai e c seq reason) = {pg_now e}"
| "gate_clocks (PRea e now) = {now}"
| "gate_clocks _ = {}"

lemma pg_gated_tenants [simp]: "pg_gated T (s\<lparr>tenants := x\<rparr>) = pg_gated T s"
  by (simp add: pg_gated_def)

lemma gated_PEnq:
  assumes "pg_inv s" and "pg_gated T s" and "1 \<le> cost"
  shows "pg_gated T (snd (pg_Enqueue e k p cost s))"
proof -
  obtain t wait s' where g: "tenant_get e (Workspace k) s = ((t, wait), s')" by (metis prod.collapse)
  from tenant_get_inv [OF assms(1) g] assms(2) have "pg_inv s'" "1 \<le> t" "pg_gated T s'" by auto
  with gated_enqueue_stmt [of s' T cost t] assms(3) show ?thesis by (simp add: pg_Enqueue_def g driver_snd)
qed

lemma pg_gated_exec:
  assumes "pg_inv s" and "pg_gated T s" and "pg_possible U pc" and "\<forall>now \<in> gate_clocks pc. now \<le> T"
  shows "pg_gated T (pg_exec pc s)"
proof (cases pc)
  case (PEnq e k p cost)
  then show ?thesis using gated_PEnq [OF assms(1,2)] assms(3) by simp
next
  case (PCla e w d)
  then show ?thesis using gated_claim_stmt [OF assms(1,2)] assms(2) by (simp add: pg_Claim_def driver_snd)
next
  case (PDra e c n)
  then show ?thesis using assms(2) by (simp add: pg_Drain_def driver_snd)
next
  case (PAck e c th)
  then show ?thesis using gated_ack_tx [OF assms(1,2)] assms(2,4) by (simp add: pg_Ack_def driver_snd)
next
  case (PRel e c)
  have "pg_gated T (snd (release_stmt e c s))"
  proof (cases rule: checkLease_cases [of c s])
    case (ok w)
    with gated_lease [OF assms(2), of "Key c" w "released w"] show ?thesis by (simp add: release_stmt_def) (simp add: checkLease_Ok)
  qed (simp add: release_stmt_def assms(2))
  with PRel assms(2) show ?thesis by (simp add: pg_Release_def driver_snd)
next
  case (PHbt e c d)
  have "pg_gated T (snd (heartbeat_stmt e c m s))" for m
  proof (cases rule: checkLease_cases [of c s])
    case (ok w)
    then have "row s (Key c) = Some w" by (simp add: checkLease_Ok)
    from ok gated_lease [OF assms(2) this row_gated_lease(2)] assms(2) show ?thesis by (simp add: heartbeat_stmt_def)
  qed (simp add: heartbeat_stmt_def assms(2))
  with PHbt assms(2) show ?thesis by (simp add: pg_Heartbeat_def driver_snd)
next
  case (PFai e c seq reason)
  then show ?thesis using gated_fail_tx [OF assms(1,2)] assms(2,4) by (simp add: pg_Fail_def driver_snd)
next
  case (PRea e now)
  then show ?thesis using gated_reap_stmts [OF assms(2)] assms(2,4) by (simp add: pg_ReapExpired_def driver_snd)
qed

lemma pg_run_gated:
  assumes "pg_run su pcs evs su'" and "pg_ok su" and "pg_gated T (fst su)" and "\<forall>pc \<in> set pcs. \<forall>now \<in> gate_clocks pc. now \<le> T"
  shows "pg_gated T (fst su') \<and> pg_ok su'"
  using assms
proof (induction rule: impl_run.induct)
  case (snoc pcs evs su' pc su'')
  then have IH: "pg_gated T (fst su')" "pg_ok su'" and clocks: "\<forall>now \<in> gate_clocks pc. now \<le> T" by simp_all
  then have inv: "pg_inv (fst su')" by (simp add: pg_ok_def)
  from snoc.hyps(2) have p: "pg_possible (snd su') pc" and su'': "su'' = pg_next pc su'" by (simp_all add: pg_step_iff)
  from pg_gated_exec [OF inv IH(1) p clocks] pg_step_ok(1) [OF IH(2) snoc.hyps(2)] show ?case
    by (simp add: su'' pg_next_def)
qed simp
end
