(* ===== verification/Postgres_Correct.thy ===== *)
theory Postgres_Correct
  imports Postgres_Contract Postgres_Gate
begin

text \<open>
  What the Postgres driver is shown to do: histories of one primary, single statements, and the driver
  over many primaries. A history starts on a primary without units (\<open>pg_fresh\<close>) and has positive costs and
  fresh UUIDs; connections may fail before, during and after any statement.
\<close>

section \<open>A demonstration history\<close>

definition pg_demo_env :: "time \<Rightarrow> pg_env" where
  "pg_demo_env now = \<lparr>pg_now = now, uuid = ''u1'', locked = [], fault = None, fault_mid = None, lost_reply = None,
    tenant_fault = False\<rparr>"

definition pg_demo_key :: WorkUnitKey where
  "pg_demo_key = \<lparr>Workspace = ''ws'', Session = ''s'', Peer = ''p''\<rparr>"

definition pg_demo0 :: pg where
  "pg_demo0 = \<lparr>work_units = [], pg_tasks = [], dead_letters = [], tenant_config = [], tenants = Map.empty,
    defT = 10, defWait = 1000000000, maxTries = 3\<rparr>"

definition pg_demo_row :: pg_unit where
  "pg_demo_row = \<lparr>pending_cost = 12, next_seq = 1, u_threshold = 10, max_wait_ms = 1000, u_eligible = True,
    claimed_by = Some ''w0'', u_token = Some ''u1'', lease_ms = Some 30, lease_expires = Some 30000007,
    oldest_pending_at = Some 5, flush_deadline = Some 1000000005\<rparr>"

definition pg_demo_task :: "int \<Rightarrow> string \<Rightarrow> time \<Rightarrow> pg_task" where
  "pg_demo_task seq p now = \<lparr>t_key = pg_demo_key, t_seq = seq, t_payload = p, t_cost = 6, t_attempts = 0, enqueued_at = now\<rparr>"

definition pg_demo_free :: pg where
  "pg_demo_free = pg_demo0\<lparr>work_units := [(pg_demo_key, pg_demo_row\<lparr>claimed_by := None, u_token := None, lease_ms := None,
      lease_expires := None\<rparr>)],
    pg_tasks := [pg_demo_task 0 ''a'' 5, pg_demo_task 1 ''b'' 6], tenants := [''ws'' \<mapsto> (10, 1000000000)]\<rparr>"

definition pg_demo :: pg where
  "pg_demo = pg_demo_free\<lparr>work_units := [(pg_demo_key, pg_demo_row)]\<rparr>"

definition pg_demo_claim :: ClaimedUnit where
  "pg_demo_claim = \<lparr>Key = pg_demo_key, Worker = ''w0'', Lease = ''u1'', LeaseTill = 30000007\<rparr>"

definition pg_demo_enqs :: "pg_call list" where
  "pg_demo_enqs = [PEnq (pg_demo_env 5) pg_demo_key ''a'' 6, PEnq (pg_demo_env 6) pg_demo_key ''b'' 6]"

definition pg_demo_calls :: "pg_call list" where
  "pg_demo_calls = pg_demo_enqs @ [PCla (pg_demo_env 7) ''w0'' 30000000]"

lemma pg_demo_env_simps [simp]:
  "pg_now (pg_demo_env now) = now" "uuid (pg_demo_env now) = ''u1''" "locked (pg_demo_env now) = []"
  "fault (pg_demo_env now) = None" "fault_mid (pg_demo_env now) = None" "lost_reply (pg_demo_env now) = None"
  "tenant_fault (pg_demo_env now) = False"
  by (simp_all add: pg_demo_env_def)

lemma pg_demo_fresh: "pg_fresh pg_demo0"
  by (simp add: pg_fresh_def pg_demo0_def conf_ok_def)

lemma pg_demo_enq1:
  "pg_Enqueue (pg_demo_env 5) pg_demo_key ''a'' 6 pg_demo0 =
    (Ok 0, pg_demo0\<lparr>work_units := [(pg_demo_key, pg_demo_row\<lparr>pending_cost := 6, next_seq := 0, u_eligible := False,
      claimed_by := None, u_token := None, lease_ms := None, lease_expires := None\<rparr>)],
      pg_tasks := [pg_demo_task 0 ''a'' 5], tenants := [''ws'' \<mapsto> (10, 1000000000)]\<rparr>)"
  by (simp add: pg_Enqueue_def tenant_get_def enqueue_stmt_def driver_def upsert_def pg_demo0_def pg_demo_key_def
      pg_demo_row_def pg_demo_task_def int4_def int8_def ms_def go_div_def unit_tasks_def Let_def)

lemma pg_demo_enq2:
  "snd (pg_Enqueue (pg_demo_env 6) pg_demo_key ''b'' 6 (snd (pg_Enqueue (pg_demo_env 5) pg_demo_key ''a'' 6 pg_demo0))) = pg_demo_free"
  by (simp add: pg_demo_enq1)
    (simp add: pg_Enqueue_def tenant_get_def enqueue_stmt_def driver_def upsert_def pg_demo0_def pg_demo_key_def
      pg_demo_free_def pg_demo_row_def pg_demo_task_def int4_def int8_def ms_def go_div_def unit_tasks_def Let_def)

lemma pg_demo_claimed: "pg_Claim (pg_demo_env 7) ''w0'' 30000000 pg_demo_free = (Ok (Some pg_demo_claim), pg_demo)"
  by (simp add: pg_Claim_def driver_def claim_stmt_def claim_row_def pg_demo_free_def pg_demo_def pg_demo_claim_def
      pg_demo_row_def int4_def ms_def go_div_def claim_order_def Let_def)


lemma pg_demo_next:
  "pg_next (PEnq (pg_demo_env 5) pg_demo_key ''a'' 6) (pg_demo0, {}) =
    (snd (pg_Enqueue (pg_demo_env 5) pg_demo_key ''a'' 6 pg_demo0), {})"
  "pg_next (PEnq (pg_demo_env 6) pg_demo_key ''b'' 6) (snd (pg_Enqueue (pg_demo_env 5) pg_demo_key ''a'' 6 pg_demo0), {}) =
    (pg_demo_free, {})"
  "pg_next (PCla (pg_demo_env 7) ''w0'' 30000000) (pg_demo_free, {}) = (pg_demo, {''u1''})"
proof -
  have "pg_event (pg_demo_free, {}) (PCla (pg_demo_env 7) ''w0'' 30000000) = EvClaim pg_demo_key ''w0'' ''u1''"
    using driver_Ok [OF pg_demo_claimed [unfolded pg_Claim_def]] by (simp add: pg_event_def pg_demo_claim_def)
  then show "pg_next (PCla (pg_demo_env 7) ''w0'' 30000000) (pg_demo_free, {}) = (pg_demo, {''u1''})"
    by (simp add: pg_next_def pg_demo_claimed)
qed (simp_all add: pg_next_def pg_event_other pg_demo_enq2)

lemma pg_demo_run0: "pg_run (pg_demo0, {}) pg_demo_enqs (pg_events (pg_demo0, {}) pg_demo_enqs) (pg_demo_free, {})"
  using pg_run_nexts [of "(pg_demo0, {})" pg_demo_enqs] by (simp add: pg_demo_enqs_def pg_demo_next)

lemma pg_demo_run: "pg_run (pg_demo0, {}) pg_demo_calls (pg_events (pg_demo0, {}) pg_demo_calls) (pg_demo, {''u1''})"
  using pg_run_nexts [of "(pg_demo0, {})" pg_demo_calls] by (simp add: pg_demo_calls_def pg_demo_enqs_def pg_demo_next)

lemma pg_demo_inv: "pg_inv pg_demo" and pg_demo_free_inv: "pg_inv pg_demo_free"
  using pg.run_simulates [OF pg_demo_run pg_fresh_ok(1) [OF pg_demo_fresh]]
    pg.run_simulates [OF pg_demo_run0 pg_fresh_ok(1) [OF pg_demo_fresh]] by (auto simp: pg_ok_def)

lemma pg_demo_held: "checkLease pg_demo_claim pg_demo = Ok pg_demo_row"
  by (simp add: checkLease_Ok) (simp add: pg_demo_def pg_demo_claim_def holds_row_def pg_demo_row_def)

lemma pg_demo_pending: "pg_pending pg_demo pg_demo_key = [\<lparr>Seq = 0, Payload = ''a'', Cost = 6\<rparr>, \<lparr>Seq = 1, Payload = ''b'', Cost = 6\<rparr>]"
  by (simp add: pg_pending_def unit_tasks_def pg_demo_def pg_demo_free_def pg_demo_task_def to_task_def)

section \<open>Histories of one primary\<close>

text \<open>
  C20. In-order delivery on Postgres, also when connections fail and replies are lost: after every history
  and for every unit, the tasks enqueued so far are, in this order, those acknowledged or dead-lettered so
  far followed by those still in the table.
\<close>

theorem postgres_fifo:
  assumes "pg_fresh s0" and "pg_run (s0, {}) pcs evs (s, U)"
  shows "concat (map (entered k) evs) = concat (map (finished k) evs) @ pg_pending s k"
  using pg.run_fifo [OF assms(2) pg_fresh_ok(1) [OF assms(1)] order.refl, of k] pg_fresh_ok(2) [OF assms(1), of k] by simp

theorem postgres_fifo_witness:
  "concat (map (entered pg_demo_key) (pg_events (pg_demo0, {}) pg_demo_calls)) =
    concat (map (finished pg_demo_key) (pg_events (pg_demo0, {}) pg_demo_calls)) @ pg_pending pg_demo pg_demo_key \<and>
   map Seq (pg_pending pg_demo pg_demo_key) = [0, 1]"
  using postgres_fifo [OF pg_demo_fresh pg_demo_run, of pg_demo_key] by (simp add: pg_demo_pending)

text \<open>
  C21. Refinement: every history of a primary, connection faults included, is a run of the same abstract
  lease queue as the in-memory backend's, and ends in a state in which the rows agree with the task table.
\<close>

theorem postgres_refines:
  assumes "pg_fresh s0" and "pg_run (s0, {}) pcs evs (s, U)"
  shows "spec_run (pg_abs (s0, {})) evs (pg_abs (s, U)) \<and> pg_inv s"
  using pg.run_simulates [OF assms(2) pg_fresh_ok(1) [OF assms(1)] order.refl] by (simp add: pg_ok_def)

theorem postgres_refines_witness:
  "spec_run (pg_abs (pg_demo0, {})) (pg_events (pg_demo0, {}) pg_demo_calls) (pg_abs (pg_demo, {''u1''})) \<and> pg_inv pg_demo"
  by (rule postgres_refines [OF pg_demo_fresh pg_demo_run])

text \<open>
  C22. Fencing: a claim that \<open>Claim\<close> returned with a fresh UUID and whose lease has been lost at some later
  point fails \<open>checkLease\<close> at every point after that.
\<close>

theorem postgres_fencing:
  assumes "pg_fresh s0" and "pg_run (s0, {}) pcs evs (s, U)" and "uuid e \<notin> U" and "pg_Claim e w d s = (Ok (Some c), s1)"
    and "pg_run (s1, insert (uuid e) U) pcs1 evs1 (s2, U2)" and "checkLease c s2 = Err ErrLeaseLost"
    and "pg_run (s2, U2) pcs2 evs2 (s3, U3)"
  shows "checkLease c s3 = Err ErrLeaseLost"
proof -
  have ok: "pg_ok (s, U)" using pg.run_simulates [OF assms(2) pg_fresh_ok(1) [OF assms(1)] order.refl] by simp
  have inv: "pg_inv s" using ok by (simp add: pg_ok_def)
  note stmt = driver_Ok [OF assms(4) [unfolded pg_Claim_def]]
  have c: "Worker c = w" "Lease c = uuid e" using claim_stmt_view [OF inv stmt] by simp_all
  have "fault e = None" using assms(4) by (cases "fault e") (auto simp: pg_Claim_def driver_def)
  then have "pg_next (PCla e w d) (s, U) = (s1, insert (uuid e) U)"
    using stmt assms(4) c by (simp add: pg_next_def pg_event_def)
  then have "pg_step (s, U) (PCla e w d) (s1, insert (uuid e) U)" using assms(3) by (simp add: pg_step_iff)
  then have ok1: "pg_ok (s1, insert (uuid e) U)" by (rule pg_step_ok(1) [OF ok])
  note r1 = pg.run_simulates [OF assms(5) ok1 order.refl]
  have "uuid e \<in> s_issued (pg_abs (s2, U2))" using spec_run_issued [OF conjunct2 [OF r1]] by auto
  moreover have "s_holder (pg_abs (s2, U2)) (Key c) \<noteq> Some (Worker c, uuid e)"
    using assms(6) c(2) pg_holder_checkLease [of s2 c] by auto
  ultimately have "s_holder (pg_abs (s3, U3)) (Key c) \<noteq> Some (Worker c, uuid e)"
    using pg.run_stale [OF assms(7) conjunct1 [OF r1] order.refl] by blast
  then show ?thesis using c(2) pg_holder_checkLease [of s3 c] by (cases rule: checkLease_cases [of c s3]) auto
qed

theorem postgres_fencing_witness:
  "checkLease pg_demo_claim (pg_exec (PRel (pg_demo_env 8) pg_demo_claim) pg_demo) = Err ErrLeaseLost"
proof -
  let ?rel = "PRel (pg_demo_env 8) pg_demo_claim"
  let ?s2 = "pg_exec ?rel pg_demo"
  have n: "pg_next ?rel (pg_demo, {''u1''}) = (?s2, {''u1''})" by (simp add: pg_next_def pg_event_other)
  have run: "pg_run (pg_demo, insert (uuid (pg_demo_env 7)) {}) [?rel] (pg_events (pg_demo, {''u1''}) [?rel]) (?s2, {''u1''})"
    using pg_run_nexts [of "(pg_demo, {''u1''})" "[?rel]"] by (simp add: n)
  have "checkLease pg_demo_claim ?s2 = Err ErrLeaseLost"
    by (simp add: pg_Release_def driver_snd release_stmt_def pg_demo_held)
      (simp add: checkLease_def pg_demo_claim_def update_conv' holds_row_def released_def)
  from postgres_fencing [OF pg_demo_fresh pg_demo_run0 _ pg_demo_claimed run this impl_run.nil] show ?thesis by simp
qed

text \<open>
  C23. The cost gate on Postgres: in a history whose clock readings are at most \<open>T\<close>, a unit whose pending
  tasks cost at least its threshold is eligible, and an eligible unit has reached the threshold or has a
  pending task that has waited for the age cap by \<open>T\<close>; the stored aggregate is the cost of the pending tasks.
\<close>

theorem postgres_gate:
  assumes "pg_fresh s0" and "pg_run (s0, {}) pcs evs (s, U)" and "\<forall>pc \<in> set pcs. \<forall>now \<in> gate_clocks pc. now \<le> T"
    and "map_of (work_units s) k = Some w"
  shows "pending_cost w = sum_list (map Cost (pg_pending s k)) \<and>
    (u_threshold w \<le> sum_list (map Cost (pg_pending s k)) \<longrightarrow> u_eligible w) \<and>
    (u_eligible w \<longrightarrow> u_threshold w \<le> sum_list (map Cost (pg_pending s k)) \<or>
      (\<exists>x \<in> set (unit_tasks k s). enqueued_at x + ms (max_wait_ms w) \<le> T))"
proof -
  have "pg_gated T s0" using assms(1) by (simp add: pg_gated_def pg_fresh_def)
  from pg_run_gated [OF assms(2) pg_fresh_ok(1) [OF assms(1)], of T] this assms(3)
  have g: "row_gated T w (unit_tasks k s)" and ok: "row_ok w (unit_tasks k s)"
    using assms(4) pg_invD(4) by (auto simp: pg_gated_def pg_ok_def)
  have c: "sum_list (map Cost (pg_pending s k)) = pending_cost w"
    using row_okD(4) [OF ok] by (simp add: pg_pending_def o_def) (simp add: to_task_def)
  from g row_okD(6) [OF ok] show ?thesis unfolding c by (auto simp: row_gated_def)
qed

theorem postgres_gate_witness:
  "pending_cost pg_demo_row = sum_list (map Cost (pg_pending pg_demo pg_demo_key)) \<and>
   u_threshold pg_demo_row \<le> sum_list (map Cost (pg_pending pg_demo pg_demo_key)) \<and> u_eligible pg_demo_row"
proof -
  have "row pg_demo pg_demo_key = Some pg_demo_row" using pg_demo_held by (simp add: checkLease_Ok pg_demo_claim_def)
  from postgres_gate [OF pg_demo_fresh pg_demo_run _ this, of 0] show ?thesis
    by (simp add: pg_demo_calls_def pg_demo_enqs_def pg_demo_pending) (simp add: pg_demo_row_def)
qed


section \<open>Single calls on a primary\<close>

definition claimable_row :: "pg_env \<Rightarrow> pg \<Rightarrow> WorkUnitKey \<Rightarrow> pg_unit \<Rightarrow> bool" where
  "claimable_row e s k u \<longleftrightarrow> row s k = Some u \<and> u_eligible u \<and> claimed_by u = None \<and> k \<notin> set (locked e)"

lemma claim_row_None:
  assumes "pg_inv s"
  shows "claim_row e s = None \<longleftrightarrow> (\<nexists>k u. claimable_row e s k u)"
proof (cases "claim_row e s")
  case None
  have "sort_key claim_order xs = [] \<longleftrightarrow> xs = []" for xs by (metis set_empty set_sort)
  with None have "\<not> (u_eligible u \<and> claimed_by u = None \<and> k \<notin> set (locked e))" if "(k, u) \<in> set (work_units s)" for k u
    using that by (auto simp: claim_row_def filter_empty_conv split: list.splits)
  with None show ?thesis by (auto simp: claimable_row_def dest: map_of_SomeD)
next
  case (Some ku)
  then have "claimable_row e s (fst ku) (snd ku)"
    using claim_row_Some [OF assms, of e "fst ku" "snd ku"] by (simp add: claimable_row_def)
  with Some show ?thesis by auto
qed

lemma claim_row_least:
  assumes "pg_inv s" and "claim_row e s = Some (k, u)" and "claimable_row e s k' u'"
  shows "claim_order (k, u) \<le> claim_order (k', u')"
proof -
  let ?P = "\<lambda>(k, u). u_eligible u \<and> claimed_by u = None \<and> k \<notin> set (locked e)"
  let ?xs = "sort_key claim_order (filter ?P (work_units s))"
  from assms(2) obtain rs where rs: "?xs = (k, u) # rs" by (auto simp: claim_row_def split: list.splits)
  have "sorted (map claim_order ?xs)" by (rule sorted_sort_key)
  moreover have "(k', u') \<in> set ?xs" using assms(3) by (auto simp: claimable_row_def dest: map_of_SomeD)
  ultimately show ?thesis unfolding rs by auto
qed

text \<open>
  Age-fair claims on Postgres: over a working connection \<open>Claim\<close> answers nil exactly when no row is
  eligible, free and unlocked; otherwise it claims the least such row in the order flush deadline (none
  last), workspace, session, peer, for the caller, with the drawn UUID and the full lease.
\<close>

theorem postgres_claim_order:
  assumes "pg_inv s" and "fault e = None" and "lost_reply e = None" and "int4 (go_div d 1000000)"
  shows "case fst (pg_Claim e w d s) of
      Ok None \<Rightarrow> \<nexists>k u. claimable_row e s k u
    | Ok (Some c) \<Rightarrow> \<exists>u. claimable_row e s (Key c) u \<and> Worker c = w \<and> Lease c = uuid e \<and>
        LeaseTill c = pg_now e + ms (go_div d 1000000) \<and>
        (\<forall>k' u'. claimable_row e s k' u' \<longrightarrow> claim_order (Key c, u) \<le> claim_order (k', u'))
    | _ \<Rightarrow> False"
proof (cases "claim_row e s")
  case None
  with assms claim_row_None [OF assms(1), of e] show ?thesis by (simp add: pg_Claim_def driver_def claim_stmt_def)
next
  case (Some ku)
  then obtain k u where ku: "claim_row e s = Some (k, u)" by (cases ku) simp
  from claim_row_Some [OF assms(1) ku] have "claimable_row e s k u" by (simp add: claimable_row_def)
  with claim_row_least [OF assms(1) ku] ku assms(2-4) show ?thesis
    by (auto simp: pg_Claim_def driver_def claim_stmt_def Let_def)
qed

theorem postgres_claim_order_witness:
  "fst (pg_Claim (pg_demo_env 7) ''w0'' 30000000 pg_demo_free) = Ok (Some pg_demo_claim) \<and>
   (\<exists>u. claimable_row (pg_demo_env 7) pg_demo_free pg_demo_key u)"
proof -
  have "int4 (go_div 30000000 1000000)" by (simp add: int4_def go_div_def)
  from postgres_claim_order [OF pg_demo_free_inv _ _ this, of "pg_demo_env 7" "''w0''"] show ?thesis
    by (auto simp: pg_demo_claimed) (auto simp: pg_demo_claim_def)
qed

lemma row_card:
  assumes "distinct (map fst xs)"
  shows "length (filter (\<lambda>(k, w). P w) xs) = card {k. \<exists>w. map_of xs k = Some w \<and> P w}"
proof -
  let ?ys = "filter (\<lambda>(k, w). P w) xs"
  have "distinct (map fst ?ys)" using assms distinct_map_filter by blast
  then have "length ?ys = card (set (map fst ?ys))" by (metis distinct_card length_map)
  also have "set (map fst ?ys) = {k. \<exists>w. map_of xs k = Some w \<and> P w}"
    using assms by (auto simp: image_iff)
  finally show ?thesis .
qed

text \<open>
  C24. The reaper on Postgres: over a working connection it reports exactly the leases it took and the
  units it made eligible, and afterwards no lease has expired before \<open>now\<close> and no free unit with pending
  tasks whose deadline has passed is left ineligible; no task and no dead letter changes.
\<close>

theorem postgres_reap_effect:
  assumes "pg_inv s" and "fault e = None" and "lost_reply e = None" and "fault_mid e = None"
  shows "\<exists>s'. pg_ReapExpired e now s =
      (Ok (int (card {k. \<exists>w. map_of (work_units s) k = Some w \<and> expired_row now w}),
           int (card {k. \<exists>w. map_of (work_units s) k = Some w \<and> flush_row now (if expired_row now w then released w else w)})), s') \<and>
    pg_pending s' = pg_pending s \<and> dead_letters s' = dead_letters s \<and>
    (\<forall>k w. map_of (work_units s') k = Some w \<longrightarrow> \<not> expired_row now w \<and>
      (claimed_by w = None \<and> pg_pending s' k \<noteq> [] \<and> (\<exists>t \<le> now. flush_deadline w = Some t) \<longrightarrow> u_eligible w))"
proof -
  let ?s' = "snd (reap_stmts e now s)"
  let ?g = "\<lambda>w. if expired_row now w then released w else w"
  let ?f = "\<lambda>w. if flush_row now w then w\<lparr>u_eligible := True\<rparr> else w"
  note d = pg_invD(1) [OF assms(1)]
  have d': "distinct (map fst (map (\<lambda>(k, w). (k, ?g w)) (work_units s)))"
    using d by (simp add: o_def case_prod_beta)
  have "(\<exists>w. map_of (map (\<lambda>(k, w). (k, ?g w)) (work_units s)) k = Some w \<and> flush_row now w) \<longleftrightarrow>
      (\<exists>w. row s k = Some w \<and> flush_row now (?g w))" for k
    unfolding map_of_map o_def by (cases "row s k") simp_all
  then have "length (filter (\<lambda>(k, w). flush_row now w) (map (\<lambda>(k, w). (k, ?g w)) (work_units s))) =
      card {k. \<exists>w. row s k = Some w \<and> flush_row now (?g w)}"
    unfolding row_card [OF d'] by (simp only:)
  then have "pg_ReapExpired e now s =
      (Ok (int (card {k. \<exists>w. row s k = Some w \<and> expired_row now w}),
           int (card {k. \<exists>w. row s k = Some w \<and> flush_row now (?g w)})), ?s')"
    unfolding pg_ReapExpired_def driver_def reap_stmts_def Let_def assms(2-4) option.case snd_conv prod.case
    using row_card [OF d, of "expired_row now"] by simp
  moreover have "pg_pending ?s' = pg_pending s" by (simp add: pg_pending_def [abs_def] reap_keys)
  moreover have "\<not> expired_row now w \<and>
      (claimed_by w = None \<and> pg_pending ?s' k \<noteq> [] \<and> (\<exists>t \<le> now. flush_deadline w = Some t) \<longrightarrow> u_eligible w)"
    if "row ?s' k = Some w" for k w
  proof -
    from that obtain u where u: "row s k = Some u" "w = ?f (?g u)"
      using assms(4) by (auto simp: row_reap)
    have inv: "row_ok w (unit_tasks k ?s')" using pg_invD(4) [OF reap_stmts_inv [OF assms(1)] that] .
    have "\<not> expired_row now (?g u)" by (simp add: expired_row_def released_def)
    then have "\<not> expired_row now w" using u(2) by (simp add: expired_row_def)
    moreover have "0 < pending_cost w" if "pg_pending ?s' k \<noteq> []"
      using total_cost_nonneg [of "unit_tasks k ?s'"] row_okD(2,4) [OF inv] that
      by (cases "unit_tasks k ?s'") (auto simp: pg_pending_def)
    moreover have "u_eligible w \<or> \<not> flush_row now w" using u(2) by simp
    ultimately show ?thesis by (auto simp: flush_row_def)
  qed
  ultimately show ?thesis using reap_dead by blast
qed

theorem postgres_reap_effect_witness:
  "\<exists>s'. pg_ReapExpired (pg_demo_env 40000000) 40000000 pg_demo =
      (Ok (int (card {k. \<exists>w. map_of (work_units pg_demo) k = Some w \<and> expired_row 40000000 w}),
           int (card {k. \<exists>w. map_of (work_units pg_demo) k = Some w \<and>
             flush_row 40000000 (if expired_row 40000000 w then released w else w)})), s') \<and>
    pg_pending s' = pg_pending pg_demo"
  using postgres_reap_effect [OF pg_demo_inv, of "pg_demo_env 40000000" 40000000] by auto


section \<open>The driver over many primaries\<close>

text \<open>Two primaries; the demonstration unit lives on the second, which the first claim consults.\<close>

definition pgc_demo :: "pg \<Rightarrow> int \<Rightarrow> pg cluster" where
  "pgc_demo s n = \<lparr>shards = [pg_demo0, s], rr = n\<rparr>"

lemma demo_shard: "shard_index 2 ''ws'' = Some 1"
  by (simp add: shard_index_def Sum32_def) code_simp

lemma pgc_demo_owner: "owner (pgc_demo s n) pg_demo_key = 1"
  using demo_shard by (simp add: owner_def pgc_demo_def pg_demo_key_def numeral_2_eq_2)

lemma pgc_demo_inv:
  assumes "pg_inv s" and "\<And>k. k \<noteq> pg_demo_key \<Longrightarrow> pg_pending s k = []" and "0 \<le> n"
  shows "pgc_inv (pgc_demo s n)"
proof -
  have "owner (pgc_demo s n) k = 1" if "pg_pending s k \<noteq> []" for k
    using that assms(2) pgc_demo_owner by (cases "k = pg_demo_key") auto
  moreover have "pg_inv pg_demo0" "pg_pending pg_demo0 k = []" for k
    using pg_fresh_ok [OF pg_demo_fresh] by (auto simp: pg_ok_def)
  ultimately show ?thesis
    using assms(1,3) by (auto simp: cl_invar_def pgc_demo_def nth_Cons less_Suc_eq split: nat.split)
qed

lemma pg_demo_free_others: "k \<noteq> pg_demo_key \<Longrightarrow> pg_pending pg_demo_free k = []"
  by (simp add: pg_pending_def unit_tasks_def pg_demo_free_def pg_demo_task_def)


definition pg_demo_cfg :: WorkerConfig where
  "pg_demo_cfg = \<lparr>cfg_Lease = 30000000, Batch = 10, Backoff = \<lparr>Min = 1, Max = 8\<rparr>,
    Process = \<lparr>Kind = ''none'', Base = 0, PerCost = 0\<rparr>\<rparr>"

definition pg_demo_turn :: "(pg cluster \<Rightarrow> pg cluster) \<Rightarrow> (nat \<Rightarrow> pg_env, pg cluster) turn" where
  "pg_demo_turn f = \<lparr>interfere = f, reads = (\<lambda>_. pg_demo_env 7)\<rparr>"

definition pg_demo_round :: "(nat \<Rightarrow> pg_env, pg cluster) round" where
  "pg_demo_round = \<lparr>drain_turn = pg_demo_turn (pgc_others ''w0'' []), beat_turns = [],
    ack_turn = pg_demo_turn (pgc_others ''w0'' [])\<rparr>"

lemma pgc_demo_claim:
  "sh_Claim pg_Backend (\<lambda>_. pg_demo_env 7) ''w0'' 30000000 (pgc_demo pg_demo_free 0) = (Ok (Some pg_demo_claim), pgc_demo pg_demo 1)"
  by (simp add: sh_Claim_def Let_def pgc_demo_def numeral_2_eq_2 go_mod_def go_div_def i64_def on_shard_def pg_demo_claimed)

lemma pgc_demo_routed:
  "f 1 s = (r, s') \<Longrightarrow> routed (Workspace pg_demo_key) f (pgc_demo s n) = (r, pgc_demo s' n)"
  using demo_shard by (simp add: routed_def on_shard_def pgc_demo_def pg_demo_key_def numeral_2_eq_2)

lemma pg_demo_drained: "pg_Drain (pg_demo_env 7) pg_demo_claim 10 pg_demo = (Ok (pg_pending pg_demo pg_demo_key), pg_demo)"
  by (simp add: pg_Drain_def driver_def drain_stmts_def pg_demo_held select_tasks_def pg_demo_pending)
    (simp add: unit_tasks_def pg_demo_def pg_demo_free_def pg_demo_task_def to_task_def pg_demo_claim_def)

lemma pg_demo_acked: "\<exists>s'. pg_Ack (pg_demo_env 7) pg_demo_claim 1 pg_demo = (Ok False, s')"
  by (simp add: pg_Ack_def driver_def ack_tx_def pg_demo_held Let_def)
    (simp add: unit_tasks_def pg_demo_def pg_demo_free_def pg_demo_task_def pg_demo_claim_def pg_demo_row_def keeps_def min_enq_def)

lemma pgc_demo_runOnce:
  "\<exists>tr cl'. runOnce (sharded pg_Backend) ''w0'' pg_demo_cfg (pg_demo_turn id) [pg_demo_round] (pgc_demo pg_demo_free 0)
    = Some (Returned True None, tr, cl') \<and> processed tr = map (Pair pg_demo_key) (pg_pending pg_demo pg_demo_key)"
proof -
  obtain s' where ack: "pg_Ack (pg_demo_env 7) pg_demo_claim 1 pg_demo = (Ok False, s')" using pg_demo_acked by blast
  have k: "Key pg_demo_claim = pg_demo_key" by (simp add: pg_demo_claim_def)
  note d = pgc_demo_routed [of "\<lambda>i. pg_Drain (pg_demo_env 7) pg_demo_claim 10", OF pg_demo_drained]
  note a = pgc_demo_routed [of "\<lambda>i. pg_Ack (pg_demo_env 7) pg_demo_claim 1", OF ack]
  show ?thesis
    by (simp add: runOnce_def pg_demo_turn_def pg_demo_cfg_def pgc_demo_claim pg_demo_round_def k d
        Worker.heartbeat_def Let_def pg_demo_pending a)
qed


text \<open>
  C26. The cross-shard claim: over working connections \<open>Claim\<close> does not fail, it answers nil only when no primary has a
  claimable row, although each call starts at the next primary; and a unit it returns is leased on exactly
  the primary that the unit's later calls are routed to.
\<close>

theorem sharded_claim_complete:
  assumes "cl_invar pg_inv pg_pending cl" and "cl_env_ok pg_env_ok cl e" and "w \<noteq> ''''" and "int4 (go_div d 1000000)"
    and "\<forall>i < length (shards cl). fault (e i) = None \<and> lost_reply (e i) = None"
  shows "case sh_Claim pg_Backend e w d cl of
      (Ok None, cl') \<Rightarrow> \<forall>i < length (shards cl). claim_row (e i) (shards cl ! i) = None
    | (Ok (Some c), cl') \<Rightarrow> \<exists>i u. shard_index (length (shards cl')) (Workspace (Key c)) = Some i \<and> i < length (shards cl') \<and>
        checkLease c (shards cl' ! i) = Ok u
    | (_, cl') \<Rightarrow> False"
proof -
  obtain r cl' where r: "sh_Claim pg_Backend e w d cl = (r, cl')" by fastforce
  have ok: "\<exists>x. r = Ok x"
  proof (cases "r = Ok None")
    case False
    from sh_Claim_answer [OF _ _ r False] assms(1,2) obtain j s s'
      where "j < length (shards cl)" "pg_Claim (e j) w d s = (r, s')" by (auto simp: cl_invar_def cl_env_ok_def)
    with assms(4,5) show ?thesis by (auto simp: pg_Claim_def driver_def claim_stmt_def Let_def split: option.splits prod.splits)
  qed simp
  have none: "claim_row (e i) (shards cl ! i) = None" if "r = Ok None" "i < length (shards cl)" for i
  proof -
    from sh_Claim_none [of cl pg_Backend e w d cl' i] r that assms(1,2)
    obtain s where "pg_Claim (e i) w d (shards cl ! i) = (Ok None, s)" by (auto simp: cl_invar_def cl_env_ok_def)
    from driver_Ok [OF this [unfolded pg_Claim_def]] assms(4) show ?thesis
      by (auto simp: claim_stmt_def Let_def split: option.splits)
  qed
  have some: "\<exists>i u. shard_index (length (shards cl')) (Workspace (Key c)) = Some i \<and> i < length (shards cl') \<and>
      checkLease c (shards cl' ! i) = Ok u" if "r = Ok (Some c)" for c
  proof -
    from pgc.claim_some [OF assms(1,2,3)] r that have inv: "pgc_inv cl'" and h: "pgc_holds cl' c" by simp_all
    let ?i = "owner cl' (Key c)"
    have "0 < length (shards cl')" "length (shards cl') < 2 ^ 32" using inv by (simp_all add: cl_invar_def)
    from shard_index_lt [OF this, of "Workspace (Key c)"]
    have "shard_index (length (shards cl')) (Workspace (Key c)) = Some ?i" "?i < length (shards cl')"
      by (auto simp: owner_def)
    moreover have "\<exists>u. checkLease c (shards cl' ! ?i) = Ok u"
      using h pg_holder_checkLease by (auto simp: cl_holds_def pg_holds_def)
    ultimately show ?thesis by blast
  qed
  from ok r none some show ?thesis by (auto split: option.split)
qed

theorem sharded_claim_complete_witness:
  "sh_Claim pg_Backend (\<lambda>_. pg_demo_env 7) ''w0'' 30000000 (pgc_demo pg_demo_free 0) = (Ok (Some pg_demo_claim), pgc_demo pg_demo 1) \<and>
   (\<exists>i u. shard_index 2 ''ws'' = Some i \<and> checkLease pg_demo_claim (shards (pgc_demo pg_demo 1) ! i) = Ok u)"
proof -
  have inv: "pgc_inv (pgc_demo pg_demo_free 0)" by (rule pgc_demo_inv [OF pg_demo_free_inv pg_demo_free_others]) simp_all
  have "cl_env_ok pg_env_ok (pgc_demo pg_demo_free 0) (\<lambda>_. pg_demo_env 7)"
    by (simp add: cl_env_ok_def pg_env_ok_def) (simp add: pgc_demo_def)
  from sharded_claim_complete [OF inv this, of "''w0''" 30000000] show ?thesis
    by (auto simp: pgc_demo_claim int4_def go_div_def)
      (auto simp: pgc_demo_def pg_demo_claim_def pg_demo_key_def numeral_2_eq_2)
qed


section \<open>Acknowledging and failing on a primary\<close>

lemma keeps_rest:
  "keeps now w (total_cost rest) (min_enq rest) \<longleftrightarrow>
    u_threshold w \<le> total_cost rest \<or> (\<exists>x \<in> set rest. enqueued_at x + ms (max_wait_ms w) \<le> now)"
proof (cases "rest = []")
  case False
  then have m: "min_list (map enqueued_at rest) = linorder_class.Min (enqueued_at ` set rest)" by (simp add: min_list_Min)
  have "linorder_class.Min (enqueued_at ` set rest) \<le> d \<longleftrightarrow> (\<exists>x \<in> set rest. enqueued_at x \<le> d)" for d
    using False by (simp add: Min_le_iff)
  from this [of "now - ms (max_wait_ms w)"] False m show ?thesis
    by (simp add: keeps_def min_enq_def le_diff_eq)
qed (simp add: keeps_def min_enq_def)

text \<open>
  C27. \<open>Ack\<close> with a valid lease over a working connection deletes exactly the tasks up to the acknowledged
  sequence number and answers true exactly when what remains of the unit is due, that is, costs at least the
  threshold or has a task that has waited for the age cap; the caller then still holds the unit, and it has
  lost it otherwise.
\<close>

theorem postgres_ack_effect:
  assumes "pg_inv s" and "fault e = None" and "lost_reply e = None" and "checkLease c s = Ok w"
  shows "\<exists>kept s'. pg_Ack e c th s = (Ok kept, s') \<and> dead_letters s' = dead_letters s \<and>
    pg_pending s' = (pg_pending s)(Key c := filter (\<lambda>t. th < Seq t) (pg_pending s (Key c))) \<and>
    (kept \<longleftrightarrow> u_threshold w \<le> sum_list (map Cost (pg_pending s' (Key c))) \<or>
      (\<exists>x \<in> set (unit_tasks (Key c) s). th < t_seq x \<and> enqueued_at x + ms (max_wait_ms w) \<le> pg_now e)) \<and>
    (kept \<longleftrightarrow> (\<exists>w'. checkLease c s' = Ok w'))"
proof -
  from ack_tx_view [OF assms(1,4), of e th] obtain h s' where v: "ack_tx e c th s = (Ok h, s')"
    "pg_pending s' = (pg_pending s)(Key c := dropWhile (\<lambda>t. Seq t \<le> th) (pg_pending s (Key c)))"
    "pg_holder s' = (pg_holder s)(Key c := if h then Some (Worker c, Lease c) else None)"
    "dead_letters s' = dead_letters s" by metis
  let ?ts = "unit_tasks (Key c) s"
  let ?rest = "dropWhile (\<lambda>t. t_seq t \<le> th) ?ts"
  have r: "row s (Key c) = Some w" using assms(4) by (simp add: checkLease_Ok)
  have rest: "?rest = filter (\<lambda>t. th < t_seq t) ?ts"
    using filter_above [OF row_okD(1) [OF pg_invD(4) [OF assms(1) r]], of th] by (simp add: not_le)
  have q: "pg_pending s' (Key c) = map to_task ?rest" by (simp add: v(2) pg_pending_def map_dropWhile_seq)
  have f: "map to_task ?rest = filter (\<lambda>t. th < Seq t) (pg_pending s (Key c))"
    by (simp add: rest pg_pending_def filter_map o_def) (simp add: to_task_def)
  have "h = keeps (pg_now e) w (total_cost ?rest) (min_enq ?rest)"
    using v(1) ack_tx_held [OF assms(1,4), of e th] by simp
  then have h: "h \<longleftrightarrow> u_threshold w \<le> sum_list (map Cost (pg_pending s' (Key c))) \<or>
      (\<exists>x \<in> set ?ts. th < t_seq x \<and> enqueued_at x + ms (max_wait_ms w) \<le> pg_now e)"
    unfolding keeps_rest q by (simp add: rest to_task_def o_def) auto
  have "h \<longleftrightarrow> (\<exists>w'. checkLease c s' = Ok w')" using pg_holder_checkLease [of s' c] v(3) by (auto split: if_splits)
  moreover have "pg_Ack e c th s = (Ok h, s')" using v(1) assms(2,3) by (simp add: pg_Ack_def driver_def)
  moreover have "pg_pending s' = (pg_pending s)(Key c := filter (\<lambda>t. th < Seq t) (pg_pending s (Key c)))"
    using q v(2) f by (simp add: fun_eq_iff)
  ultimately show ?thesis using h v(4) by blast
qed

theorem postgres_ack_effect_witness:
  "\<exists>kept s'. pg_Ack (pg_demo_env 8) pg_demo_claim 0 pg_demo = (Ok kept, s') \<and>
    pg_pending s' pg_demo_key = [\<lparr>Seq = 1, Payload = ''b'', Cost = 6\<rparr>]"
proof -
  have "Key pg_demo_claim = pg_demo_key" by (simp add: pg_demo_claim_def)
  with postgres_ack_effect [OF pg_demo_inv _ _ pg_demo_held, of "pg_demo_env 8" 0] show ?thesis
    by (auto simp: pg_demo_pending)
qed

text \<open>
  C28. \<open>Fail\<close> with a valid lease over a working connection gives up the lease; only when the failed task is
  the head of its unit and has now been tried the maximum number of times it moves, alone, to the dead
  letters with the reason; otherwise every task stays in its place.
\<close>

theorem postgres_fail_effect:
  assumes "pg_inv s" and "fault e = None" and "lost_reply e = None" and "checkLease c s = Ok w"
  shows "\<exists>s'. pg_Fail e c seq reason s = (Ok (), s') \<and> checkLease c s' = Err ErrLeaseLost \<and>
    (if (case unit_tasks (Key c) s of [] \<Rightarrow> False | t # _ \<Rightarrow> t_seq t = seq \<and> maxTries s \<le> t_attempts t + 1)
     then pg_pending s' = (pg_pending s)(Key c := tl (pg_pending s (Key c))) \<and>
       (\<exists>d. dead_letters s' = dead_letters s @ [d] \<and> d_reason d = reason \<and> dead_task d = (Key c, hd (pg_pending s (Key c))))
     else pg_pending s' = pg_pending s \<and> dead_letters s' = dead_letters s)"
proof -
  let ?s' = "snd (fail_tx e c seq reason s)"
  note v = fail_tx_view [OF assms(1,4), of e seq reason]
  have "pg_Fail e c seq reason s = (Ok (), ?s')" using v assms(2,3) by (cases "fail_tx e c seq reason s") (simp add: pg_Fail_def driver_def)
  moreover have "checkLease c ?s' = Err ErrLeaseLost"
    using v pg_holder_checkLease [of ?s' c] by (cases rule: checkLease_cases [of c ?s']) auto
  ultimately show ?thesis using v unfolding at_cap_def by auto
qed

theorem postgres_fail_effect_witness:
  "\<exists>s'. pg_Fail (pg_demo_env 8) pg_demo_claim 0 ''boom'' pg_demo = (Ok (), s') \<and>
    checkLease pg_demo_claim s' = Err ErrLeaseLost \<and> pg_pending s' = pg_pending pg_demo"
proof -
  have "unit_tasks (Key pg_demo_claim) pg_demo = [pg_demo_task 0 ''a'' 5, pg_demo_task 1 ''b'' 6]" "maxTries pg_demo = 3"
    by (simp_all add: unit_tasks_def pg_demo_def pg_demo_free_def pg_demo_task_def pg_demo_claim_def) (simp add: pg_demo0_def)
  with postgres_fail_effect [OF pg_demo_inv _ _ pg_demo_held, of "pg_demo_env 8" 0 "''boom''"] show ?thesis
    by (auto simp: pg_demo_task_def)
qed

end
