(* ===== verification/Valkey.thy ===== *)
theory Valkey
  imports Sharding "HOL-Library.AList"
begin

text \<open>
  Package \<open>internal/valkey\<close>, the Path 2 driver: the Lua scripts of \<open>scripts.go\<close> and the methods of
  \<open>backend.go\<close> that run them. A primary is its keyspace: the hash \<open>wu:<member>\<close> and the stream \<open>s:<member>\<close> of
  every unit, the sorted sets \<open>eligible\<close>, \<open>pending_flush\<close> and \<open>leases\<close>, the stream \<open>dlq\<close> and the counter
  \<open>pending_tasks\<close>. A script is one atomic step; a script that stops with an error keeps what it has written.

  A hash is the record of its fields, each an option; the hash without fields is the absent hash. A
  stream's entry IDs are represented by their rank, which is all that scripts and commands use of them.
  Lua's numbers are exact for the integers below 2^53, in which range clocks, costs and counters are taken
  to lie; the counters that advance by one per call are not taken to reach the bound of 64 bits.
\<close>

section \<open>The keyspace\<close>

record vk_hash =
  h_pending_cost :: "int option"
  h_next_seq :: "int option"
  h_oldest_ms :: "int option"
  h_flush_ms :: "int option"
  h_threshold :: "int option"
  h_max_wait_ms :: "int option"
  h_claimed_by :: "WorkerID option"
  h_lease_token :: "LeaseToken option"
  h_lease_ms :: "int option"
  h_lease_exp :: "int option"
  h_attempts :: "int option"

definition no_hash :: vk_hash where
  "no_hash = \<lparr>h_pending_cost = None, h_next_seq = None, h_oldest_ms = None, h_flush_ms = None, h_threshold = None,
    h_max_wait_ms = None, h_claimed_by = None, h_lease_token = None, h_lease_ms = None, h_lease_exp = None,
    h_attempts = None\<rparr>"

record vk_entry =
  e_id :: nat
  e_seq :: int
  e_ts :: int
  e_p :: string
  e_c :: int

text \<open>A stream with its consumer group \<open>g\<close>: the last delivered ID and the pending entries list.\<close>

record vk_stream =
  entries :: "vk_entry list"
  last_id :: nat
  delivered :: nat
  pel :: "(nat \<times> WorkerID) list"

record vk_dead =
  v_member :: string
  v_seq :: int
  v_p :: string
  v_c :: int
  v_reason :: string

type_synonym zset = "(string \<times> int) list"

record vk =
  wu :: "string \<Rightarrow> vk_hash"
  streams :: "string \<rightharpoonup> vk_stream"
  z_eligible :: zset
  z_flush :: zset
  z_leases :: zset
  vk_dlq :: "vk_dead list"
  pending_tasks :: int

definition vk_empty :: vk where
  "vk_empty = \<lparr>wu = (\<lambda>_. no_hash), streams = Map.empty, z_eligible = [], z_flush = [], z_leases = [], vk_dlq = [],
    pending_tasks = 0\<rparr>"

section \<open>Commands\<close>

text \<open>Sorted sets are ordered by score, then by member.\<close>

definition ZADD :: "string \<Rightarrow> int \<Rightarrow> zset \<Rightarrow> zset" where
  "ZADD m sc z = AList.update m sc z"

definition ZREM :: "string \<Rightarrow> zset \<Rightarrow> zset" where
  "ZREM m z = AList.delete m z"

definition zsorted :: "zset \<Rightarrow> zset" where
  "zsorted z = sort_key (\<lambda>(m, sc). (sc, m)) z"

definition ZPOPMIN :: "zset \<Rightarrow> (string \<times> zset) option" where
  "ZPOPMIN z = (case zsorted z of [] \<Rightarrow> None | (m, sc) # _ \<Rightarrow> Some (m, ZREM m z))"

definition ZRANGEBYSCORE :: "int \<Rightarrow> int \<Rightarrow> zset \<Rightarrow> string list" where
  "ZRANGEBYSCORE lo hi z = map fst (filter (\<lambda>(m, sc). lo \<le> sc \<and> sc \<le> hi) (zsorted z))"

text \<open>Streams. \<open>XGROUP CREATE \<dots> MKSTREAM\<close> leaves an existing group alone (\<open>BUSYGROUP\<close> is ignored).\<close>

definition new_stream :: vk_stream where
  "new_stream = \<lparr>entries = [], last_id = 0, delivered = 0, pel = []\<rparr>"

definition XGROUP_CREATE :: "vk_stream option \<Rightarrow> vk_stream" where
  "XGROUP_CREATE st = (case st of None \<Rightarrow> new_stream | Some st \<Rightarrow> st)"

definition XADD :: "int \<Rightarrow> int \<Rightarrow> string \<Rightarrow> int \<Rightarrow> vk_stream \<Rightarrow> vk_stream" where
  "XADD seq ts p c st =
    st\<lparr>entries := entries st @ [\<lparr>e_id = Suc (last_id st), e_seq = seq, e_ts = ts, e_p = p, e_c = c\<rparr>],
       last_id := Suc (last_id st)\<rparr>"

definition XACK :: "nat \<Rightarrow> vk_stream \<Rightarrow> vk_stream" where
  "XACK i st = st\<lparr>pel := filter (\<lambda>p. fst p \<noteq> i) (pel st)\<rparr>"

definition XDEL :: "nat \<Rightarrow> vk_stream \<Rightarrow> vk_stream" where
  "XDEL i st = st\<lparr>entries := filter (\<lambda>e. e_id e \<noteq> i) (entries st)\<rparr>"

definition XRANGE :: "nat \<Rightarrow> vk_stream \<Rightarrow> vk_entry option" where
  "XRANGE i st = find (\<lambda>e. e_id e = i) (entries st)"

definition stream_head :: "vk_stream option \<Rightarrow> vk_entry option" where
  "stream_head st = (case st of None \<Rightarrow> None | Some st \<Rightarrow> (case entries st of [] \<Rightarrow> None | e # _ \<Rightarrow> Some e))"

text \<open>
  \<open>XPENDING s g start + count\<close>: the pending entries after \<open>start\<close>, at most \<open>count\<close>. \<open>XAUTOCLAIM\<close> from the start
  with idle time 0 hands over the first \<open>count\<close> pending entries and drops those that are deleted from the
  stream. \<open>XREADGROUP \<dots> >\<close> delivers the next \<open>count\<close> entries that were never delivered.
\<close>

definition XPENDING :: "nat \<Rightarrow> nat \<Rightarrow> vk_stream \<Rightarrow> (nat \<times> WorkerID) list" where
  "XPENDING start count st = take count (filter (\<lambda>p. start < fst p) (pel st))"

definition XAUTOCLAIM :: "WorkerID \<Rightarrow> nat \<Rightarrow> vk_stream \<Rightarrow> vk_entry list \<times> vk_stream" where
  "XAUTOCLAIM worker count st =
    (let picked = map fst (take count (pel st));
         found = List.map_filter (\<lambda>i. XRANGE i st) picked
     in (found,
         st\<lparr>pel := List.map_filter (\<lambda>(i, w). if i \<in> set picked
              then (if XRANGE i st = None then None else Some (i, worker)) else Some (i, w)) (pel st)\<rparr>))"

definition XREADGROUP :: "WorkerID \<Rightarrow> nat \<Rightarrow> vk_stream \<Rightarrow> vk_entry list \<times> vk_stream" where
  "XREADGROUP worker count st =
    (let new = take count (filter (\<lambda>e. delivered st < e_id e) (entries st))
     in (new, st\<lparr>pel := pel st @ map (\<lambda>e. (e_id e, worker)) new,
                 delivered := (if new = [] then delivered st else e_id (last new))\<rparr>))"

section \<open>The scripts\<close>

text \<open>The error a script stops with when it computes with a field that is not there.\<close>

abbreviation script_error :: qerror where
  "script_error \<equiv> ErrDriver ''script''"

abbreviation LEASELOST :: qerror where
  "LEASELOST \<equiv> ErrDriver ''LEASELOST''"

definition num0 :: "int option \<Rightarrow> int" where
  "num0 x = (case x of None \<Rightarrow> 0 | Some n \<Rightarrow> n)"

definition set_hash :: "string \<Rightarrow> vk_hash \<Rightarrow> vk \<Rightarrow> vk" where
  "set_hash m h s = s\<lparr>wu := (wu s)(m := h)\<rparr>"

definition luaEnqueue :: "string \<Rightarrow> string \<Rightarrow> int \<Rightarrow> int \<Rightarrow> int \<Rightarrow> int \<Rightarrow> vk \<Rightarrow> int result \<times> vk" where
  "luaEnqueue m p cost T mw now s =
    (let st = XGROUP_CREATE (streams s m);
         h = wu s m;
         tot = num0 (h_pending_cost h) + cost;
         seq = num0 (h_next_seq h)
     in if \<not> int8 tot then (Err (ErrDriver ''overflow''), s\<lparr>streams := (streams s)(m \<mapsto> st)\<rparr>)
        else
          let h = h\<lparr>h_pending_cost := Some tot, h_next_seq := Some (seq + 1)\<rparr>;
              h = (if tot = cost
                   then h\<lparr>h_oldest_ms := Some now, h_flush_ms := Some (now + mw), h_threshold := Some T,
                          h_max_wait_ms := Some mw\<rparr>
                   else h);
              s = (set_hash m h s)\<lparr>streams := (streams s)(m \<mapsto> XADD seq now p cost st),
                     pending_tasks := pending_tasks s + 1\<rparr>
          in if h_claimed_by h = None
             then case h_flush_ms h of
                 None \<Rightarrow> (Err script_error, s)
               | Some fd \<Rightarrow>
                   if tot \<ge> T then (Ok seq, s\<lparr>z_eligible := ZADD m fd (z_eligible s), z_flush := ZREM m (z_flush s)\<rparr>)
                   else (Ok seq, s\<lparr>z_flush := ZADD m fd (z_flush s)\<rparr>)
             else (Ok seq, s))"

text \<open>\<open>None\<close> is the empty reply.\<close>

definition luaClaim :: "WorkerID \<Rightarrow> LeaseToken \<Rightarrow> int \<Rightarrow> int \<Rightarrow> vk \<Rightarrow> string option \<times> vk" where
  "luaClaim worker tok leaseMs now s =
    (case ZPOPMIN (z_eligible s) of
      None \<Rightarrow> (None, s)
    | Some (m, z) \<Rightarrow>
        (Some m,
         (set_hash m ((wu s m)\<lparr>h_claimed_by := Some worker, h_lease_token := Some tok, h_lease_ms := Some leaseMs,
             h_lease_exp := Some (now + leaseMs)\<rparr>) s)
           \<lparr>z_eligible := z, z_leases := ZADD m (now + leaseMs) (z_leases s)\<rparr>))"

text \<open>
  The scan of \<open>luaAck\<close> over the pending entries. One page: whether the scan is past the prefix, the last ID
  seen, the stream, and the cost and number of the entries acknowledged so far.
\<close>

fun ack_page :: "int \<Rightarrow> (nat \<times> WorkerID) list \<Rightarrow> nat \<Rightarrow> vk_stream \<Rightarrow> int \<Rightarrow> int \<Rightarrow> bool \<times> nat \<times> vk_stream \<times> int \<times> int" where
  "ack_page through [] start st c n = (False, start, st, c, n)"
| "ack_page through ((i, w) # ps) start st c n =
    (case XRANGE i st of
      Some e \<Rightarrow>
        if e_seq e > through then (True, i, st, c, n)
        else ack_page through ps i (XDEL i (XACK i st)) (c + e_c e) (n + 1)
    | None \<Rightarrow> ack_page through ps i (XACK i st) c n)"

definition page :: nat where
  "page = 256"

lemma ack_page_start:
  "ack_page through ps start st c n = (False, start', st', c', n') \<Longrightarrow> start' = (if ps = [] then start else fst (last ps))"
  by (induction through ps start st c n rule: ack_page.induct) (auto split: option.splits if_splits)

lemma ack_page_pel:
  "ack_page through ps start st c n = (d, start', st', c', n') \<Longrightarrow> set (pel st') \<subseteq> set (pel st) \<and> length (filter P (pel st')) \<le> length (filter P (pel st))"
proof (induction through ps start st c n arbitrary: start' rule: ack_page.induct)
  case (2 through i w ps start st c n)
  have sub: "length (filter P (filter Q xs)) \<le> length (filter P xs)" for Q and xs :: "(nat \<times> WorkerID) list"
    by (induction xs) auto
  show ?case
  proof (cases "XRANGE i st")
    case None
    with 2 sub [of "\<lambda>p. fst p \<noteq> i" "pel st"] show ?thesis by (fastforce simp: XACK_def)
  next
    case (Some e)
    with 2 sub [of "\<lambda>p. fst p \<noteq> i" "pel st"] show ?thesis by (fastforce simp: XACK_def XDEL_def split: if_splits)
  qed
qed simp

lemma ack_page_decreases:
  assumes "XPENDING start page st \<noteq> []" and "ack_page through (XPENDING start page st) start st c n = (False, start', st', c', n')"
  shows "length (filter (\<lambda>p. start' < fst p) (pel st')) < length (filter (\<lambda>p. start < fst p) (pel st))"
proof -
  let ?pend = "XPENDING start page st"
  have mem: "last ?pend \<in> set (filter (\<lambda>p. start < fst p) (pel st))"
    using assms(1) last_in_set [of ?pend] by (metis XPENDING_def in_set_takeD)
  have start': "start' = fst (last ?pend)" using ack_page_start [OF assms(2)] assms(1) by simp
  with mem have "start < start'" by simp
  then have "filter (\<lambda>p. start' < fst p) (pel st) = filter (\<lambda>p. start' < fst p) (filter (\<lambda>p. start < fst p) (pel st))"
    by (auto simp: filter_filter intro: filter_cong)
  moreover have "length (filter (\<lambda>p. start' < fst p) (filter (\<lambda>p. start < fst p) (pel st)))
      < length (filter (\<lambda>p. start < fst p) (pel st))"
    using mem start' by (intro length_filter_less) auto
  moreover have "length (filter (\<lambda>p. start' < fst p) (pel st')) \<le> length (filter (\<lambda>p. start' < fst p) (pel st))"
    using ack_page_pel [OF assms(2)] by blast
  ultimately show ?thesis by simp
qed

function (sequential) ack_scan :: "int \<Rightarrow> nat \<Rightarrow> vk_stream \<Rightarrow> int \<Rightarrow> int \<Rightarrow> vk_stream \<times> int \<times> int" where
  "ack_scan through start st c n =
    (let pend = XPENDING start page st
     in if pend = [] then (st, c, n)
        else case ack_page through pend start st c n of
            (d, start', st', c', n') \<Rightarrow>
              if d \<or> length pend < page then (st', c', n') else ack_scan through start' st' c' n')"
  by pat_completeness auto
termination
proof (relation "measure (\<lambda>(through, start, st, c, n). length (filter (\<lambda>p. start < fst p) (pel st)))", goal_cases)
  case (2 through start st c n pend d y start' ya st' yb c' n')
  then have "ack_page through (XPENDING start page st) start st c n = (False, start', st', c', n')"
    and "XPENDING start page st \<noteq> []" by simp_all
  then show ?case using ack_page_decreases by simp
qed simp

declare ack_scan.simps [simp del]

text \<open>The rest of the scripts share how a unit is removed and how a free unit is indexed.\<close>

definition tombstone :: "string \<Rightarrow> vk \<Rightarrow> vk" where
  "tombstone m s = s\<lparr>wu := (wu s)(m := no_hash), streams := (streams s)(m := None), z_eligible := ZREM m (z_eligible s),
    z_flush := ZREM m (z_flush s)\<rparr>"

definition unlease :: "vk_hash \<Rightarrow> vk_hash" where
  "unlease h = h\<lparr>h_claimed_by := None, h_lease_token := None, h_lease_exp := None\<rparr>"

definition index_free :: "string \<Rightarrow> bool \<Rightarrow> int \<Rightarrow> vk \<Rightarrow> vk" where
  "index_free m due flush s =
    (if due then s\<lparr>z_eligible := ZADD m flush (z_eligible s)\<rparr> else s\<lparr>z_flush := ZADD m flush (z_flush s)\<rparr>)"

definition luaAck :: "string \<Rightarrow> LeaseToken \<Rightarrow> int \<Rightarrow> int \<Rightarrow> vk \<Rightarrow> int result \<times> vk" where
  "luaAck m tok through now s =
    (if h_lease_token (wu s m) \<noteq> Some tok then (Err LEASELOST, s)
     else case streams s m of
         None \<Rightarrow> (Err script_error, s)
       | Some st \<Rightarrow>
           (case ack_scan through 0 st 0 0 of (st, acked_cost, acked_n) \<Rightarrow>
             let tot = num0 (h_pending_cost (wu s m)) - acked_cost;
                 h = (wu s m)\<lparr>h_pending_cost := Some tot, h_attempts := Some 0\<rparr>;
                 s = (set_hash m h s)\<lparr>streams := (streams s)(m \<mapsto> st), pending_tasks := pending_tasks s - acked_n\<rparr>
             in case stream_head (Some st) of
                 None \<Rightarrow> (Ok 0, (tombstone m s)\<lparr>z_leases := ZREM m (z_leases s)\<rparr>)
               | Some e \<Rightarrow>
                   (case (h_threshold h, h_max_wait_ms h) of
                     (Some T, Some mw) \<Rightarrow>
                       let flush = e_ts e + mw;
                           h = h\<lparr>h_oldest_ms := Some (e_ts e), h_flush_ms := Some flush\<rparr>
                       in if tot \<ge> T \<or> flush \<le> now then
                            (case h_lease_ms h of
                              None \<Rightarrow> (Err script_error, set_hash m h s)
                            | Some lms \<Rightarrow>
                                (Ok 1, (set_hash m (h\<lparr>h_lease_exp := Some (now + lms)\<rparr>) s)
                                  \<lparr>z_leases := ZADD m (now + lms) (z_leases s)\<rparr>))
                          else (Ok 0, (set_hash m (unlease h) s)
                                 \<lparr>z_leases := ZREM m (z_leases s), z_flush := ZADD m flush (z_flush s)\<rparr>)
                   | _ \<Rightarrow> (Err script_error, s))))"

definition luaRelease :: "string \<Rightarrow> LeaseToken \<Rightarrow> int \<Rightarrow> vk \<Rightarrow> int result \<times> vk" where
  "luaRelease m tok now s =
    (if h_lease_token (wu s m) \<noteq> Some tok then (Err LEASELOST, s)
     else
       let h = unlease (wu s m);
           s = (set_hash m h s)\<lparr>z_leases := ZREM m (z_leases s)\<rparr>
       in case stream_head (streams s m) of
           None \<Rightarrow> (Ok 1, tombstone m s)
         | Some e \<Rightarrow>
             (case (h_pending_cost h, h_threshold h, h_flush_ms h) of
               (Some tot, Some T, Some flush) \<Rightarrow> (Ok 1, index_free m (tot \<ge> T \<or> flush \<le> now) flush s)
             | _ \<Rightarrow> (Err script_error, s)))"

definition luaHeartbeat :: "string \<Rightarrow> LeaseToken \<Rightarrow> int \<Rightarrow> int \<Rightarrow> vk \<Rightarrow> int result \<times> vk" where
  "luaHeartbeat m tok ext now s =
    (if h_lease_token (wu s m) \<noteq> Some tok then (Err LEASELOST, s)
     else (Ok 1, (set_hash m ((wu s m)\<lparr>h_lease_exp := Some (now + ext)\<rparr>) s)
             \<lparr>z_leases := ZADD m (now + ext) (z_leases s)\<rparr>))"

text \<open>\<open>luaFail\<close>, first what it does to a head at the retry cap, then the release that always follows.\<close>

definition fail_head :: "string \<Rightarrow> int \<Rightarrow> string \<Rightarrow> int \<Rightarrow> vk \<Rightarrow> vk" where
  "fail_head m fseq reason maxTries s =
    (let a = num0 (h_attempts (wu s m)) + 1;
         h = (wu s m)\<lparr>h_attempts := Some a\<rparr>;
         s = set_hash m h s
     in case (streams s m, stream_head (streams s m)) of
         (Some st, Some e) \<Rightarrow>
           if a \<ge> maxTries \<and> e_seq e = fseq
           then (set_hash m (h\<lparr>h_pending_cost := Some (num0 (h_pending_cost h) - e_c e), h_attempts := Some 0\<rparr>) s)
             \<lparr>vk_dlq := vk_dlq s @ [\<lparr>v_member = m, v_seq = fseq, v_p = e_p e, v_c = e_c e, v_reason = reason\<rparr>],
              streams := (streams s)(m \<mapsto> XDEL (e_id e) (XACK (e_id e) st)), pending_tasks := pending_tasks s - 1\<rparr>
           else s
       | _ \<Rightarrow> s)"

definition luaFail :: "string \<Rightarrow> LeaseToken \<Rightarrow> int \<Rightarrow> string \<Rightarrow> int \<Rightarrow> int \<Rightarrow> vk \<Rightarrow> int result \<times> vk" where
  "luaFail m tok fseq reason now maxTries s =
    (if h_lease_token (wu s m) \<noteq> Some tok then (Err LEASELOST, s)
     else
       let s = fail_head m fseq reason maxTries s;
           h = unlease (wu s m);
           s = (set_hash m h s)\<lparr>z_leases := ZREM m (z_leases s)\<rparr>
       in case stream_head (streams s m) of
           None \<Rightarrow> (Ok 1, tombstone m s)
         | Some e \<Rightarrow>
             (case h_max_wait_ms h of
               None \<Rightarrow> (Err script_error, s)
             | Some mw \<Rightarrow>
                 let flush = e_ts e + mw;
                     s = set_hash m (h\<lparr>h_oldest_ms := Some (e_ts e), h_flush_ms := Some flush\<rparr>) s
                 in case (h_pending_cost h, h_threshold h) of
                     (Some tot, Some T) \<Rightarrow> (Ok 1, index_free m (tot \<ge> T \<or> flush \<le> now) flush s)
                   | _ \<Rightarrow> (Err script_error, s)))"

definition reclaim :: "int \<Rightarrow> string \<Rightarrow> vk \<Rightarrow> vk" where
  "reclaim now m s =
    (let h = unlease (wu s m);
         tot = num0 (h_pending_cost h); T = num0 (h_threshold h); flush = num0 (h_flush_ms h)
     in index_free m (tot \<ge> T \<or> flush \<le> now) flush ((set_hash m h s)\<lparr>z_leases := ZREM m (z_leases s)\<rparr>))"

definition promote :: "string \<Rightarrow> vk \<Rightarrow> vk" where
  "promote m s =
    (case map_of (z_flush s) m of
      None \<Rightarrow> s
    | Some sc \<Rightarrow> s\<lparr>z_flush := ZREM m (z_flush s), z_eligible := ZADD m sc (z_eligible s)\<rparr>)"

definition luaReap :: "int \<Rightarrow> vk \<Rightarrow> (int \<times> int) \<times> vk" where
  "luaReap now s =
    (let lost = ZRANGEBYSCORE 0 now (z_leases s);
         s = fold (reclaim now) lost s;
         due = ZRANGEBYSCORE 0 now (z_flush s);
         s = fold promote due s
     in ((int (length lost), int (length due)), s))"


section \<open>The driver\<close>

definition member :: "WorkUnitKey \<Rightarrow> string" where
  "member k = Workspace k @ ''|'' @ Session k @ ''|'' @ Peer k"

definition splitMember :: "string \<Rightarrow> WorkUnitKey" where
  "splitMember m =
    (let parts = SplitN (CHR ''|'') 3 m;
         parts = parts @ replicate (3 - length parts) ''''
     in \<lparr>Workspace = parts ! 0, Session = parts ! 1, Peer = parts ! 2\<rparr>)"

text \<open>\<open>strings.Contains\<close> and the mapping of the script's error reply onto the contract's error.\<close>

definition Contains :: "string \<Rightarrow> string \<Rightarrow> bool" where
  "Contains s p = list_ex (\<lambda>i. take (length p) (drop i s) = p) [0..<Suc (length s)]"

fun leaseLost :: "qerror \<Rightarrow> qerror" where
  "leaseLost (ErrDriver t) = (if Contains t ''LEASELOST'' then ErrLeaseLost else ErrDriver t)"
| "leaseLost x = x"

text \<open>
  A command or script over a connection: it works, it fails before it reaches the primary, or it runs and
  the reply is lost. What a call reads: the clock, the clock in milliseconds as sent to the primary, the
  value drawn from the token counter, and the state of the connection for each of its commands.
\<close>

datatype link = Up | Down qerror | Lost qerror

record vk_env =
  vk_time :: time
  vk_ms :: int
  vk_tick :: int
  vk_link :: link
  claim_link :: link
  read_link :: link

text \<open>The options of \<open>New\<close> that every call uses.\<close>

record vk_opts =
  v_defT :: int
  v_defWait :: duration
  v_maxTries :: int

definition trip :: "link \<Rightarrow> ('s \<Rightarrow> 'a result \<times> 's) \<Rightarrow> 's \<Rightarrow> 'a result \<times> 's" where
  "trip l f s = (case l of Up \<Rightarrow> f s | Down x \<Rightarrow> (Err x, s) | Lost x \<Rightarrow> (Err x, snd (f s)))"

definition map_err :: "(qerror \<Rightarrow> qerror) \<Rightarrow> ('a \<Rightarrow> 'b) \<Rightarrow> 'a result \<Rightarrow> 'b result" where
  "map_err g f r = (case r of Ok x \<Rightarrow> Ok (f x) | Err x \<Rightarrow> Err (g x) | Panic \<Rightarrow> Panic)"

definition vk_Enqueue :: "vk_opts \<Rightarrow> vk_env \<Rightarrow> WorkUnitKey \<Rightarrow> string \<Rightarrow> int \<Rightarrow> vk \<Rightarrow> int result \<times> vk" where
  "vk_Enqueue opts e k payload cost =
    trip (vk_link e) (luaEnqueue (member k) payload cost (v_defT opts) (go_div (v_defWait opts) 1000000) (vk_ms e))"

definition vk_token :: "int \<Rightarrow> WorkerID \<Rightarrow> LeaseToken" where
  "vk_token n worker = fmt_d n @ ''-'' @ worker"

definition vk_Claim :: "vk_env \<Rightarrow> WorkerID \<Rightarrow> duration \<Rightarrow> vk \<Rightarrow> ClaimedUnit option result \<times> vk" where
  "vk_Claim e worker lease s =
    (let tok = vk_token (vk_tick e) worker
     in case trip (vk_link e) (\<lambda>s. case luaClaim worker tok (go_div lease 1000000) (vk_ms e) s of (m, s) \<Rightarrow> (Ok m, s)) s of
         (Ok None, s) \<Rightarrow> (Ok None, s)
       | (Ok (Some m), s) \<Rightarrow>
           (Ok (Some \<lparr>Key = splitMember m, Worker = worker, Lease = tok, LeaseTill = vk_time e + lease\<rparr>), s)
       | (Err x, s) \<Rightarrow> (Err x, s)
       | (Panic, s) \<Rightarrow> (Panic, s))"

definition entryToTask :: "vk_entry \<Rightarrow> Task" where
  "entryToTask e = \<lparr>Seq = e_seq e, Payload = e_p e, Cost = e_c e\<rparr>"

text \<open>
  The two reads of \<open>Drain\<close>. Errors of either are not looked at, so a lost reply reads as no entries; \<open>XAUTOCLAIM\<close>
  refuses a count that is not positive.
\<close>

definition read_stream :: "link \<Rightarrow> (vk_stream \<Rightarrow> vk_entry list \<times> vk_stream) \<Rightarrow> string \<Rightarrow> vk \<Rightarrow> vk_entry list \<times> vk" where
  "read_stream l f m s =
    (case streams s m of
      None \<Rightarrow> ([], s)
    | Some st \<Rightarrow>
        (case l of
          Up \<Rightarrow> (case f st of (es, st) \<Rightarrow> (es, s\<lparr>streams := (streams s)(m \<mapsto> st)\<rparr>))
        | Down _ \<Rightarrow> ([], s)
        | Lost _ \<Rightarrow> (case f st of (es, st) \<Rightarrow> ([], s\<lparr>streams := (streams s)(m \<mapsto> st)\<rparr>))))"

text \<open>
  The three commands of \<open>Drain\<close>: reading the token, taking over the entries that were delivered before, and
  reading new ones into what is left of the batch. Each is atomic; \<open>vk_Drain\<close> is the call in which nothing comes
  between them.
\<close>

definition drain_check :: "vk_env \<Rightarrow> ClaimedUnit \<Rightarrow> vk \<Rightarrow> bool" where
  "drain_check e c s \<longleftrightarrow> \<not> (vk_link e \<noteq> Up \<or> h_lease_token (wu s (member (Key c))) \<noteq> Some (Lease c))"

definition drain_claim :: "vk_env \<Rightarrow> ClaimedUnit \<Rightarrow> int \<Rightarrow> vk \<Rightarrow> vk_entry list \<times> vk" where
  "drain_claim e c n s =
    (if n \<le> 0 then ([], s) else read_stream (claim_link e) (XAUTOCLAIM (Worker c) (nat n)) (member (Key c)) s)"

definition drain_read :: "vk_env \<Rightarrow> ClaimedUnit \<Rightarrow> int \<Rightarrow> nat \<Rightarrow> vk \<Rightarrow> vk_entry list \<times> vk" where
  "drain_read e c n got s =
    (if int got < n then read_stream (read_link e) (XREADGROUP (Worker c) (nat (n - int got))) (member (Key c)) s else ([], s))"

definition drained :: "vk_entry list \<Rightarrow> Task list" where
  "drained es = sort_key Seq (map entryToTask es)"

definition vk_Drain :: "vk_env \<Rightarrow> ClaimedUnit \<Rightarrow> int \<Rightarrow> vk \<Rightarrow> Task list result \<times> vk" where
  "vk_Drain e c n s =
    (if \<not> drain_check e c s then (Err ErrLeaseLost, s)
     else
       let (es1, s) = drain_claim e c n s;
           (es2, s) = drain_read e c n (length es1) s
       in (Ok (drained (es1 @ es2)), s))"

lemmas vk_Drain_defs = vk_Drain_def drain_check_def drain_claim_def drain_read_def drained_def

definition vk_Ack :: "vk_env \<Rightarrow> ClaimedUnit \<Rightarrow> int \<Rightarrow> vk \<Rightarrow> bool result \<times> vk" where
  "vk_Ack e c through s =
    (case trip (vk_link e) (luaAck (member (Key c)) (Lease c) through (vk_ms e)) s of
      (r, s) \<Rightarrow> (map_err leaseLost (\<lambda>held. held = 1) r, s))"

definition vk_Release :: "vk_env \<Rightarrow> ClaimedUnit \<Rightarrow> vk \<Rightarrow> unit result \<times> vk" where
  "vk_Release e c s =
    (case trip (vk_link e) (luaRelease (member (Key c)) (Lease c) (vk_ms e)) s of
      (r, s) \<Rightarrow> (map_err leaseLost (\<lambda>_. ()) r, s))"

definition vk_Heartbeat :: "vk_env \<Rightarrow> ClaimedUnit \<Rightarrow> duration \<Rightarrow> vk \<Rightarrow> unit result \<times> vk" where
  "vk_Heartbeat e c ext s =
    (case trip (vk_link e) (luaHeartbeat (member (Key c)) (Lease c) (go_div ext 1000000) (vk_ms e)) s of
      (r, s) \<Rightarrow> (map_err leaseLost (\<lambda>_. ()) r, s))"

definition vk_Fail :: "vk_opts \<Rightarrow> vk_env \<Rightarrow> ClaimedUnit \<Rightarrow> int \<Rightarrow> string \<Rightarrow> vk \<Rightarrow> unit result \<times> vk" where
  "vk_Fail opts e c seq reason s =
    (case trip (vk_link e) (luaFail (member (Key c)) (Lease c) seq reason (vk_ms e) (v_maxTries opts)) s of
      (r, s) \<Rightarrow> (map_err leaseLost (\<lambda>_. ()) r, s))"

text \<open>\<open>UnixMilli\<close> rounds down.\<close>

definition vk_ReapExpired :: "vk_env \<Rightarrow> time \<Rightarrow> vk \<Rightarrow> (int \<times> int) result \<times> vk" where
  "vk_ReapExpired e now = trip (vk_link e) (\<lambda>s. case luaReap (now div 1000000) s of (r, s) \<Rightarrow> (Ok r, s))"

definition vk_Backend :: "vk_opts \<Rightarrow> (vk_env, vk) Backend" where
  "vk_Backend opts =
    \<lparr> be_Enqueue = vk_Enqueue opts, be_Claim = vk_Claim, be_Drain = vk_Drain, be_Ack = vk_Ack,
      be_Release = vk_Release, be_Heartbeat = vk_Heartbeat, be_Fail = vk_Fail opts, be_ReapExpired = vk_ReapExpired \<rparr>"

text \<open>
  The depth of one primary; the replies of a failed round trip read as zero. The oldest below-threshold
  unit is looked for among the units of \<open>pending_flush\<close> with score 0.
\<close>

definition vk_Stats :: "vk_opts \<Rightarrow> vk_env \<Rightarrow> vk \<Rightarrow> Stats" where
  "vk_Stats opts e s =
    (if vk_link e \<noteq> Up
     then \<lparr>TotalUnits = 0, EligibleUnits = 0, PendingTasks = 0, DeadLetters = 0, OldestBelowT = 0\<rparr>
     else
       \<lparr> TotalUnits = int (length (z_eligible s)) + int (length (z_flush s)) + int (length (z_leases s)),
         EligibleUnits = int (length (z_eligible s)),
         PendingTasks = pending_tasks s,
         DeadLetters = int (length (vk_dlq s)),
         OldestBelowT =
           (case filter (\<lambda>(m, sc). 0 \<le> sc \<and> sc \<le> 0) (zsorted (z_flush s)) of
             [] \<Rightarrow> 0
           | (m, sc) # _ \<Rightarrow> (vk_ms e - (sc - go_div (v_defWait opts) 1000000)) * 1000000) \<rparr>)"

fun vk_Stats_all :: "vk_opts \<Rightarrow> (nat \<Rightarrow> vk_env) \<Rightarrow> nat \<Rightarrow> vk list \<Rightarrow> Stats \<Rightarrow> Stats" where
  "vk_Stats_all opts e i [] st = st"
| "vk_Stats_all opts e i (s # ss) st =
    (let x = vk_Stats opts (e i) s
     in vk_Stats_all opts e (Suc i) ss
          \<lparr> TotalUnits = TotalUnits st + TotalUnits x, EligibleUnits = EligibleUnits st + EligibleUnits x,
            PendingTasks = PendingTasks st + PendingTasks x, DeadLetters = DeadLetters st + DeadLetters x,
            OldestBelowT = max (OldestBelowT st) (OldestBelowT x) \<rparr>)"

fun vk_Reset :: "(nat \<Rightarrow> vk_env) \<Rightarrow> nat \<Rightarrow> vk list \<Rightarrow> vk list \<Rightarrow> unit result \<times> vk list" where
  "vk_Reset e i flushed [] = (Ok (), flushed)"
| "vk_Reset e i flushed (s # ss) =
    (case vk_link (e i) of
      Up \<Rightarrow> vk_Reset e (Suc i) (flushed @ [vk_empty]) ss
    | Down x \<Rightarrow> (Err x, flushed @ s # ss)
    | Lost x \<Rightarrow> (Err x, flushed @ vk_empty # ss))"

text \<open>
  The driver of one process: its primaries and its token counter, which every claim draws from, and \<open>New\<close>,
  which dials every address.
\<close>

record valkey =
  v_opts :: vk_opts
  v_shards :: "vk cluster"
  v_tokens :: int

definition valkey_Claim :: "(nat \<Rightarrow> vk_env) \<Rightarrow> WorkerID \<Rightarrow> duration \<Rightarrow> valkey \<Rightarrow> ClaimedUnit option result \<times> valkey" where
  "valkey_Claim e worker lease b =
    (let n = i64 (v_tokens b + 1)
     in case sh_Claim (vk_Backend (v_opts b)) (\<lambda>i. (e i)\<lparr>vk_tick := n\<rparr>) worker lease (v_shards b) of
         (r, cl) \<Rightarrow> (r, b\<lparr>v_tokens := n, v_shards := cl\<rparr>))"

fun dial :: "(string \<Rightarrow> vk result) \<Rightarrow> string list \<Rightarrow> vk list \<Rightarrow> vk list result" where
  "dial connect [] cs = Ok cs"
| "dial connect (a # as) cs =
    (case connect a of Ok c \<Rightarrow> dial connect as (cs @ [c]) | Err x \<Rightarrow> Err x | Panic \<Rightarrow> Panic)"

definition valkey_New :: "(string \<Rightarrow> vk result) \<Rightarrow> string list \<Rightarrow> int \<Rightarrow> duration \<Rightarrow> int \<Rightarrow> valkey result" where
  "valkey_New connect addrs T wait tries =
    (if addrs = [] then Err ErrNoAddr
     else
       let tries = (if tries \<le> 0 then 3 else tries)
       in case dial connect addrs [] of
           Ok cs \<Rightarrow> Ok \<lparr>v_opts = \<lparr>v_defT = T, v_defWait = wait, v_maxTries = tries\<rparr>,
                       v_shards = \<lparr>shards = cs, rr = 0\<rparr>, v_tokens = 0\<rparr>
         | Err x \<Rightarrow> Err x
         | Panic \<Rightarrow> Panic)"

end
