(* ===== verification/Valkey_Streams.thy ===== *)
theory Valkey_Streams
  imports Valkey
begin

text \<open>
  The data of a Valkey primary: members and keys, sorted sets as finite maps, well-formed streams with
  what each command does to them, and the paged scan of \<open>luaAck\<close> against a one-pass description of what it
  removes.
\<close>

section \<open>Members\<close>

definition bar_free :: "WorkUnitKey \<Rightarrow> bool" where
  "bar_free k \<longleftrightarrow> CHR ''|'' \<notin> set (Workspace k) \<and> CHR ''|'' \<notin> set (Session k)"

lemma splitMember_member: "bar_free k \<Longrightarrow> splitMember (member k) = k"
proof -
  assume b: "bar_free k"
  have "SplitN (CHR ''|'') 3 (member k) = [Workspace k, Session k, Peer k]"
    unfolding member_def numeral_3_eq_3 append_Cons append_Nil
    using b SplitN_first [of "CHR ''|''" "Workspace k" "Suc 0"] SplitN_first [of "CHR ''|''" "Session k" 0]
    by (simp only: bar_free_def SplitN.simps(2) simp_thms)
  then show ?thesis by (simp add: splitMember_def Let_def)
qed

lemma SplitN_cases:
  obtains "CHR ''|'' \<notin> set m" "SplitN (CHR ''|'') (Suc (Suc n)) m = [m]"
  | x y where "m = x @ CHR ''|'' # y" "CHR ''|'' \<notin> set x"
      "SplitN (CHR ''|'') (Suc (Suc n)) m = x # SplitN (CHR ''|'') (Suc n) y"
proof (cases "CHR ''|'' \<in> set m")
  case True
  then obtain x y where "m = x @ CHR ''|'' # y" "CHR ''|'' \<notin> set x" using split_list_first by fastforce
  with that(2) SplitN_first show ?thesis by blast
next
  case False
  then have "dropWhile (\<lambda>c. c \<noteq> CHR ''|'') m = []" by auto
  with False that(1) show ?thesis by simp
qed

definition is_member :: "string \<Rightarrow> bool" where
  "is_member m \<longleftrightarrow> member (splitMember m) = m"

text \<open>Every key, also one with bars, shares its member with exactly one key that has none.\<close>

lemma member_canonical: "is_member (member k)" "bar_free (splitMember (member k))"
proof -
  obtain x y where xy: "Workspace k @ CHR ''|'' # Session k @ CHR ''|'' # Peer k = x @ CHR ''|'' # y" "CHR ''|'' \<notin> set x"
    by (rule SplitN_cases [of "member k" 0]) (auto simp: member_def)
  have "count_list y (CHR ''|'') \<noteq> 0"
    using arg_cong [OF xy(1), of "\<lambda>s. count_list s (CHR ''|'')"] xy(2) by (simp add: count_notin)
  then have "CHR ''|'' \<in> set y" using count_notin by fastforce
  then obtain y1 y2 where y: "y = y1 @ CHR ''|'' # y2" "CHR ''|'' \<notin> set y1" using split_list_first by fastforce
  let ?k = "\<lparr>Workspace = x, Session = y1, Peer = y2\<rparr>"
  have m: "member k = member ?k" and b: "bar_free ?k" using xy y by (simp_all add: member_def bar_free_def)
  show "is_member (member k)" "bar_free (splitMember (member k))"
    unfolding m is_member_def splitMember_member [OF b] using b by simp_all
qed

lemma member_inj: "bar_free k \<Longrightarrow> bar_free k' \<Longrightarrow> member k = member k' \<longleftrightarrow> k = k'"
  by (metis splitMember_member)

lemma bar_free_split: "is_member m \<Longrightarrow> bar_free (splitMember m)"
  by (metis is_member_def member_canonical(2))

lemma split_eq_iff: "is_member m \<Longrightarrow> bar_free k \<Longrightarrow> splitMember m = k \<longleftrightarrow> m = member k"
  by (metis is_member_def splitMember_member)

section \<open>Sorted sets\<close>

lemma map_of_ZADD [simp]: "map_of (ZADD m sc z) = (map_of z)(m \<mapsto> sc)"
  by (simp add: ZADD_def update_conv')

lemma map_of_ZREM [simp]: "map_of (ZREM m z) = (map_of z)(m := None)"
  by (simp add: ZREM_def delete_conv')

lemma distinct_zset [simp]:
  "distinct (map fst z) \<Longrightarrow> distinct (map fst (ZADD m sc z))"
  "distinct (map fst z) \<Longrightarrow> distinct (map fst (ZREM m z))"
  by (simp_all add: ZADD_def ZREM_def distinct_update distinct_delete)

lemma set_zsorted [simp]: "set (zsorted z) = set z"
  by (simp add: zsorted_def)

lemma ZPOPMIN_Some:
  assumes "ZPOPMIN z = Some (m, z')"
  shows "z' = ZREM m z" and "map_of z m \<noteq> None"
proof -
  from assms obtain sc r where z: "zsorted z = (m, sc) # r" and "z' = ZREM m z"
    by (auto simp: ZPOPMIN_def split: list.splits)
  then show "z' = ZREM m z" by simp
  have "(m, sc) \<in> set z" using arg_cong [OF z, of set] by auto
  then show "map_of z m \<noteq> None" using weak_map_of_SomeI by fastforce
qed

text \<open>The popped member has the least score, and the least name among those.\<close>

lemma ZPOPMIN_least:
  assumes "ZPOPMIN z = Some (m, z')"
  obtains sc where "(m, sc) \<in> set z" and "\<forall>(m', sc') \<in> set z. sc < sc' \<or> sc = sc' \<and> m \<le> m'"
proof -
  from assms obtain sc r where z: "zsorted z = (m, sc) # r" by (auto simp: ZPOPMIN_def split: list.splits)
  have "sorted (map (\<lambda>(m, sc). (sc, m)) (zsorted z))" by (simp add: zsorted_def)
  then have "\<forall>(m', sc') \<in> set (zsorted z). (sc, m) \<le> (sc', m')" using z by (auto simp: case_prod_beta)
  then have "\<forall>(m', sc') \<in> set z. sc < sc' \<or> sc = sc' \<and> m \<le> m'" by (auto simp: less_le)
  moreover have "(m, sc) \<in> set z" using arg_cong [OF z, of set] by auto
  ultimately show ?thesis using that by blast
qed

lemma ZPOPMIN_None: "ZPOPMIN z = None \<longleftrightarrow> z = []"
  by (auto simp: ZPOPMIN_def zsorted_def split: list.split)
    (metis empty_iff length_0_conv length_sort list.set(1))

lemma ZRANGEBYSCORE_set:
  assumes "distinct (map fst z)"
  shows "m \<in> set (ZRANGEBYSCORE lo hi z) \<longleftrightarrow> (\<exists>sc. map_of z m = Some sc \<and> lo \<le> sc \<and> sc \<le> hi)"
  using assms by (force simp: ZRANGEBYSCORE_def)

lemma ZRANGEBYSCORE_distinct:
  assumes "distinct (map fst z)"
  shows "distinct (ZRANGEBYSCORE lo hi z)"
proof -
  have "distinct (map fst (zsorted z))"
    using assms by (simp add: distinct_map) (simp add: zsorted_def)
  then show ?thesis unfolding ZRANGEBYSCORE_def by (rule distinct_map_filter)
qed


section \<open>Streams\<close>

text \<open>
  A well-formed stream: identifiers and sequence numbers ascend, costs are positive, and the pending list
  has exactly the entries that were delivered and are still there.
\<close>

definition stream_ok :: "vk_stream \<Rightarrow> bool" where
  "stream_ok st \<longleftrightarrow>
     sorted_wrt (\<lambda>e e'. e_id e < e_id e' \<and> e_seq e < e_seq e') (entries st) \<and>
     (\<forall>e \<in> set (entries st). 0 < e_id e \<and> e_id e \<le> last_id st \<and> 1 \<le> e_c e) \<and> delivered st \<le> last_id st \<and>
     map fst (pel st) = map e_id (takeWhile (\<lambda>e. e_id e \<le> delivered st) (entries st))"

text \<open>What an acknowledgement through \<open>th\<close> removes, in one pass.\<close>

definition ack_gone :: "int \<Rightarrow> vk_stream \<Rightarrow> vk_entry list" where
  "ack_gone th st = takeWhile (\<lambda>e. e_id e \<le> delivered st \<and> e_seq e \<le> th) (entries st)"

definition cut :: "nat \<Rightarrow> vk_stream \<Rightarrow> vk_stream" where
  "cut n st = st\<lparr>entries := drop n (entries st), pel := drop n (pel st)\<rparr>"

lemma cut_cut [simp]: "cut i (cut j st) = cut (i + j) st" "cut 0 st = st"
  by (simp_all add: cut_def)

lemma stream_ids: "stream_ok st \<Longrightarrow> distinct (map e_id (entries st))"
  by (auto simp: stream_ok_def distinct_map inj_on_def sorted_wrt_iff_nth_less distinct_conv_nth in_set_conv_nth)
    (metis nat_neq_iff)+

text \<open>The first pending entry is the first of the stream; dropping both is one step of the scan.\<close>

lemma first_pending:
  assumes "stream_ok st" and "pel st = (i, w) # ps"
  obtains e es where "entries st = e # es" and "e_id e = i" and "XRANGE i st = Some e"
    and "XDEL i (XACK i st) = cut 1 st" and "stream_ok (cut 1 st)"
proof -
  let ?D = "\<lambda>e. e_id e \<le> delivered st"
  from assms obtain e es where en: "entries st = e # es" and i: "e_id e = i" and d: "?D e"
    by (cases "entries st") (auto simp: stream_ok_def split: if_splits)
  have ps: "map fst ps = map e_id (takeWhile ?D es)" using assms en d by (simp add: stream_ok_def)
  have ne: "i \<notin> set (map e_id es)" using stream_ids [OF assms(1)] en i by auto
  have "i \<notin> set (map fst ps)" using ne ps set_takeWhileD by fastforce
  then have "filter (\<lambda>p. fst p \<noteq> i) ps = ps" by (auto simp: filter_id_conv)
  moreover have "filter (\<lambda>e. e_id e \<noteq> i) es = es" using ne by (auto simp: filter_id_conv)
  ultimately have "XDEL i (XACK i st) = cut 1 st" using assms(2) en i by (simp add: XDEL_def XACK_def cut_def)
  moreover have "stream_ok (cut 1 st)" using assms en ps by (simp add: stream_ok_def cut_def)
  moreover have "XRANGE i st = Some e" using en i by (simp add: XRANGE_def)
  ultimately show ?thesis using that en i by blast
qed

lemma stream_ok_cut:
  assumes "stream_ok st" and "n \<le> length (pel st)"
  shows "stream_ok (cut n st)"
  using assms
proof (induction n arbitrary: st)
  case (Suc n)
  then obtain i w ps where p: "pel st = (i, w) # ps" by (cases "pel st") auto
  from first_pending [OF Suc.prems(1) p] have "stream_ok (cut 1 st)" by metis
  moreover have "n \<le> length (pel (cut 1 st))" using Suc.prems(2) p by (simp add: cut_def)
  ultimately have "stream_ok (cut n (cut 1 st))" by (rule Suc.IH)
  then show ?case by simp
qed simp

lemma ack_gone_pel: "stream_ok st \<Longrightarrow> length (ack_gone th st) \<le> length (pel st)"
proof -
  assume "stream_ok st"
  then have "length (pel st) = length (takeWhile (\<lambda>e. e_id e \<le> delivered st) (entries st))"
    unfolding stream_ok_def by (metis length_map)
  moreover have "takeWhile (\<lambda>e. e_id e \<le> delivered st \<and> e_seq e \<le> th) xs
      = takeWhile (\<lambda>e. e_seq e \<le> th) (takeWhile (\<lambda>e. e_id e \<le> delivered st) xs)" for xs
    by (induction xs) auto
  ultimately show ?thesis unfolding ack_gone_def by (metis length_takeWhile_le)
qed

text \<open>One page of the scan: the entries of \<open>ack_gone\<close> among the first \<open>k\<close>.\<close>

lemma ack_page_eq:
  assumes "stream_ok st"
  shows "\<exists>start'. ack_page th (take k (pel st)) start st c n =
    (length (ack_gone th st) < min k (length (pel st)), start', cut (min k (length (ack_gone th st))) st,
     c + sum_list (map e_c (take k (ack_gone th st))), n + int (min k (length (ack_gone th st))))"
  using assms
proof (induction k arbitrary: st start c n)
  case (Suc k)
  show ?case
  proof (cases "pel st")
    case Nil
    with ack_gone_pel [OF Suc.prems, of th] show ?thesis by simp
  next
    case (Cons p ps)
    obtain i w where p: "p = (i, w)" by (cases p)
    from first_pending [OF Suc.prems Cons [unfolded p]] obtain e es where e: "entries st = e # es" "e_id e = i"
      "XRANGE i st = Some e" "XDEL i (XACK i st) = cut 1 st" "stream_ok (cut 1 st)" by metis
    have d: "i \<le> delivered st" using Suc.prems Cons p e(1,2) by (auto simp: stream_ok_def split: if_splits)
    show ?thesis
    proof (cases "e_seq e \<le> th")
      case False
      then show ?thesis using Cons p e by (simp add: ack_gone_def)
    next
      case True
      have g: "ack_gone th st = e # ack_gone th (cut 1 st)" using True d e(1,2) by (simp add: ack_gone_def cut_def)
      have ps: "pel (cut 1 st) = ps" using Cons by (simp add: cut_def)
      have "ack_page th (take (Suc k) (pel st)) start st c n = ack_page th (take k (pel (cut 1 st))) i (cut 1 st) (c + e_c e) (n + 1)"
        using True Cons p e(3,4) ps by simp
      with Suc.IH [OF e(5), of i "c + e_c e" "n + 1"] g Cons p ps show ?thesis by (simp add: algebra_simps)
    qed
  qed
qed simp


text \<open>
  The scan, started before the first pending entry, removes exactly \<open>ack_gone\<close> and adds up its costs: paging
  changes nothing.
\<close>

lemma takeWhile_split:
  "n \<le> length (takeWhile P xs) \<Longrightarrow> takeWhile P xs = take n (takeWhile P xs) @ takeWhile P (drop n xs)"
proof (induction n arbitrary: xs)
  case (Suc n)
  then show ?case by (cases xs) (auto split: if_splits)
qed simp

lemma pel_ids_ascend:
  assumes "stream_ok st"
  shows "sorted_wrt (\<lambda>p q. fst p < fst q) (pel st)" and "\<forall>p \<in> set (pel st). 0 < fst p"
proof -
  let ?es = "takeWhile (\<lambda>e. e_id e \<le> delivered st) (entries st)"
  have m: "map fst (pel st) = map e_id ?es" using assms by (simp add: stream_ok_def)
  have "sorted_wrt (\<lambda>e e'. e_id e < e_id e') (entries st)"
    using assms by (auto simp: stream_ok_def elim: sorted_wrt_mono_rel [rotated])
  then have "sorted_wrt (\<lambda>e e'. e_id e < e_id e') ?es" by (metis sorted_wrt_append takeWhile_dropWhile_id)
  then have "sorted_wrt (<) (map fst (pel st))" unfolding m by (simp add: sorted_wrt_map)
  then show "sorted_wrt (\<lambda>p q. fst p < fst q) (pel st)" by (simp add: sorted_wrt_map)
  have "\<forall>i \<in> set (map fst (pel st)). 0 < i" unfolding m using assms set_takeWhileD by (fastforce simp: stream_ok_def)
  then show "\<forall>p \<in> set (pel st). 0 < fst p" by simp
qed

lemma ack_scan_eq:
  assumes "stream_ok st" and "\<forall>p \<in> set (pel st). start < fst p"
  shows "ack_scan th start st c n =
    (cut (length (ack_gone th st)) st, c + sum_list (map e_c (ack_gone th st)), n + int (length (ack_gone th st)))"
  using assms
proof (induction "length (pel st)" arbitrary: st start c n rule: less_induct)
  case less
  let ?g = "ack_gone th st" and ?k = page
  have pend: "XPENDING start page st = take page (pel st)" using less.prems(2) by (simp add: XPENDING_def filter_id_conv)
  note le = ack_gone_pel [OF less.prems(1), of th]
  from ack_page_eq [OF less.prems(1), of th page start c n] obtain start' where
    pg: "ack_page th (take page (pel st)) start st c n =
      (length ?g < min page (length (pel st)), start', cut (min page (length ?g)) st, c + sum_list (map e_c (take page ?g)),
       n + int (min page (length ?g)))" by blast
  show ?case
  proof (cases "pel st = []")
    case True
    with le pend show ?thesis by (subst ack_scan.simps) (simp add: Let_def)
  next
    case False
    then have ne: "take page (pel st) \<noteq> []" by (simp add: page_def)
    show ?thesis
    proof (cases "length ?g < min page (length (pel st)) \<or> length (pel st) < page")
      case True
      with le have "min page (length ?g) = length ?g" "take page ?g = ?g" by auto
      with True pg pend ne show ?thesis by (subst ack_scan.simps) (auto simp: Let_def)
    next
      case False
      then have m: "page \<le> length ?g" "page \<le> length (pel st)" by auto
      let ?st = "cut page st"
      have ok: "stream_ok ?st" by (rule stream_ok_cut [OF less.prems(1) m(2)])
      have start': "start' = fst (last (take page (pel st)))" using ack_page_start [of th "take page (pel st)"] pg ne m by simp
      have "sorted_wrt (\<lambda>p q. fst p < fst q) (take page (pel st) @ drop page (pel st))"
        using pel_ids_ascend(1) [OF less.prems(1)] by simp
      then have gt: "\<forall>p \<in> set (pel ?st). start' < fst p"
        using last_in_set [OF ne] unfolding start' cut_def sorted_wrt_append by auto
      have g: "?g = take page ?g @ ack_gone th ?st"
        using takeWhile_split m(1) by (simp add: ack_gone_def cut_def)
      have "length (pel ?st) < length (pel st)" using m(2) by (simp add: cut_def page_def)
      from less.hyps [OF this ok gt] pg pend ne m
      have "ack_scan th start st c n = (cut (length (ack_gone th ?st)) ?st,
          c + sum_list (map e_c (take page ?g)) + sum_list (map e_c (ack_gone th ?st)), n + int page + int (length (ack_gone th ?st)))"
        by (subst ack_scan.simps) (simp add: Let_def)
      moreover have "length ?g = page + length (ack_gone th ?st)" using arg_cong [OF g, of length] m(1) by simp
      moreover have "sum_list (map e_c ?g) = sum_list (map e_c (take page ?g)) + sum_list (map e_c (ack_gone th ?st))"
        using arg_cong [OF g, of "\<lambda>x. sum_list (map e_c x)"] by simp
      ultimately show ?thesis by (simp add: algebra_simps)
    qed
  qed
qed


text \<open>Commands that change a stream.\<close>

lemma entries_split:
  assumes "stream_ok st"
  shows "entries st = takeWhile (\<lambda>e. e_id e \<le> delivered st) (entries st) @ filter (\<lambda>e. delivered st < e_id e) (entries st)"
proof -
  have "sorted_wrt (\<lambda>e e'. e_id e < e_id e') es \<Longrightarrow>
      es = takeWhile (\<lambda>e. e_id e \<le> d) es @ filter (\<lambda>e. d < e_id e) es" for es d
  proof (induction es)
    case (Cons a es)
    have "filter (\<lambda>e. d < e_id e) es = es" if "d < e_id a" using Cons.prems that by (fastforce simp: filter_id_conv)
    with Cons show ?case by auto
  qed simp
  moreover have "sorted_wrt (\<lambda>e e'. e_id e < e_id e') (entries st)"
    using assms by (auto simp: stream_ok_def elim: sorted_wrt_mono_rel [rotated])
  ultimately show ?thesis by blast
qed

lemma stream_ok_XADD:
  assumes "stream_ok st" and "\<forall>e \<in> set (entries st). e_seq e < seq" and "1 \<le> c"
  shows "stream_ok (XADD seq ts p c st)"
proof -
  have "takeWhile (\<lambda>e. e_id e \<le> delivered st) (entries st @ [\<lparr>e_id = Suc (last_id st), e_seq = seq, e_ts = ts, e_p = p, e_c = c\<rparr>])
      = takeWhile (\<lambda>e. e_id e \<le> delivered st) (entries st)"
    using assms(1) by (auto simp: takeWhile_tail stream_ok_def)
  with assms show ?thesis by (fastforce simp: stream_ok_def XADD_def sorted_wrt_append)
qed

lemma stream_ok_new: "stream_ok new_stream" "entries new_stream = []"
  by (simp_all add: stream_ok_def new_stream_def)

text \<open>Deleting the first entry, delivered or not.\<close>

lemma stream_ok_tl:
  assumes "stream_ok st" and "entries st = e # es"
  shows "stream_ok (XDEL (e_id e) (XACK (e_id e) st))" and "entries (XDEL (e_id e) (XACK (e_id e) st)) = es"
proof -
  let ?D = "\<lambda>e. e_id e \<le> delivered st"
  have ne: "e_id e \<notin> set (map e_id es)" using stream_ids [OF assms(1)] assms(2) by auto
  then have es: "filter (\<lambda>x. e_id x \<noteq> e_id e) es = es" unfolding filter_id_conv by (metis image_eqI set_map)
  then show en: "entries (XDEL (e_id e) (XACK (e_id e) st)) = es" using assms(2) by (simp add: XDEL_def XACK_def)
  have p: "map fst (filter (\<lambda>p. fst p \<noteq> e_id e) (pel st)) = filter (\<lambda>i. i \<noteq> e_id e) (map fst (pel st))"
    by (simp add: filter_map o_def)
  have "\<forall>x \<in> set es. e_id e < e_id x" using assms by (auto simp: stream_ok_def)
  then have "filter (\<lambda>i. i \<noteq> e_id e) (map e_id (takeWhile ?D (entries st))) = map e_id (takeWhile ?D es)"
    using assms(2) by (cases es) (auto simp: filter_id_conv dest!: set_takeWhileD)
  with p assms en show "stream_ok (XDEL (e_id e) (XACK (e_id e) st))" by (simp add: stream_ok_def XDEL_def XACK_def)
qed

text \<open>
  Taking over pending entries yields the first delivered ones; reading new entries the first of the others.
\<close>

lemma XRANGE_entry: "stream_ok st \<Longrightarrow> e \<in> set (entries st) \<Longrightarrow> XRANGE (e_id e) st = Some e"
proof -
  assume "stream_ok st" and e: "e \<in> set (entries st)"
  then have inj: "inj_on e_id (set (entries st))" using stream_ids distinct_map by blast
  from e have "XRANGE (e_id e) st \<noteq> None" by (auto simp: XRANGE_def find_None_iff)
  then obtain e' where e': "XRANGE (e_id e) st = Some e'" by blast
  then have "e' \<in> set (entries st)" "e_id e' = e_id e" unfolding XRANGE_def by (auto simp: find_Some_iff)
  with inj_onD [OF inj, of e' e] e e' show ?thesis by simp
qed

lemma XAUTOCLAIM_ok:
  assumes "stream_ok st" and "XAUTOCLAIM w n st = (es, st')"
  shows "es = take n (takeWhile (\<lambda>e. e_id e \<le> delivered st) (entries st))"
    and "stream_ok st'" and "entries st' = entries st" and "delivered st' = delivered st" and "last_id st' = last_id st"
proof -
  let ?ds = "takeWhile (\<lambda>e. e_id e \<le> delivered st) (entries st)"
  have m: "map fst (pel st) = map e_id ?ds" using assms(1) by (simp add: stream_ok_def)
  have found: "XRANGE (e_id e) st = Some e" if "e \<in> set ?ds" for e
    using XRANGE_entry [OF assms(1)] that set_takeWhileD by fast
  then have some: "\<exists>e. XRANGE i st = Some e" if "i \<in> set (map fst (pel st))" for i using that unfolding m by auto
  have "map fst (take n (pel st)) = map e_id (take n ?ds)" using m by (metis take_map)
  moreover have "List.map_filter (\<lambda>i. XRANGE i st) (map e_id xs) = xs" if "set xs \<subseteq> set ?ds" for xs
    using that found by (induction xs) (auto simp: List.map_filter_simps)
  ultimately show "es = take n ?ds" using assms(2) by (simp add: XAUTOCLAIM_def Let_def set_take_subset)
  let ?f = "\<lambda>(i, w'). if i \<in> set (map fst (take n (pel st))) then if XRANGE i st = None then None else Some (i, w) else Some (i, w')"
  have pel: "map fst (List.map_filter ?f xs) = map fst xs" if "set xs \<subseteq> set (pel st)" for xs
    using that some by (induction xs) (force simp: List.map_filter_simps)+
  show "entries st' = entries st" "delivered st' = delivered st" "last_id st' = last_id st"
    using assms(2) by (auto simp: XAUTOCLAIM_def Let_def)
  moreover have "map fst (pel st') = map fst (pel st)"
    using assms(2) pel [OF subset_refl] by (auto simp: XAUTOCLAIM_def Let_def)
  ultimately show "stream_ok st'" using assms(1) by (simp add: stream_ok_def)
qed

lemma takeWhile_keeps:
  assumes "\<forall>e \<in> set xs. e_id e \<le> d" and "\<And>e. e \<in> set ys \<Longrightarrow> d < e_id e"
  shows "takeWhile (\<lambda>e. e_id e \<le> d) (xs @ ys) = xs"
  using assms(1) assms(2) [of "hd ys"] by (cases ys) (auto simp: takeWhile_append)

lemma XREADGROUP_ok:
  assumes "stream_ok st" and "XREADGROUP w n st = (es, st')"
  shows "es = take n (filter (\<lambda>e. delivered st < e_id e) (entries st))"
    and "stream_ok st'" and "entries st' = entries st" and "delivered st \<le> delivered st'"
    and "\<forall>e \<in> set es. e_id e \<le> delivered st'"
proof -
  let ?ds = "takeWhile (\<lambda>e. e_id e \<le> delivered st) (entries st)" and ?us = "filter (\<lambda>e. delivered st < e_id e) (entries st)"
  show es: "es = take n ?us" and en: "entries st' = entries st" using assms(2) by (auto simp: XREADGROUP_def Let_def)
  have d: "delivered st' = (if es = [] then delivered st else e_id (last es))"
    and p: "map fst (pel st') = map fst (pel st) @ map e_id es"
    and l: "last_id st' = last_id st" using assms(2) by (auto simp: XREADGROUP_def Let_def)
  have in_us: "e \<in> set es \<Longrightarrow> e \<in> set ?us" for e using es in_set_takeD by fast
  show dd: "delivered st \<le> delivered st'" using d in_us last_in_set [of es] by fastforce
  have sorted: "sorted_wrt (\<lambda>e e'. e_id e < e_id e') (entries st)"
    using assms(1) by (auto simp: stream_ok_def elim: sorted_wrt_mono_rel [rotated])
  then have su: "sorted_wrt (\<lambda>e e'. e_id e < e_id e') ?us" by (rule sorted_wrt_filter)
  then have se: "sorted_wrt (\<lambda>e e'. e_id e < e_id e') es" unfolding es by (rule sorted_wrt_take)
  have le: "e_id e \<le> e_id (last es)" if "e \<in> set es" for e
    using se that by (cases es rule: rev_cases) (auto simp: sorted_wrt_append less_imp_le)
  then show "\<forall>e \<in> set es. e_id e \<le> delivered st'" using d by auto
  have gt: "delivered st' < e_id e" if "e \<in> set (drop n ?us)" for e
  proof (cases "es = []")
    case True
    then show ?thesis using that d in_set_dropD by fastforce
  next
    case False
    have "sorted_wrt (\<lambda>e e'. e_id e < e_id e') (es @ drop n ?us)" using su es by simp
    then show ?thesis using that d False last_in_set [of es] by (auto simp: sorted_wrt_append)
  qed
  have split: "entries st = (?ds @ es) @ drop n ?us" using entries_split [OF assms(1)] es by simp
  have "\<forall>e \<in> set (?ds @ es). e_id e \<le> delivered st'"
    using dd le d by (auto dest!: set_takeWhileD)
  then have "takeWhile (\<lambda>e. e_id e \<le> delivered st') (entries st) = ?ds @ es"
    using takeWhile_keeps [OF _ gt] by (subst split) blast
  moreover have "delivered st' \<le> last_id st"
    using d in_us last_in_set [of es] assms(1) by (fastforce simp: stream_ok_def)
  ultimately show "stream_ok st'" using assms(1) p en l by (simp add: stream_ok_def)
qed

end
