(* ===== verification/Valkey_Inv.thy ===== *)
theory Valkey_Inv
  imports Valkey_Streams
begin

text \<open>
  The invariant of a Valkey primary, stated per unit over the hash, the stream and the scores in the three
  sorted sets, and one lemma per script that it is kept. The invariant has two strengths. The weaker one
  holds whatever is called. The stronger one (\<open>x\<close>) adds that the sorted sets partition the units, so that
  a claimed unit cannot be claimed again; an enqueue keeps it unless it puts a unit below the threshold
  that is already eligible back into \<open>pending_flush\<close>.
\<close>

section \<open>The invariant\<close>

abbreviation costs :: "vk_entry list \<Rightarrow> int" where
  "costs es \<equiv> sum_list (map e_c es)"

definition hash_ok :: "vk_hash \<Rightarrow> vk_entry list \<Rightarrow> bool" where
  "hash_ok h es \<longleftrightarrow> es \<noteq> [] \<and> h_pending_cost h = Some (costs es) \<and>
     (\<exists>n. h_next_seq h = Some n \<and> (\<forall>e \<in> set es. e_seq e < n)) \<and> h_threshold h \<noteq> None \<and>
     h_oldest_ms h = Some (e_ts (hd es)) \<and>
     (\<exists>mw. h_max_wait_ms h = Some mw \<and> h_flush_ms h = Some (e_ts (hd es) + mw))"

definition lease_ok :: "vk_hash \<Rightarrow> int option \<Rightarrow> bool" where
  "lease_ok h l \<longleftrightarrow>
     (case h_claimed_by h of
        None \<Rightarrow> h_lease_token h = None \<and> h_lease_exp h = None \<and> l = None
      | Some w \<Rightarrow> (\<exists>n. h_lease_token h = Some (vk_token n w)) \<and> h_lease_ms h \<noteq> None \<and> h_lease_exp h \<noteq> None \<and> l = h_lease_exp h)"

definition index_ok :: "bool \<Rightarrow> vk_hash \<Rightarrow> int option \<Rightarrow> int option \<Rightarrow> bool" where
  "index_ok x h e f \<longleftrightarrow>
     (if h_claimed_by h = None
      then (e \<noteq> None \<or> f \<noteq> None) \<and> (x \<longrightarrow> (e = None \<and> f = h_flush_ms h) \<or> (e = h_flush_ms h \<and> f = None))
      else x \<longrightarrow> e = None \<and> f = None)"

definition unit_ok :: "bool \<Rightarrow> string \<Rightarrow> vk_hash \<Rightarrow> vk_stream option \<Rightarrow> int option \<Rightarrow> int option \<Rightarrow> int option \<Rightarrow> bool" where
  "unit_ok x m h st e f l \<longleftrightarrow>
     (case st of
        None \<Rightarrow> h = no_hash \<and> e = None \<and> f = None \<and> l = None
      | Some st \<Rightarrow> is_member m \<and> stream_ok st \<and> hash_ok h (entries st) \<and> lease_ok h l \<and> index_ok x h e f)"

definition slen :: "vk_stream option \<Rightarrow> int" where
  "slen st = (case st of None \<Rightarrow> 0 | Some st \<Rightarrow> int (length (entries st)))"

lemma slen_simps [simp]: "slen None = 0" "slen (Some st) = int (length (entries st))"
  by (simp_all add: slen_def)

definition vk_inv :: "bool \<Rightarrow> vk \<Rightarrow> bool" where
  "vk_inv x s \<longleftrightarrow>
     distinct (map fst (z_eligible s)) \<and> distinct (map fst (z_flush s)) \<and> distinct (map fst (z_leases s)) \<and>
     finite (dom (streams s)) \<and> pending_tasks s = (\<Sum>m \<in> dom (streams s). slen (streams s m)) \<and>
     (\<forall>m. unit_ok x m (wu s m) (streams s m) (map_of (z_eligible s) m) (map_of (z_flush s) m) (map_of (z_leases s) m))"

lemma no_hash_simps [simp]:
  "h_pending_cost no_hash = None" "h_next_seq no_hash = None" "h_claimed_by no_hash = None" "h_lease_token no_hash = None"
  "h_attempts no_hash = None" "h_flush_ms no_hash = None" "h_lease_ms no_hash = None" "h_lease_exp no_hash = None"
  by (simp_all add: no_hash_def)

lemma num0_simps [simp]: "num0 None = 0" "num0 (Some n) = n"
  by (simp_all add: num0_def)

lemma vk_invD:
  assumes "vk_inv x s"
  shows "distinct (map fst (z_eligible s))" "distinct (map fst (z_flush s))" "distinct (map fst (z_leases s))"
    and "unit_ok x m (wu s m) (streams s m) (map_of (z_eligible s) m) (map_of (z_flush s) m) (map_of (z_leases s) m)"
  using assms by (simp_all add: vk_inv_def)

lemma unit_okD:
  assumes "unit_ok x m h (Some st) e f l"
  shows "is_member m" "stream_ok st" "hash_ok h (entries st)" "lease_ok h l" "index_ok x h e f"
  using assms by (simp_all add: unit_ok_def)

lemma unit_ok_Some:
  "unit_ok x m h (Some st) e f l \<longleftrightarrow> is_member m \<and> stream_ok st \<and> hash_ok h (entries st) \<and> lease_ok h l \<and> index_ok x h e f"
  by (simp add: unit_ok_def)

lemma unit_ok_None [simp]: "unit_ok x m h None e f l \<longleftrightarrow> h = no_hash \<and> e = None \<and> f = None \<and> l = None"
  by (simp add: unit_ok_def)

lemma unit_ok_weaken: "unit_ok x m h st e f l \<Longrightarrow> unit_ok False m h st e f l"
  by (auto simp: unit_ok_def index_ok_def split: option.splits)

lemma vk_inv_weaken: "vk_inv x s \<Longrightarrow> vk_inv False s"
  using unit_ok_weaken by (simp add: vk_inv_def) blast

text \<open>A unit that is indexed or leased has a stream, and a token belongs to a claimed unit.\<close>

lemma vk_inv_stream:
  assumes "vk_inv x s"
    and "map_of (z_eligible s) m \<noteq> None \<or> map_of (z_flush s) m \<noteq> None \<or> map_of (z_leases s) m \<noteq> None \<or>
      h_lease_token (wu s m) \<noteq> None \<or> h_claimed_by (wu s m) \<noteq> None"
  obtains st where "streams s m = Some st"
  using vk_invD(4) [OF assms(1), of m] assms(2) by (cases "streams s m") auto

lemma slen_upd:
  fixes f :: "string \<rightharpoonup> vk_stream"
  assumes "finite (dom f)"
  shows "(\<Sum>m' \<in> dom (f(m := st)). slen ((f(m := st)) m')) = (\<Sum>m' \<in> dom f. slen (f m')) - slen (f m) + slen st"
proof -
  let ?A = "insert m (dom f)" and ?g = "f(m := st)"
  have z: "slen (h m') = 0" if "m' \<in> ?A - dom h" for h :: "string \<rightharpoonup> vk_stream" and m'
    using that by (simp add: slen_def domIff)
  have fin: "finite ?A" using assms by simp
  have "(\<Sum>m' \<in> dom ?g. slen (?g m')) = (\<Sum>m' \<in> ?A. slen (?g m'))"
    by (rule sum.mono_neutral_left [OF fin]) (use z [of _ ?g] in \<open>auto split: if_splits\<close>)
  moreover have "(\<Sum>m' \<in> dom f. slen (f m')) = (\<Sum>m' \<in> ?A. slen (f m'))"
    by (rule sum.mono_neutral_left [OF fin]) (use z [of _ f] in auto)
  moreover have "(\<Sum>m' \<in> ?A. slen (h m')) = slen (h m) + (\<Sum>m' \<in> ?A - {m}. slen (h m'))" for h :: "string \<rightharpoonup> vk_stream"
    by (rule sum.remove [OF fin]) simp
  moreover have "(\<Sum>m' \<in> ?A - {m}. slen (?g m')) = (\<Sum>m' \<in> ?A - {m}. slen (f m'))" by (rule sum.cong) auto
  ultimately show ?thesis by simp
qed

text \<open>A script touches one unit.\<close>

definition only :: "string \<Rightarrow> vk \<Rightarrow> vk \<Rightarrow> bool" where
  "only m s s' \<longleftrightarrow> wu s' = (wu s)(m := wu s' m) \<and> streams s' = (streams s)(m := streams s' m) \<and>
     (\<forall>m'. m' \<noteq> m \<longrightarrow> map_of (z_eligible s') m' = map_of (z_eligible s) m' \<and>
       map_of (z_flush s') m' = map_of (z_flush s) m' \<and> map_of (z_leases s') m' = map_of (z_leases s) m') \<and>
     (distinct (map fst (z_eligible s)) \<longrightarrow> distinct (map fst (z_eligible s'))) \<and>
     (distinct (map fst (z_flush s)) \<longrightarrow> distinct (map fst (z_flush s'))) \<and>
     (distinct (map fst (z_leases s)) \<longrightarrow> distinct (map fst (z_leases s')))"

lemma vk_inv_only:
  assumes "vk_inv x s" and "only m s s'"
    and "pending_tasks s' = pending_tasks s - slen (streams s m) + slen (streams s' m)"
    and "unit_ok x m (wu s' m) (streams s' m) (map_of (z_eligible s') m) (map_of (z_flush s') m) (map_of (z_leases s') m)"
  shows "vk_inv x s'"
proof -
  have st: "streams s' = (streams s)(m := streams s' m)" and fin: "finite (dom (streams s))"
    using assms(1,2) by (simp_all add: only_def vk_inv_def)
  have "finite (dom (streams s'))" using fin by (subst st) simp
  moreover have "(\<Sum>m' \<in> dom (streams s'). slen (streams s' m')) = pending_tasks s'"
    using slen_upd [OF fin, of m "streams s' m"] assms(1,3) st by (simp add: vk_inv_def)
  moreover have "unit_ok x m' (wu s' m') (streams s' m') (map_of (z_eligible s') m') (map_of (z_flush s') m') (map_of (z_leases s') m')"
    for m'
  proof (cases "m' = m")
    case False
    then have "wu s' m' = wu s m'" "streams s' m' = streams s m'"
      using assms(2) by (metis fun_upd_other only_def)+
    with False assms(2) vk_invD(4) [OF assms(1), of m'] show ?thesis by (simp add: only_def)
  qed (use assms(4) in simp)
  ultimately show ?thesis using assms(1,2) by (simp add: vk_inv_def only_def)
qed


section \<open>The scripts keep the invariant\<close>

lemma wu_set_hash [simp]: "wu (set_hash m h s) = (wu s)(m := h)"
  and set_hash_simps [simp]: "streams (set_hash m h s) = streams s" "z_eligible (set_hash m h s) = z_eligible s"
  "z_flush (set_hash m h s) = z_flush s" "z_leases (set_hash m h s) = z_leases s"
  "vk_dlq (set_hash m h s) = vk_dlq s" "pending_tasks (set_hash m h s) = pending_tasks s"
  by (simp_all add: set_hash_def)

lemma stream_ok_costs: "stream_ok st \<Longrightarrow> entries st \<noteq> [] \<Longrightarrow> 0 < costs (entries st)"
proof (cases "entries st")
  case (Cons e es)
  assume "stream_ok st"
  with Cons have "1 \<le> e_c e" "0 \<le> costs es" by (fastforce simp: stream_ok_def intro!: sum_list_nonneg)+
  with Cons show ?thesis by simp
qed simp

text \<open>The guard of an enqueue that keeps the stronger invariant.\<close>

definition enq_safe :: "string \<Rightarrow> int \<Rightarrow> int \<Rightarrow> vk \<Rightarrow> bool" where
  "enq_safe m cost T s \<longleftrightarrow>
     (h_claimed_by (wu s m) = None \<and> num0 (h_pending_cost (wu s m)) + cost < T \<longrightarrow> map_of (z_eligible s) m = None)"

text \<open>The stream and the hash an enqueue writes.\<close>

lemma luaEnqueue_ok:
  assumes "vk_inv x s" and "1 \<le> cost" and "is_member m"
  obtains (overflow) s' where "luaEnqueue m p cost T mw now s = (Err (ErrDriver ''overflow''), s')" "streams s m = None \<longrightarrow> \<not> int8 cost"
      "s' = s\<lparr>streams := (streams s)(m \<mapsto> XGROUP_CREATE (streams s m))\<rparr>"
  | (added) st h seq s' where "luaEnqueue m p cost T mw now s = (Ok seq, s')" "st = XGROUP_CREATE (streams s m)"
      "stream_ok st" "\<forall>e \<in> set (entries st). e_seq e < seq" "seq = num0 (h_next_seq (wu s m))"
      "hash_ok h (entries (XADD seq now p cost st))" "h_claimed_by h = h_claimed_by (wu s m)"
      "h_lease_token h = h_lease_token (wu s m)" "h_lease_ms h = h_lease_ms (wu s m)" "h_lease_exp h = h_lease_exp (wu s m)"
      "streams s m \<noteq> None \<Longrightarrow> h_flush_ms h = h_flush_ms (wu s m)"
      "s' = (set_hash m h s)\<lparr>streams := (streams s)(m \<mapsto> XADD seq now p cost st), pending_tasks := pending_tasks s + 1,
         z_eligible := (if h_claimed_by h = None \<and> T \<le> num0 (h_pending_cost (wu s m)) + cost
            then ZADD m (the (h_flush_ms h)) (z_eligible s) else z_eligible s),
         z_flush := (if h_claimed_by h = None then if T \<le> num0 (h_pending_cost (wu s m)) + cost then ZREM m (z_flush s)
            else ZADD m (the (h_flush_ms h)) (z_flush s) else z_flush s)\<rparr>"
proof -
  note u = vk_invD(4) [OF assms(1), of m]
  let ?tot = "num0 (h_pending_cost (wu s m)) + cost" and ?seq = "num0 (h_next_seq (wu s m))"
  let ?st = "XGROUP_CREATE (streams s m)"
  let ?h0 = "(wu s m)\<lparr>h_pending_cost := Some ?tot, h_next_seq := Some (?seq + 1)\<rparr>"
  let ?h = "if ?tot = cost then ?h0\<lparr>h_oldest_ms := Some now, h_flush_ms := Some (now + mw), h_threshold := Some T,
    h_max_wait_ms := Some mw\<rparr> else ?h0"
  show ?thesis
  proof (cases "int8 ?tot")
    case False
    show ?thesis
      by (rule overflow) (use False u in \<open>auto simp: luaEnqueue_def Let_def num0_def split: option.splits\<close>)
  next
    case True
    have st: "stream_ok ?st" using u stream_ok_new by (auto simp: XGROUP_CREATE_def unit_ok_Some split: option.split)
    have lt: "\<forall>e \<in> set (entries ?st). e_seq e < ?seq"
      using u stream_ok_new by (auto simp: XGROUP_CREATE_def unit_ok_Some hash_ok_def num0_def split: option.split)
    have h: "hash_ok ?h (entries (XADD ?seq now p cost ?st))"
    proof (cases "streams s m")
      case None
      with u stream_ok_new show ?thesis by (simp add: hash_ok_def XADD_def XGROUP_CREATE_def num0_def)
    next
      case (Some st)
      with u have ok: "stream_ok st" "hash_ok (wu s m) (entries st)" by (simp_all add: unit_ok_Some)
      then have "?tot \<noteq> cost" "entries st \<noteq> []" by (auto simp: hash_ok_def num0_def dest!: stream_ok_costs)
      with ok Some show ?thesis by (auto simp: hash_ok_def XADD_def XGROUP_CREATE_def num0_def)
    qed
    then obtain fd where fd: "h_flush_ms ?h = Some fd" unfolding hash_ok_def by blast
    show ?thesis
    proof (rule added [of ?seq _ ?st ?h])
      show "h_flush_ms ?h = h_flush_ms (wu s m)" if "streams s m \<noteq> None"
        using that u by (auto simp: unit_ok_Some hash_ok_def num0_def dest!: stream_ok_costs)
      show "luaEnqueue m p cost T mw now s = (Ok ?seq, (set_hash m ?h s)\<lparr>streams := (streams s)(m \<mapsto> XADD ?seq now p cost ?st),
         pending_tasks := pending_tasks s + 1,
         z_eligible := (if h_claimed_by ?h = None \<and> T \<le> ?tot then ZADD m (the (h_flush_ms ?h)) (z_eligible s) else z_eligible s),
         z_flush := (if h_claimed_by ?h = None then if T \<le> ?tot then ZREM m (z_flush s)
            else ZADD m (the (h_flush_ms ?h)) (z_flush s) else z_flush s)\<rparr>)"
        using True fd unfolding luaEnqueue_def Let_def by (simp add: set_hash_def)
    qed (use st lt h in simp_all)
  qed
qed


lemma luaEnqueue_inv:
  assumes "vk_inv x s" and "1 \<le> cost" and "is_member m" and "int8 cost" and "x \<longrightarrow> enq_safe m cost T s"
  shows "vk_inv x (snd (luaEnqueue m p cost T mw now s))"
  using assms(1-3)
proof (cases rule: luaEnqueue_ok [where p = p and T = T and mw = mw and now = now])
  case (overflow s')
  then have "s' = s" using assms(4) by (cases "streams s m") (auto simp: XGROUP_CREATE_def map_upd_triv)
  with overflow assms(1) show ?thesis by simp
next
  case (added st h seq s')
  note u = vk_invD(4) [OF assms(1), of m]
  from added(6) obtain fd where fd: "h_flush_ms h = Some fd" unfolding hash_ok_def by blast
  have st: "stream_ok (XADD seq now p cost st)" by (rule stream_ok_XADD [OF added(3,4) assms(2)])
  have len: "slen (Some (XADD seq now p cost st)) = slen (streams s m) + 1"
    unfolding added(2) by (simp add: slen_def XADD_def XGROUP_CREATE_def new_stream_def split: option.split)
  have l: "lease_ok h (map_of (z_leases s) m)"
    using u added(7-10) by (cases "streams s m") (auto simp: lease_ok_def unit_ok_Some split: option.splits)
  have i: "index_ok x h (map_of (z_eligible s') m) (map_of (z_flush s') m)"
  proof (cases "streams s m")
    case None
    with u have "map_of (z_eligible s) m = None" "map_of (z_flush s) m = None" by simp_all
    then show ?thesis using added(7) fd by (simp add: index_ok_def added(12))
  next
    case (Some st0)
    then have "index_ok x (wu s m) (map_of (z_eligible s) m) (map_of (z_flush s) m)" using u by (simp add: unit_ok_Some)
    then show ?thesis using added(7) added(11) Some fd assms(5) by (auto simp: index_ok_def added(12) enq_safe_def)
  qed
  have "only m s s'" by (simp add: only_def added(12))
  moreover have "pending_tasks s' = pending_tasks s - slen (streams s m) + slen (streams s' m)"
    using len by (simp add: added(12))
  ultimately have "vk_inv x s'"
    by (rule vk_inv_only [OF assms(1)]) (use assms(3) st added(6) l i in \<open>simp add: added(12) unit_ok_Some\<close>)
  with added(1) show ?thesis by simp
qed

lemma luaClaim_inv:
  assumes "vk_inv x s" and "tok = vk_token n w"
  shows "vk_inv x (snd (luaClaim w tok leaseMs now s))"
proof (cases "ZPOPMIN (z_eligible s)")
  case (Some mz)
  obtain m z where mz: "mz = (m, z)" by (cases mz)
  note z = ZPOPMIN_Some [OF Some [unfolded mz]]
  obtain st where st: "streams s m = Some st" by (rule vk_inv_stream [OF assms(1)]) (use z(2) in blast)+
  have u: "is_member m" "stream_ok st" "hash_ok (wu s m) (entries st)" "index_ok x (wu s m) (map_of (z_eligible s) m) (map_of (z_flush s) m)"
    using vk_invD(4) [OF assms(1), of m] st by (simp_all add: unit_ok_Some)
  show ?thesis
    by (rule vk_inv_only [OF assms(1), of m])
      (use u st z(2) assms(2) in \<open>auto simp: luaClaim_def Some mz only_def z(1) unit_ok_Some hash_ok_def lease_ok_def index_ok_def split: if_splits\<close>)
qed (simp add: luaClaim_def assms(1))

text \<open>The script of a lease holder sees a claimed unit with a stream.\<close>

lemma held_unit:
  assumes "vk_inv x s" and "h_lease_token (wu s m) = Some tok"
  obtains st w n ms where "streams s m = Some st" and "is_member m" and "stream_ok st" and "hash_ok (wu s m) (entries st)"
    and "lease_ok (wu s m) (map_of (z_leases s) m)" and "h_claimed_by (wu s m) = Some w" and "tok = vk_token n w"
    and "h_lease_ms (wu s m) = Some ms" and "x \<longrightarrow> map_of (z_eligible s) m = None \<and> map_of (z_flush s) m = None"
proof -
  obtain st where st: "streams s m = Some st" by (rule vk_inv_stream [OF assms(1)]) (use assms(2) in auto)
  then have u: "is_member m" "stream_ok st" "hash_ok (wu s m) (entries st)" "lease_ok (wu s m) (map_of (z_leases s) m)"
    "index_ok x (wu s m) (map_of (z_eligible s) m) (map_of (z_flush s) m)"
    using vk_invD(4) [OF assms(1), of m] by (simp_all add: unit_ok_Some)
  from u(4) assms(2) obtain w n where "h_claimed_by (wu s m) = Some w" "tok = vk_token n w" "h_lease_ms (wu s m) \<noteq> None"
    by (auto simp: lease_ok_def split: option.splits)
  with u st that show ?thesis by (auto simp: index_ok_def)
qed

lemma tombstone_simps [simp]:
  "wu (tombstone m s) = (wu s)(m := no_hash)" "streams (tombstone m s) = (streams s)(m := None)"
  "z_eligible (tombstone m s) = ZREM m (z_eligible s)" "z_flush (tombstone m s) = ZREM m (z_flush s)"
  "z_leases (tombstone m s) = z_leases s" "vk_dlq (tombstone m s) = vk_dlq s" "pending_tasks (tombstone m s) = pending_tasks s"
  by (simp_all add: tombstone_def)


lemma unlease_simps [simp]:
  "h_claimed_by (unlease h) = None" "h_lease_token (unlease h) = None" "h_lease_exp (unlease h) = None"
  "h_pending_cost (unlease h) = h_pending_cost h" "h_next_seq (unlease h) = h_next_seq h" "h_oldest_ms (unlease h) = h_oldest_ms h"
  "h_flush_ms (unlease h) = h_flush_ms h" "h_threshold (unlease h) = h_threshold h" "h_max_wait_ms (unlease h) = h_max_wait_ms h"
  by (simp_all add: unlease_def)

text \<open>
  What a holder's script leaves of its unit: the stream \<open>st'\<close> (removed with the hash when it is empty), and the
  lease, if it is kept.
\<close>

definition leaves :: "bool \<Rightarrow> string \<Rightarrow> vk_stream \<Rightarrow> bool \<Rightarrow> vk \<Rightarrow> vk \<Rightarrow> bool" where
  "leaves x m st' kept s s' \<longleftrightarrow> vk_inv x s' \<and> only m s s' \<and> streams s' m = (if entries st' = [] then None else Some st') \<and>
     h_claimed_by (wu s' m) = (if kept then h_claimed_by (wu s m) else None) \<and>
     h_lease_token (wu s' m) = (if kept then h_lease_token (wu s m) else None) \<and> (kept \<longrightarrow> entries st' \<noteq> [])"

lemma luaAck_lost: "h_lease_token (wu s m) \<noteq> Some tok \<Longrightarrow> luaAck m tok th now s = (Err LEASELOST, s)"
  by (simp add: luaAck_def)

lemma ack_gone_entries: "entries st = ack_gone th st @ entries (cut (length (ack_gone th st)) st)"
  by (simp add: ack_gone_def cut_def flip: dropWhile_eq_drop)

lemma luaAck_held:
  assumes "vk_inv x s" and "h_lease_token (wu s m) = Some tok" and "streams s m = Some st"
    and st'_def: "st' = cut (length (ack_gone th st)) st"
  obtains kept s' where "luaAck m tok th now s = (Ok (if kept then 1 else 0), s')" and "leaves x m st' kept s s'"
    and "vk_dlq s' = vk_dlq s"
    and "kept \<longleftrightarrow> entries st' \<noteq> [] \<and> (num0 (h_threshold (wu s m)) \<le> costs (entries st') \<or>
      e_ts (hd (entries st')) + num0 (h_max_wait_ms (wu s m)) \<le> now)"
proof -
  from held_unit [OF assms(1,2)] assms(3) obtain w n ms where u: "is_member m" "stream_ok st" "hash_ok (wu s m) (entries st)"
    "lease_ok (wu s m) (map_of (z_leases s) m)" "h_claimed_by (wu s m) = Some w" "tok = vk_token n w"
    "h_lease_ms (wu s m) = Some ms" "x \<longrightarrow> map_of (z_eligible s) m = None \<and> map_of (z_flush s) m = None"
    by (metis option.inject)
  let ?g = "ack_gone th st"
  have scan: "ack_scan th 0 st 0 0 = (st', costs ?g, int (length ?g))"
    using ack_scan_eq [OF u(2) pel_ids_ascend(2) [OF u(2)], of th 0 0] by (simp add: st'_def)
  have ok': "stream_ok st'" unfolding st'_def by (rule stream_ok_cut [OF u(2) ack_gone_pel [OF u(2)]])
  have en: "entries st = ?g @ entries st'" unfolding st'_def by (rule ack_gone_entries)
  have tot: "num0 (h_pending_cost (wu s m)) - costs ?g = costs (entries st')" and len: "slen (streams s m) = int (length ?g) + int (length (entries st'))"
    using u(3) assms(3) en by (simp_all add: hash_ok_def num0_def slen_def)
  from u(3) obtain T mw nx where h: "h_threshold (wu s m) = Some T" "h_max_wait_ms (wu s m) = Some mw" "h_next_seq (wu s m) = Some nx"
    "\<forall>e \<in> set (entries st). e_seq e < nx"
    by (auto simp: hash_ok_def)
  have nx: "\<forall>e \<in> set (entries st'). e_seq e < nx" using h(4) en by auto
  show ?thesis
  proof (cases "entries st'")
    case Nil
    let ?s = "snd (luaAck m tok th now s)"
    have s': "luaAck m tok th now s = (Ok (if False then 1 else 0), ?s)"
      using Nil by (simp add: luaAck_def assms(2,3) scan Let_def stream_head_def)
    have "leaves x m st' False s ?s"
      unfolding leaves_def
      by (intro conjI vk_inv_only [OF assms(1), of m])
        (use Nil len in \<open>simp_all add: luaAck_def assms(2,3) scan Let_def stream_head_def only_def\<close>)
    moreover have "vk_dlq ?s = vk_dlq s"
      using Nil by (simp add: luaAck_def assms(2,3) scan Let_def stream_head_def)
    ultimately show ?thesis using that [OF s'] Nil by simp
  next
    case (Cons e es)
    let ?s = "snd (luaAck m tok th now s)" and ?kept = "T \<le> costs (entries st') \<or> e_ts e + mw \<le> now"
    note eq = luaAck_def assms(2,3) scan Let_def stream_head_def Cons h(1,2) u(7)
    have tot': "costs (entries st) - costs ?g = e_c e + costs es" using en Cons by simp
    have s': "luaAck m tok th now s = (Ok (if ?kept then 1 else 0), ?s)" using Cons tot by (simp add: eq)
    have "leaves x m st' ?kept s ?s"
      unfolding leaves_def
      by (intro conjI vk_inv_only [OF assms(1), of m])
        (use Cons tot' len u ok' nx h(3) in \<open>simp_all add: eq only_def unit_ok_Some hash_ok_def lease_ok_def index_ok_def\<close>)
    moreover have "vk_dlq ?s = vk_dlq s" using Cons tot by (simp add: eq)
    ultimately show ?thesis using that [OF s'] Cons h(1,2) by simp
  qed
qed


lemma index_free_simps [simp]:
  "wu (index_free m due fl s) = wu s" "streams (index_free m due fl s) = streams s" "vk_dlq (index_free m due fl s) = vk_dlq s"
  "z_leases (index_free m due fl s) = z_leases s" "pending_tasks (index_free m due fl s) = pending_tasks s"
  "z_eligible (index_free m due fl s) = (if due then ZADD m fl (z_eligible s) else z_eligible s)"
  "z_flush (index_free m due fl s) = (if due then z_flush s else ZADD m fl (z_flush s))"
  by (simp_all add: index_free_def)

lemma luaRelease_held:
  assumes "vk_inv x s" and "h_lease_token (wu s m) = Some tok" and "streams s m = Some st"
  obtains s' where "luaRelease m tok now s = (Ok 1, s')" and "leaves x m st False s s'" and "vk_dlq s' = vk_dlq s"
proof -
  from held_unit [OF assms(1,2)] assms(3) have u: "is_member m" "stream_ok st" "hash_ok (wu s m) (entries st)"
    "x \<longrightarrow> map_of (z_eligible s) m = None \<and> map_of (z_flush s) m = None"
    by (metis option.inject)+
  from u(3) obtain e es T fl where h: "entries st = e # es" "h_threshold (wu s m) = Some T" "h_flush_ms (wu s m) = Some fl"
    "h_pending_cost (wu s m) = Some (costs (entries st))"
    by (auto simp: hash_ok_def neq_Nil_conv)
  let ?s = "snd (luaRelease m tok now s)"
  note eq = luaRelease_def assms(2,3) Let_def stream_head_def h
  have s': "luaRelease m tok now s = (Ok 1, ?s)" by (simp add: eq)
  have "leaves x m st False s ?s"
    unfolding leaves_def
    by (intro conjI vk_inv_only [OF assms(1), of m])
      (use u h in \<open>simp_all add: eq only_def fun_upd_idem unit_ok_Some hash_ok_def lease_ok_def index_ok_def\<close>)
  moreover have "vk_dlq ?s = vk_dlq s" by (simp add: eq)
  ultimately show ?thesis using that s' by blast
qed

lemma luaRelease_lost: "h_lease_token (wu s m) \<noteq> Some tok \<Longrightarrow> luaRelease m tok now s = (Err LEASELOST, s)"
  by (simp add: luaRelease_def)

lemma luaHeartbeat_held:
  assumes "vk_inv x s" and "h_lease_token (wu s m) = Some tok" and "streams s m = Some st"
  obtains s' where "luaHeartbeat m tok ext now s = (Ok 1, s')" and "leaves x m st True s s'" and "vk_dlq s' = vk_dlq s"
proof -
  from held_unit [OF assms(1,2)] assms(3) obtain w n ms where u: "is_member m" "stream_ok st" "hash_ok (wu s m) (entries st)"
    "h_claimed_by (wu s m) = Some w" "tok = vk_token n w" "h_lease_ms (wu s m) = Some ms"
    "x \<longrightarrow> map_of (z_eligible s) m = None \<and> map_of (z_flush s) m = None"
    by (metis option.inject)
  let ?s = "snd (luaHeartbeat m tok ext now s)"
  have s': "luaHeartbeat m tok ext now s = (Ok 1, ?s)" by (simp add: luaHeartbeat_def assms(2))
  have "leaves x m st True s ?s"
    unfolding leaves_def
    by (intro conjI vk_inv_only [OF assms(1), of m])
      (use u assms(2,3) in \<open>simp_all add: luaHeartbeat_def only_def fun_upd_idem unit_ok_Some hash_ok_def lease_ok_def index_ok_def, auto\<close>)
  moreover have "vk_dlq ?s = vk_dlq s" by (simp add: luaHeartbeat_def assms(2))
  ultimately show ?thesis using that s' by blast
qed

lemma luaHeartbeat_lost: "h_lease_token (wu s m) \<noteq> Some tok \<Longrightarrow> luaHeartbeat m tok ext now s = (Err LEASELOST, s)"
  by (simp add: luaHeartbeat_def)

text \<open>The head is dead-lettered when the failed task is the head and the attempts are used up.\<close>

definition fail_cap :: "string \<Rightarrow> int \<Rightarrow> int \<Rightarrow> vk \<Rightarrow> bool" where
  "fail_cap m fseq maxTries s \<longleftrightarrow>
     (case stream_head (streams s m) of None \<Rightarrow> False | Some e \<Rightarrow> maxTries \<le> num0 (h_attempts (wu s m)) + 1 \<and> e_seq e = fseq)"

definition dead_head :: "string \<Rightarrow> vk_entry \<Rightarrow> string \<Rightarrow> vk_dead" where
  "dead_head m e reason = \<lparr>v_member = m, v_seq = e_seq e, v_p = e_p e, v_c = e_c e, v_reason = reason\<rparr>"

lemma luaFail_lost: "h_lease_token (wu s m) \<noteq> Some tok \<Longrightarrow> luaFail m tok fseq reason now tries s = (Err LEASELOST, s)"
  by (simp add: luaFail_def)

lemma fail_head_view:
  assumes "stream_ok st" and "streams s m = Some st" and "entries st = e # es" and "h_threshold (wu s m) = Some T"
    and "h_max_wait_ms (wu s m) = Some mw" and "h_pending_cost (wu s m) = Some (costs (entries st))" and "h_next_seq (wu s m) = Some nx"
    and cap_def: "cap = fail_cap m fseq tries s"
  shows "\<exists>st' h1 s1. fail_head m fseq reason tries s = s1 \<and> wu s1 = (wu s)(m := h1) \<and> streams s1 = (streams s)(m \<mapsto> st') \<and>
    stream_ok st' \<and> entries st' = (if cap then es else entries st) \<and> h_pending_cost h1 = Some (costs (entries st')) \<and>
    h_next_seq h1 = Some nx \<and> h_threshold h1 = Some T \<and> h_max_wait_ms h1 = Some mw \<and>
    z_eligible s1 = z_eligible s \<and> z_flush s1 = z_flush s \<and> z_leases s1 = z_leases s \<and>
    pending_tasks s1 = pending_tasks s - slen (streams s m) + int (length (entries st')) \<and>
    vk_dlq s1 = vk_dlq s @ (if cap then [dead_head m e reason] else [])"
proof -
  have c: "cap \<longleftrightarrow> tries \<le> num0 (h_attempts (wu s m)) + 1 \<and> e_seq e = fseq"
    by (simp add: cap_def fail_cap_def stream_head_def assms(2,3))
  let ?h = "(wu s m)\<lparr>h_attempts := Some (num0 (h_attempts (wu s m)) + 1)\<rparr>"
  show ?thesis
  proof (cases cap)
    case True
    let ?st = "XDEL (e_id e) (XACK (e_id e) st)"
    let ?h1 = "?h\<lparr>h_pending_cost := Some (costs es), h_attempts := Some 0\<rparr>"
    have "fail_head m fseq reason tries s = (set_hash m ?h1 (set_hash m ?h s))\<lparr>vk_dlq := vk_dlq s @ [dead_head m e reason],
        streams := (streams s)(m \<mapsto> ?st), pending_tasks := pending_tasks s - 1\<rparr>"
      using True c assms(2-6) by (simp add: fail_head_def Let_def stream_head_def dead_head_def)
    then show ?thesis
      using True stream_ok_tl [OF assms(1,3)] assms(2-7)
      by (intro exI [of _ ?st] exI [of _ ?h1] exI [of _ "fail_head m fseq reason tries s"]) simp
  next
    case False
    then have "fail_head m fseq reason tries s = set_hash m ?h s"
      using c assms(2-6) by (auto simp: fail_head_def Let_def stream_head_def)
    then show ?thesis
      using False assms(1-7)
      by (intro exI [of _ st] exI [of _ ?h] exI [of _ "fail_head m fseq reason tries s"]) (simp add: fun_upd_idem)
  qed
qed

lemma luaFail_held:
  assumes "vk_inv x s" and "h_lease_token (wu s m) = Some tok" and "streams s m = Some st"
  obtains st' s' where "luaFail m tok fseq reason now tries s = (Ok 1, s')" and "leaves x m st' False s s'"
    and "entries st' = (if fail_cap m fseq tries s then tl (entries st) else entries st)"
    and "vk_dlq s' = vk_dlq s @ (if fail_cap m fseq tries s then [dead_head m (hd (entries st)) reason] else [])"
proof -
  from held_unit [OF assms(1,2)] assms(3) have u: "is_member m" "stream_ok st" "hash_ok (wu s m) (entries st)"
    "x \<longrightarrow> map_of (z_eligible s) m = None \<and> map_of (z_flush s) m = None"
    by (metis option.inject)+
  from u(3) obtain e es T mw nx where h: "entries st = e # es" "h_threshold (wu s m) = Some T" "h_max_wait_ms (wu s m) = Some mw"
    "h_pending_cost (wu s m) = Some (costs (entries st))" "h_next_seq (wu s m) = Some nx" "\<forall>e \<in> set (entries st). e_seq e < nx"
    by (auto simp: hash_ok_def neq_Nil_conv)
  let ?cap = "fail_cap m fseq tries s" and ?s = "snd (luaFail m tok fseq reason now tries s)"
  obtain st' h1 s1 where f: "fail_head m fseq reason tries s = s1" "wu s1 = (wu s)(m := h1)" "streams s1 = (streams s)(m \<mapsto> st')"
    "stream_ok st'" "entries st' = (if ?cap then es else entries st)" "h_pending_cost h1 = Some (costs (entries st'))"
    "h_next_seq h1 = Some nx" "h_threshold h1 = Some T" "h_max_wait_ms h1 = Some mw"
    "z_eligible s1 = z_eligible s" "z_flush s1 = z_flush s" "z_leases s1 = z_leases s"
    "pending_tasks s1 = pending_tasks s - slen (streams s m) + int (length (entries st'))"
    "vk_dlq s1 = vk_dlq s @ (if ?cap then [dead_head m e reason] else [])"
    using fail_head_view [OF u(2) assms(3) h(1-5) refl] by metis
  note eq = luaFail_def assms(2) Let_def f stream_head_def
  show ?thesis
  proof (cases "entries st'")
    case Nil
    have s': "luaFail m tok fseq reason now tries s = (Ok 1, ?s)" using Nil by (simp add: eq)
    have "leaves x m st' False s ?s"
      unfolding leaves_def
      by (intro conjI vk_inv_only [OF assms(1), of m]) (use Nil in \<open>simp_all add: eq only_def\<close>)
    moreover have "vk_dlq ?s = vk_dlq s @ (if ?cap then [dead_head m e reason] else [])" using Nil by (simp add: eq)
    ultimately show ?thesis using that [OF s'] f(5) h(1) by simp
  next
    case (Cons e' es')
    have s': "luaFail m tok fseq reason now tries s = (Ok 1, ?s)" using Cons by (simp add: eq)
    have nx: "\<forall>e \<in> set (entries st'). e_seq e < nx" using h(1,6) f(5) by auto
    have "leaves x m st' False s ?s"
      unfolding leaves_def
      by (intro conjI vk_inv_only [OF assms(1), of m])
        (use Cons u(1,4) f(4,6) nx in \<open>simp_all add: eq only_def unit_ok_Some hash_ok_def lease_ok_def index_ok_def\<close>)
    moreover have "vk_dlq ?s = vk_dlq s @ (if ?cap then [dead_head m e reason] else [])" using Cons by (simp add: eq)
    ultimately show ?thesis using that [OF s'] f(5) h(1) by simp
  qed
qed


section \<open>Reaping\<close>

lemma reclaim_view [simp]:
  "wu (reclaim now m s) = (wu s)(m := unlease (wu s m))" "streams (reclaim now m s) = streams s"
  "vk_dlq (reclaim now m s) = vk_dlq s" "z_leases (reclaim now m s) = ZREM m (z_leases s)"
  "pending_tasks (reclaim now m s) = pending_tasks s"
  by (simp_all add: reclaim_def Let_def)

lemma promote_view [simp]:
  "wu (promote m s) = wu s" "streams (promote m s) = streams s" "vk_dlq (promote m s) = vk_dlq s"
  "z_leases (promote m s) = z_leases s" "pending_tasks (promote m s) = pending_tasks s"
  by (simp_all add: promote_def split: option.split)

lemma reclaim_inv:
  assumes "vk_inv x s" and "h_claimed_by (wu s m) \<noteq> None"
  shows "vk_inv x (reclaim now m s)"
proof -
  obtain st where st: "streams s m = Some st" by (rule vk_inv_stream [OF assms(1)]) (use assms(2) in blast)+
  with vk_invD(4) [OF assms(1), of m] have u: "is_member m" "stream_ok st" "hash_ok (wu s m) (entries st)"
    "index_ok x (wu s m) (map_of (z_eligible s) m) (map_of (z_flush s) m)" by (simp_all add: unit_ok_Some)
  from u(3) obtain fl where fl: "h_flush_ms (wu s m) = Some fl" by (auto simp: hash_ok_def)
  have "only m s (reclaim now m s)" by (simp add: only_def) (simp add: reclaim_def Let_def)
  then show ?thesis
  proof (rule vk_inv_only [OF assms(1)])
    have "hash_ok (unlease (wu s m)) (entries st)" using u(3) by (simp add: hash_ok_def)
    moreover have "lease_ok (unlease (wu s m)) None" by (simp add: lease_ok_def)
    moreover have "index_ok x (unlease (wu s m)) (map_of (z_eligible (reclaim now m s)) m) (map_of (z_flush (reclaim now m s)) m)"
      using u(4) assms(2) fl by (simp add: index_ok_def reclaim_def Let_def)
    ultimately show "unit_ok x m (wu (reclaim now m s) m) (streams (reclaim now m s) m) (map_of (z_eligible (reclaim now m s)) m)
        (map_of (z_flush (reclaim now m s)) m) (map_of (z_leases (reclaim now m s)) m)"
      using st u by (simp add: unit_ok_Some)
  qed simp
qed

lemma promote_inv:
  assumes "vk_inv x s"
  shows "vk_inv x (promote m s)"
proof (cases "map_of (z_flush s) m")
  case (Some sc)
  obtain st where st: "streams s m = Some st" by (rule vk_inv_stream [OF assms]) (use Some in auto)
  with vk_invD(4) [OF assms, of m] have u: "is_member m" "stream_ok st" "hash_ok (wu s m) (entries st)"
    "lease_ok (wu s m) (map_of (z_leases s) m)" "index_ok x (wu s m) (map_of (z_eligible s) m) (map_of (z_flush s) m)"
    by (simp_all add: unit_ok_Some)
  have "only m s (promote m s)" using Some by (simp add: only_def) (simp add: promote_def)
  then show ?thesis
    by (rule vk_inv_only [OF assms])
      (use st u Some in \<open>auto simp: unit_ok_Some promote_def index_ok_def split: if_splits\<close>)
qed (simp add: promote_def assms)

lemma fold_reclaim:
  assumes "vk_inv x s" and "distinct ms" and "\<forall>m \<in> set ms. h_claimed_by (wu s m) \<noteq> None"
  shows "vk_inv x (fold (reclaim now) ms s) \<and> streams (fold (reclaim now) ms s) = streams s \<and>
    vk_dlq (fold (reclaim now) ms s) = vk_dlq s \<and>
    wu (fold (reclaim now) ms s) = (\<lambda>m. if m \<in> set ms then unlease (wu s m) else wu s m)"
  using assms
proof (induction ms arbitrary: s)
  case (Cons m ms)
  have "vk_inv x (reclaim now m s)" by (rule reclaim_inv) (use Cons.prems in simp_all)
  moreover have "\<forall>m' \<in> set ms. h_claimed_by (wu (reclaim now m s) m') \<noteq> None" using Cons.prems(2,3) by auto
  ultimately show ?case using Cons.IH [of "reclaim now m s"] Cons.prems(2) by (auto simp: fun_eq_iff)
qed simp

lemma fold_promote:
  assumes "vk_inv x s"
  shows "vk_inv x (fold promote ms s) \<and> streams (fold promote ms s) = streams s \<and> vk_dlq (fold promote ms s) = vk_dlq s \<and>
    wu (fold promote ms s) = wu s"
  using assms
proof (induction ms arbitrary: s)
  case (Cons m ms)
  then show ?case using promote_inv [OF Cons.prems, of m] by simp
qed simp

text \<open>The leases that a sweep at \<open>now\<close> ends.\<close>

definition lapsed :: "int \<Rightarrow> vk \<Rightarrow> string \<Rightarrow> bool" where
  "lapsed now s m \<longleftrightarrow> (case map_of (z_leases s) m of None \<Rightarrow> False | Some sc \<Rightarrow> 0 \<le> sc \<and> sc \<le> now)"

lemma lapsed_set:
  assumes "vk_inv x s"
  shows "m \<in> set (ZRANGEBYSCORE 0 now (z_leases s)) \<longleftrightarrow> lapsed now s m"
  using ZRANGEBYSCORE_set [OF vk_invD(3) [OF assms]] by (auto simp: lapsed_def split: option.splits)

lemma lapsed_claimed: "vk_inv x s \<Longrightarrow> lapsed now s m \<Longrightarrow> h_claimed_by (wu s m) \<noteq> None"
  using vk_invD(4) [of x s m]
  by (cases "streams s m") (auto simp: lapsed_def unit_ok_Some lease_ok_def split: option.splits)

lemma luaReap_view:
  assumes "vk_inv x s"
  shows "vk_inv x (snd (luaReap now s)) \<and> streams (snd (luaReap now s)) = streams s \<and> vk_dlq (snd (luaReap now s)) = vk_dlq s \<and>
    wu (snd (luaReap now s)) = (\<lambda>m. if lapsed now s m then unlease (wu s m) else wu s m)"
proof -
  let ?ms = "ZRANGEBYSCORE 0 now (z_leases s)"
  have "distinct ?ms" by (rule ZRANGEBYSCORE_distinct [OF vk_invD(3) [OF assms]])
  from fold_reclaim [OF assms this, of now] fold_promote [of x "fold (reclaim now) ?ms s"]
  show ?thesis using lapsed_claimed [OF assms] by (simp add: luaReap_def Let_def lapsed_set [OF assms])
qed

end
