(* ===== verification/Valkey_System.thy ===== *)
theory Valkey_System
  imports Valkey_Inv Lease_Spec
begin

text \<open>
  Histories of one Valkey primary: calls by any number of producers, workers and reapers, each script atomic,
  with connections that fail before a command or lose its reply. Every call is one step of the abstract
  lease queue; a claim of a unit whose lease has not ended is a takeover. The tokens issued so far are kept
  beside the keyspace, and a token drawn for a claim is assumed to be none of them.

  The abstract queue of a key is that of its member when the key has no bar in its workspace and session;
  a key with one shares the member, and the queue, of such a key.
\<close>

section \<open>Observations\<close>

definition stream_tasks :: "vk_stream option \<Rightarrow> Task list" where
  "stream_tasks st = (case st of None \<Rightarrow> [] | Some st \<Rightarrow> map entryToTask (entries st))"

definition hash_holder :: "vk_hash \<Rightarrow> (WorkerID \<times> LeaseToken) option" where
  "hash_holder h = (case h_claimed_by h of None \<Rightarrow> None | Some w \<Rightarrow> map_option (Pair w) (h_lease_token h))"

definition vk_pending :: "vk \<Rightarrow> WorkUnitKey \<Rightarrow> Task list" where
  "vk_pending s k = (if bar_free k then stream_tasks (streams s (member k)) else [])"

definition vk_holder :: "vk \<Rightarrow> WorkUnitKey \<Rightarrow> (WorkerID \<times> LeaseToken) option" where
  "vk_holder s k = (if bar_free k then hash_holder (wu s (member k)) else None)"

definition dead_entry :: "vk_dead \<Rightarrow> WorkUnitKey \<times> Task" where
  "dead_entry d = (splitMember (v_member d), \<lparr>Seq = v_seq d, Payload = v_p d, Cost = v_c d\<rparr>)"

definition vk_abs :: "vk \<times> LeaseToken set \<Rightarrow> spec" where
  "vk_abs su = \<lparr>s_queue = vk_pending (fst su), s_holder = vk_holder (fst su), s_issued = snd su,
    s_dead = map dead_entry (vk_dlq (fst su))\<rparr>"

lemma vk_abs_simps [simp]:
  "s_queue (vk_abs (s, U)) = vk_pending s" "s_holder (vk_abs (s, U)) = vk_holder s"
  "s_issued (vk_abs (s, U)) = U" "s_dead (vk_abs (s, U)) = map dead_entry (vk_dlq s)"
  by (simp_all add: vk_abs_def)

lemma hash_holder_simps [simp]: "h_claimed_by h = None \<Longrightarrow> hash_holder h = None"
  "h_claimed_by h = Some w \<Longrightarrow> h_lease_token h = Some tok \<Longrightarrow> hash_holder h = Some (w, tok)"
  by (simp_all add: hash_holder_def)

lemma stream_tasks_simps [simp]: "stream_tasks None = []" "stream_tasks (Some st) = map entryToTask (entries st)"
  by (simp_all add: stream_tasks_def)

lemma at_member: "is_member m \<Longrightarrow> vk_pending s (splitMember m) = stream_tasks (streams s m)"
  "is_member m \<Longrightarrow> vk_holder s (splitMember m) = hash_holder (wu s m)"
  using bar_free_split [of m] by (auto simp: vk_pending_def vk_holder_def is_member_def)

lemma only_abs:
  assumes "only m s s'" and "is_member m"
  shows "vk_pending s' = (vk_pending s)(splitMember m := stream_tasks (streams s' m))"
    and "vk_holder s' = (vk_holder s)(splitMember m := hash_holder (wu s' m))"
proof -
  have o: "streams s' m' = streams s m'" "wu s' m' = wu s m'" if "m' \<noteq> m" for m'
    using assms(1) that by (metis fun_upd_other only_def)+
  have ne: "member k \<noteq> m" if "k \<noteq> splitMember m" "bar_free k" for k
    using split_eq_iff [OF assms(2) that(2)] that(1) by metis
  show "vk_pending s' = (vk_pending s)(splitMember m := stream_tasks (streams s' m))"
    using at_member(1) [OF assms(2), of s'] o ne by (auto simp: fun_eq_iff vk_pending_def)
  show "vk_holder s' = (vk_holder s)(splitMember m := hash_holder (wu s' m))"
    using at_member(2) [OF assms(2), of s'] o ne by (auto simp: fun_eq_iff vk_holder_def)
qed

text \<open>A holder's script, seen from outside.\<close>

lemma leaves_abs:
  assumes "leaves x m st' kept s s'" and "is_member m"
  shows "vk_pending s' = (vk_pending s)(splitMember m := map entryToTask (entries st'))"
    and "vk_holder s' = (vk_holder s)(splitMember m := if kept then vk_holder s (splitMember m) else None)"
proof -
  have o: "only m s s'" using assms(1) by (simp add: leaves_def)
  show "vk_pending s' = (vk_pending s)(splitMember m := map entryToTask (entries st'))"
    using only_abs(1) [OF o assms(2)] assms(1) by (simp add: leaves_def)
  have "hash_holder (wu s' m) = (if kept then hash_holder (wu s m) else None)"
    using assms(1) by (auto simp: leaves_def hash_holder_def split: option.split)
  with only_abs(2) [OF o assms(2)] at_member(2) [OF assms(2), of s]
  show "vk_holder s' = (vk_holder s)(splitMember m := if kept then vk_holder s (splitMember m) else None)" by simp
qed

lemma held_holder:
  assumes "vk_inv x s" and "h_lease_token (wu s m) = Some tok"
  obtains st w n where "streams s m = Some st" and "is_member m" and "h_claimed_by (wu s m) = Some w" and "tok = vk_token n w"
    and "vk_holder s (splitMember m) = Some (w, tok)" and "vk_pending s (splitMember m) = map entryToTask (entries st)"
    and "stream_ok st"
proof -
  from held_unit [OF assms] obtain st w n where u: "streams s m = Some st" "is_member m" "h_claimed_by (wu s m) = Some w"
    "tok = vk_token n w" "stream_ok st" by metis
  with at_member [OF u(2)] assms(2) that show ?thesis by simp
qed

section \<open>Calls\<close>

text \<open>
  A history interleaves the atomic calls of any clients. \<open>VDra\<close> is a \<open>Drain\<close> that nothing interrupts; \<open>VTak\<close> and
  \<open>VNew\<close> are its two reading commands on their own, in any order and with any claim, as when the lease has been
  lost since it was checked; their connection faults are their own.
\<close>

datatype vk_call =
    VEnq vk_env WorkUnitKey string int
  | VCla vk_env WorkerID duration
  | VDra vk_env ClaimedUnit int
  | VAck vk_env ClaimedUnit int
  | VRel vk_env ClaimedUnit
  | VHbt vk_env ClaimedUnit duration
  | VFai vk_env ClaimedUnit int string
  | VRea vk_env time
  | VTak vk_env ClaimedUnit int
  | VNew vk_env ClaimedUnit int nat

fun vk_exec :: "vk_opts \<Rightarrow> vk_call \<Rightarrow> vk \<Rightarrow> vk" where
  "vk_exec opts (VEnq e k p cost) s = snd (vk_Enqueue opts e k p cost s)"
| "vk_exec opts (VCla e w d) s = snd (vk_Claim e w d s)"
| "vk_exec opts (VDra e c n) s = snd (vk_Drain e c n s)"
| "vk_exec opts (VAck e c th) s = snd (vk_Ack e c th s)"
| "vk_exec opts (VRel e c) s = snd (vk_Release e c s)"
| "vk_exec opts (VHbt e c d) s = snd (vk_Heartbeat e c d s)"
| "vk_exec opts (VFai e c seq reason) s = snd (vk_Fail opts e c seq reason s)"
| "vk_exec opts (VRea e now) s = snd (vk_ReapExpired e now s)"
| "vk_exec opts (VTak e c n) s = snd (drain_claim e c n s)"
| "vk_exec opts (VNew e c n got) s = snd (drain_read e c n got s)"

fun vk_call_link :: "vk_call \<Rightarrow> link" where
  "vk_call_link (VEnq e k p cost) = vk_link e"
| "vk_call_link (VCla e w d) = vk_link e"
| "vk_call_link (VDra e c n) = vk_link e"
| "vk_call_link (VAck e c th) = vk_link e"
| "vk_call_link (VRel e c) = vk_link e"
| "vk_call_link (VHbt e c d) = vk_link e"
| "vk_call_link (VFai e c seq reason) = vk_link e"
| "vk_call_link (VRea e now) = vk_link e"
| "vk_call_link (VTak e c n) = Up"
| "vk_call_link (VNew e c n got) = Up"

fun reaches :: "link \<Rightarrow> bool" where
  "reaches (Down x) = False"
| "reaches _ = True"

text \<open>What a script does when the connection lets it run, in the words of the specification.\<close>

fun script_event :: "vk_opts \<Rightarrow> vk \<Rightarrow> vk_call \<Rightarrow> event" where
  "script_event opts s (VEnq e k p cost) =
    (case fst (luaEnqueue (member k) p cost (v_defT opts) (go_div (v_defWait opts) 1000000) (vk_ms e) s) of
      Ok seq \<Rightarrow> EvEnqueue (splitMember (member k)) \<lparr>Seq = seq, Payload = p, Cost = cost\<rparr>
    | _ \<Rightarrow> EvNone)"
| "script_event opts s (VCla e w d) =
    (case fst (luaClaim w (vk_token (vk_tick e) w) (go_div d 1000000) (vk_ms e) s) of
      None \<Rightarrow> EvNone
    | Some m \<Rightarrow> (if h_claimed_by (wu s m) = None then EvClaim else EvTakeover) (splitMember m) w (vk_token (vk_tick e) w))"
| "script_event opts s (VDra e c n) = EvNone"
| "script_event opts s (VAck e c th) =
    (let m = member (Key c)
     in case (fst (luaAck m (Lease c) th (vk_ms e) s), h_claimed_by (wu s m), streams s m) of
         (Ok h, Some w, Some st) \<Rightarrow> EvAck (splitMember m) w (Lease c) (map entryToTask (ack_gone th st)) (h = 1)
       | _ \<Rightarrow> EvNone)"
| "script_event opts s (VRel e c) =
    (let m = member (Key c)
     in case (fst (luaRelease m (Lease c) (vk_ms e) s), h_claimed_by (wu s m)) of
         (Ok _, Some w) \<Rightarrow> EvRelease (splitMember m) w (Lease c)
       | _ \<Rightarrow> EvNone)"
| "script_event opts s (VHbt e c d) = EvNone"
| "script_event opts s (VFai e c seq reason) =
    (let m = member (Key c)
     in case (fst (luaFail m (Lease c) seq reason (vk_ms e) (v_maxTries opts) s), h_claimed_by (wu s m)) of
         (Ok _, Some w) \<Rightarrow> EvFail (splitMember m) w (Lease c)
           (if fail_cap m seq (v_maxTries opts) s then map_option entryToTask (stream_head (streams s m)) else None)
       | _ \<Rightarrow> EvNone)"
| "script_event opts s (VTak e c n) = EvNone"
| "script_event opts s (VNew e c n got) = EvNone"
| "script_event opts s (VRea e now) = EvExpire {k. bar_free k \<and> lapsed (now div 1000000) s (member k)}"

definition vk_event :: "vk_opts \<Rightarrow> vk \<times> LeaseToken set \<Rightarrow> vk_call \<Rightarrow> event" where
  "vk_event opts su vc = (if reaches (vk_call_link vc) then script_event opts (fst su) vc else EvNone)"

text \<open>
  Costs are positive 64-bit integers and the token of a claim is fresh. With \<open>x\<close>, no enqueue puts a unit that
  is already eligible below the threshold.
\<close>

fun vk_possible :: "bool \<Rightarrow> vk_opts \<Rightarrow> vk \<times> LeaseToken set \<Rightarrow> vk_call \<Rightarrow> bool" where
  "vk_possible x opts su (VEnq e k p cost) = (1 \<le> cost \<and> int8 cost \<and> (x \<longrightarrow> enq_safe (member k) cost (v_defT opts) (fst su)))"
| "vk_possible x opts su (VCla e w d) = (vk_token (vk_tick e) w \<notin> snd su)"
| "vk_possible x opts su _ = True"

definition vk_next :: "vk_opts \<Rightarrow> vk_call \<Rightarrow> vk \<times> LeaseToken set \<Rightarrow> vk \<times> LeaseToken set" where
  "vk_next opts vc su = (vk_exec opts vc (fst su), snd su \<union> issues (vk_event opts su vc))"

inductive vk_step :: "bool \<Rightarrow> vk_opts \<Rightarrow> vk \<times> LeaseToken set \<Rightarrow> vk_call \<Rightarrow> vk \<times> LeaseToken set \<Rightarrow> bool"
  for x opts where
  call: "vk_possible x opts su vc \<Longrightarrow> vk_step x opts su vc (vk_next opts vc su)"

inductive_simps vk_step_iff: "vk_step x opts su vc su'"


section \<open>Each call is a step of the lease queue\<close>

lemma trip_snd: "snd (trip l f s) = (if reaches l then snd (f s) else s)"
  by (cases l) (auto simp: trip_def)

lemma vk_exec_link:
  "snd (vk_Enqueue opts e k p cost s) = (if reaches (vk_link e) then snd (luaEnqueue (member k) p cost (v_defT opts)
    (go_div (v_defWait opts) 1000000) (vk_ms e) s) else s)"
  "snd (vk_Claim e w d s) = (if reaches (vk_link e) then snd (luaClaim w (vk_token (vk_tick e) w) (go_div d 1000000) (vk_ms e) s) else s)"
  "snd (vk_Ack e c th s) = (if reaches (vk_link e) then snd (luaAck (member (Key c)) (Lease c) th (vk_ms e) s) else s)"
  "snd (vk_Release e c s) = (if reaches (vk_link e) then snd (luaRelease (member (Key c)) (Lease c) (vk_ms e) s) else s)"
  "snd (vk_Heartbeat e c d s) = (if reaches (vk_link e) then snd (luaHeartbeat (member (Key c)) (Lease c) (go_div d 1000000) (vk_ms e) s) else s)"
  "snd (vk_Fail opts e c seq reason s) = (if reaches (vk_link e) then snd (luaFail (member (Key c)) (Lease c) seq reason (vk_ms e)
    (v_maxTries opts) s) else s)"
  "snd (vk_ReapExpired e now s) = (if reaches (vk_link e) then snd (luaReap (now div 1000000) s) else s)"
  using trip_snd [of "vk_link e"]
  by (cases "vk_link e";
      auto simp: vk_Enqueue_def vk_Claim_def vk_Ack_def vk_Release_def vk_Heartbeat_def vk_Fail_def vk_ReapExpired_def trip_def
        Let_def split: prod.splits option.splits)+

lemma luaEnqueue_sim:
  assumes "vk_inv x s" and "1 \<le> cost" and "int8 cost" and "x \<longrightarrow> enq_safe (member k) cost T s"
    and r_def: "r = luaEnqueue (member k) p cost T mw now s"
  shows "vk_inv x (snd r) \<and>
    spec_step (vk_abs (s, U)) (case fst r of Ok seq \<Rightarrow> EvEnqueue (splitMember (member k)) \<lparr>Seq = seq, Payload = p, Cost = cost\<rparr> | _ \<Rightarrow> EvNone)
      (vk_abs (snd r, U))"
proof -
  let ?m = "member k"
  note m = member_canonical(1) [of k]
  have inv: "vk_inv x (snd r)" unfolding r_def by (rule luaEnqueue_inv [OF assms(1,2) m assms(3,4)])
  show ?thesis
    using assms(1,2) m
  proof (cases rule: luaEnqueue_ok [where p = p and T = T and mw = mw and now = now])
    case (overflow s')
    then have "s' = s" using assms(3) by (cases "streams s ?m") (auto simp: XGROUP_CREATE_def map_upd_triv)
    with overflow inv show ?thesis by (simp add: r_def spec_step.stutter)
  next
    case (added st h seq s')
    let ?t = "\<lparr>Seq = seq, Payload = p, Cost = cost\<rparr>" and ?k = "splitMember ?m"
    have o: "only ?m s s'" by (simp add: only_def added(12))
    have st: "stream_tasks (streams s ?m) = map entryToTask (entries st)"
      unfolding added(2) by (auto simp: XGROUP_CREATE_def new_stream_def split: option.split)
    have "vk_pending s' = (vk_pending s)(?k := vk_pending s ?k @ [?t])"
      using only_abs(1) [OF o m] at_member(1) [OF m, of s] st by (simp add: added(12) XADD_def entryToTask_def)
    moreover have "hash_holder h = hash_holder (wu s ?m)" by (simp add: hash_holder_def added(7,8) split: option.split)
    then have "vk_holder s' = vk_holder s"
      using only_abs(2) [OF o m] at_member(2) [OF m, of s] by (simp add: added(12) fun_upd_idem)
    ultimately have ab: "vk_abs (s', U) = (vk_abs (s, U))\<lparr>s_queue := (s_queue (vk_abs (s, U)))(?k := s_queue (vk_abs (s, U)) ?k @ [?t])\<rparr>"
      by (simp add: vk_abs_def added(12))
    have "spec_step (vk_abs (s, U)) (EvEnqueue ?k ?t) (vk_abs (s', U))"
      unfolding ab
      by (rule spec_step.enqueue) (use added(4) at_member(1) [OF m, of s] st in \<open>auto simp: entryToTask_def\<close>)
    with added(1) inv show ?thesis by (simp add: r_def)
  qed
qed

lemma luaClaim_sim:
  assumes "vk_inv x s" and "tok = vk_token n w" and "tok \<notin> U"
    and r_def: "r = luaClaim w tok ms now s"
    and ev_def: "ev = (case fst (luaClaim w tok ms now s) of None \<Rightarrow> EvNone
      | Some m \<Rightarrow> (if h_claimed_by (wu s m) = None then EvClaim else EvTakeover) (splitMember m) w tok)"
  shows "vk_inv x (snd r) \<and> spec_step (vk_abs (s, U)) ev (vk_abs (snd r, U \<union> issues ev)) \<and>
    (x \<longrightarrow> (\<forall>k w tok. ev \<noteq> EvTakeover k w tok))"
proof (cases "ZPOPMIN (z_eligible s)")
  case None
  then show ?thesis using assms(1) by (simp add: r_def ev_def luaClaim_def spec_step.stutter)
next
  case (Some mz)
  obtain m z where mz: "mz = (m, z)" by (cases mz)
  note z = ZPOPMIN_Some [OF Some [unfolded mz]]
  have inv: "vk_inv x (snd r)" unfolding r_def by (rule luaClaim_inv [OF assms(1,2)])
  obtain st where st: "streams s m = Some st" by (rule vk_inv_stream [OF assms(1)]) (use z(2) in blast)+
  have u: "is_member m" "hash_ok (wu s m) (entries st)" "index_ok x (wu s m) (map_of (z_eligible s) m) (map_of (z_flush s) m)"
    "lease_ok (wu s m) (map_of (z_leases s) m)"
    using vk_invD(4) [OF assms(1), of m] st by (simp_all add: unit_ok_Some)
  let ?k = "splitMember m"
  have s': "snd r = (set_hash m ((wu s m)\<lparr>h_claimed_by := Some w, h_lease_token := Some tok, h_lease_ms := Some ms,
      h_lease_exp := Some (now + ms)\<rparr>) s)\<lparr>z_eligible := ZREM m (z_eligible s), z_leases := ZADD m (now + ms) (z_leases s)\<rparr>"
    by (simp add: r_def luaClaim_def Some mz z(1))
  have o: "only m s (snd r)" by (simp add: only_def s')
  have "vk_pending (snd r) = vk_pending s" "vk_holder (snd r) = (vk_holder s)(?k \<mapsto> (w, tok))"
    using only_abs [OF o u(1)] at_member(1) [OF u(1), of s] by (simp_all add: s' hash_holder_def fun_upd_idem)
  moreover have ev: "ev = (if h_claimed_by (wu s m) = None then EvClaim else EvTakeover) ?k w tok"
    by (simp add: ev_def luaClaim_def Some mz)
  ultimately have ab: "vk_abs (snd r, U \<union> issues ev) = (vk_abs (s, U))\<lparr>s_holder := (s_holder (vk_abs (s, U)))(?k \<mapsto> (w, tok)),
      s_issued := insert tok U\<rparr>"
    by (simp add: vk_abs_def s')
  have q: "s_queue (vk_abs (s, U)) ?k \<noteq> []" using at_member(1) [OF u(1), of s] st u(2) by (simp add: hash_ok_def)
  have h: "s_holder (vk_abs (s, U)) ?k = None" if "h_claimed_by (wu s m) = None"
    using at_member(2) [OF u(1), of s] that by simp
  have "spec_step (vk_abs (s, U)) ev (vk_abs (snd r, U \<union> issues ev))"
    unfolding ab
    using spec_step.claim [OF q h, of tok "insert tok U" w] spec_step.takeover [OF q, of tok "insert tok U" w] assms(3)
    by (simp add: ev)
  moreover have "h_claimed_by (wu s m) = None" if x using u(3) z(2) that by (auto simp: index_ok_def split: if_splits)
  ultimately show ?thesis using inv ev by auto
qed

lemma luaAck_sim:
  assumes "vk_inv x s" and "h_lease_token (wu s m) = Some tok"
  obtains h s' w st where "luaAck m tok th now s = (Ok h, s')" and "h_claimed_by (wu s m) = Some w" and "streams s m = Some st"
    and "vk_inv x s'"
    and "spec_step (vk_abs (s, U)) (EvAck (splitMember m) w tok (map entryToTask (ack_gone th st)) (h = 1)) (vk_abs (s', U))"
proof -
  from held_holder [OF assms] obtain st w where u: "streams s m = Some st" "is_member m" "h_claimed_by (wu s m) = Some w"
    "vk_holder s (splitMember m) = Some (w, tok)" "vk_pending s (splitMember m) = map entryToTask (entries st)" by metis
  let ?st = "cut (length (ack_gone th st)) st" and ?k = "splitMember m" and ?\<sigma> = "vk_abs (s, U)"
  from luaAck_held [OF assms u(1) refl] obtain kept s' where a: "luaAck m tok th now s = (Ok (if kept then 1 else 0), s')"
    "leaves x m ?st kept s s'" "vk_dlq s' = vk_dlq s" by metis
  have ab: "vk_abs (s', U) = ?\<sigma>\<lparr>s_queue := (s_queue ?\<sigma>)(?k := map entryToTask (entries ?st)),
      s_holder := (s_holder ?\<sigma>)(?k := if kept then Some (w, tok) else None)\<rparr>"
    using leaves_abs [OF a(2) u(2)] u(4) a(3) by (simp add: vk_abs_def)
  have "spec_step ?\<sigma> (EvAck ?k w tok (map entryToTask (ack_gone th st)) kept) (vk_abs (s', U))"
    unfolding ab
  proof (rule spec_step.ack)
    show "s_queue ?\<sigma> ?k = map entryToTask (ack_gone th st) @ map entryToTask (entries ?st)"
      unfolding map_append [symmetric] using u(5) ack_gone_entries [of st th] by simp
    show "map entryToTask (entries ?st) \<noteq> []" if kept using a(2) that by (simp add: leaves_def)
  qed (use u(4) in simp)
  moreover have "vk_inv x s'" using a(2) by (simp add: leaves_def)
  ultimately show ?thesis by (intro that [OF a(1) u(3,1)]) (cases kept; simp)+
qed


lemma luaRelease_sim:
  assumes "vk_inv x s" and "h_lease_token (wu s m) = Some tok"
  obtains s' w where "luaRelease m tok now s = (Ok 1, s')" and "h_claimed_by (wu s m) = Some w" and "vk_inv x s'"
    and "spec_step (vk_abs (s, U)) (EvRelease (splitMember m) w tok) (vk_abs (s', U))"
proof -
  from held_holder [OF assms] obtain st w where u: "streams s m = Some st" "is_member m" "h_claimed_by (wu s m) = Some w"
    "vk_holder s (splitMember m) = Some (w, tok)" "vk_pending s (splitMember m) = map entryToTask (entries st)" by metis
  from luaRelease_held [OF assms u(1)] obtain s' where a: "luaRelease m tok now s = (Ok 1, s')"
    "leaves x m st False s s'" "vk_dlq s' = vk_dlq s" by metis
  have ab: "vk_abs (s', U) = (vk_abs (s, U))\<lparr>s_holder := (s_holder (vk_abs (s, U)))(splitMember m := None)\<rparr>"
    using leaves_abs [OF a(2) u(2)] u(5) a(3) by (simp add: vk_abs_def fun_upd_idem)
  have "spec_step (vk_abs (s, U)) (EvRelease (splitMember m) w tok) (vk_abs (s', U))"
    unfolding ab by (rule spec_step.release) (use u(4) in simp)
  then show ?thesis using that a u(3) by (simp add: leaves_def)
qed

lemma luaFail_sim:
  assumes "vk_inv x s" and "h_lease_token (wu s m) = Some tok"
  obtains s' w where "luaFail m tok fseq reason now tries s = (Ok 1, s')" and "h_claimed_by (wu s m) = Some w" and "vk_inv x s'"
    and "spec_step (vk_abs (s, U)) (EvFail (splitMember m) w tok
      (if fail_cap m fseq tries s then map_option entryToTask (stream_head (streams s m)) else None)) (vk_abs (s', U))"
proof -
  from held_holder [OF assms] obtain st w where u: "streams s m = Some st" "is_member m" "h_claimed_by (wu s m) = Some w"
    "vk_holder s (splitMember m) = Some (w, tok)" "vk_pending s (splitMember m) = map entryToTask (entries st)" by metis
  let ?cap = "fail_cap m fseq tries s" and ?k = "splitMember m" and ?\<sigma> = "vk_abs (s, U)"
  from luaFail_held [OF assms u(1)] obtain st' s' where a: "luaFail m tok fseq reason now tries s = (Ok 1, s')"
    "leaves x m st' False s s'" "entries st' = (if ?cap then tl (entries st) else entries st)"
    "vk_dlq s' = vk_dlq s @ (if ?cap then [dead_head m (hd (entries st)) reason] else [])" by metis
  note ab = leaves_abs [OF a(2) u(2)]
  have h: "s_holder ?\<sigma> ?k = Some (w, tok)" using u(4) by simp
  have "spec_step ?\<sigma> (EvFail ?k w tok (if ?cap then map_option entryToTask (stream_head (streams s m)) else None)) (vk_abs (s', U))"
  proof (cases ?cap)
    case True
    then obtain e es where e: "entries st = e # es" using u(1) by (auto simp: fail_cap_def stream_head_def split: list.splits)
    have st: "vk_abs (s', U) = ?\<sigma>\<lparr>s_queue := (s_queue ?\<sigma>)(?k := map entryToTask es), s_holder := (s_holder ?\<sigma>)(?k := None),
        s_dead := s_dead ?\<sigma> @ [(?k, entryToTask e)]\<rparr>"
      using ab True a(3,4) e by (simp add: vk_abs_def dead_entry_def dead_head_def entryToTask_def)
    have ev: "(if ?cap then map_option entryToTask (stream_head (streams s m)) else None) = Some (entryToTask e)"
      using True u(1) e by (simp add: stream_head_def)
    show ?thesis unfolding st ev by (rule spec_step.poison [OF h]) (use u(5) e in simp)
  next
    case False
    then have st: "vk_abs (s', U) = ?\<sigma>\<lparr>s_holder := (s_holder ?\<sigma>)(?k := None)\<rparr>"
      using ab a(3,4) u(5) by (simp add: vk_abs_def fun_upd_idem)
    have ev: "(if ?cap then map_option entryToTask (stream_head (streams s m)) else None) = None" using False by simp
    show ?thesis unfolding st ev by (rule spec_step.retry [OF h])
  qed
  then show ?thesis using that a u(3) by (simp add: leaves_def)
qed

text \<open>Calls that leave queues and leases as they are.\<close>

lemma luaHeartbeat_sim:
  assumes "vk_inv x s"
  shows "vk_inv x (snd (luaHeartbeat m tok ext now s)) \<and> vk_pending (snd (luaHeartbeat m tok ext now s)) = vk_pending s \<and>
    vk_holder (snd (luaHeartbeat m tok ext now s)) = vk_holder s \<and> vk_dlq (snd (luaHeartbeat m tok ext now s)) = vk_dlq s \<and>
    streams (snd (luaHeartbeat m tok ext now s)) = streams s"
proof (cases "h_lease_token (wu s m) = Some tok")
  case True
  from held_holder [OF assms True] obtain st where u: "streams s m = Some st" "is_member m"
    "vk_pending s (splitMember m) = map entryToTask (entries st)" by metis
  from luaHeartbeat_held [OF assms True u(1)] obtain s' where a: "luaHeartbeat m tok ext now s = (Ok 1, s')"
    "leaves x m st True s s'" "vk_dlq s' = vk_dlq s" by metis
  moreover have "streams (snd (luaHeartbeat m tok ext now s)) = streams s" by (simp add: luaHeartbeat_def)
  ultimately show ?thesis using leaves_abs [OF a(2) u(2)] u(3) by (simp add: leaves_def fun_upd_idem)
qed (simp add: luaHeartbeat_lost assms)

text \<open>Reads of a stream that deliver entries but keep them.\<close>

definition reading :: "(vk_stream \<Rightarrow> vk_entry list \<times> vk_stream) \<Rightarrow> bool" where
  "reading f \<longleftrightarrow> (\<forall>st es st'. stream_ok st \<longrightarrow> f st = (es, st') \<longrightarrow>
     stream_ok st' \<and> entries st' = entries st \<and> delivered st \<le> delivered st')"

lemma reading_commands: "reading (XAUTOCLAIM w n)" "reading (XREADGROUP w n)"
  unfolding reading_def using XAUTOCLAIM_ok(2-4) [of _ w n] XREADGROUP_ok(2-4) [of _ w n] by (metis order_refl)+

definition same_queues :: "vk \<Rightarrow> vk \<Rightarrow> bool" where
  "same_queues s s' \<longleftrightarrow> vk_pending s' = vk_pending s \<and> vk_holder s' = vk_holder s \<and> vk_dlq s' = vk_dlq s \<and> wu s' = wu s \<and>
     (\<forall>m st. streams s m = Some st \<longrightarrow>
       (\<exists>st'. streams s' m = Some st' \<and> entries st' = entries st \<and> delivered st \<le> delivered st'))"

lemma same_queues_refl: "same_queues s s"
  by (simp add: same_queues_def)

lemma same_queues_trans:
  assumes "same_queues s1 s2" and "same_queues s2 s3"
  shows "same_queues s1 s3"
proof -
  have "\<exists>st3. streams s3 m = Some st3 \<and> entries st3 = entries st \<and> delivered st \<le> delivered st3"
    if "streams s1 m = Some st" for m st
  proof -
    from assms(1) that obtain st2 where 2: "streams s2 m = Some st2" "entries st2 = entries st" "delivered st \<le> delivered st2"
      unfolding same_queues_def by blast
    with assms(2) obtain st3 where "streams s3 m = Some st3" "entries st3 = entries st2" "delivered st2 \<le> delivered st3"
      unfolding same_queues_def by blast
    with 2 show ?thesis by auto
  qed
  with assms show ?thesis by (simp add: same_queues_def)
qed

lemma stream_upd:
  assumes "vk_inv x s" and "streams s m = Some st" and "stream_ok st'" and "entries st' = entries st" and "delivered st \<le> delivered st'"
  shows "vk_inv x (s\<lparr>streams := (streams s)(m \<mapsto> st')\<rparr>)" and "same_queues s (s\<lparr>streams := (streams s)(m \<mapsto> st')\<rparr>)"
proof -
  let ?s = "s\<lparr>streams := (streams s)(m \<mapsto> st')\<rparr>"
  have o: "only m s ?s" by (simp add: only_def)
  have u: "unit_ok x m (wu s m) (Some st) (map_of (z_eligible s) m) (map_of (z_flush s) m) (map_of (z_leases s) m)"
    using vk_invD(4) [OF assms(1), of m] assms(2) by simp
  show "vk_inv x ?s"
    by (rule vk_inv_only [OF assms(1) o]) (use u assms(2-4) in \<open>simp_all add: unit_ok_Some\<close>)
  have m: "is_member m" using u by (simp add: unit_ok_Some)
  have "vk_pending ?s = vk_pending s" "vk_holder ?s = vk_holder s"
    using only_abs [OF o m] at_member [OF m, of s] assms(2,4) by (simp_all add: fun_upd_idem)
  then show "same_queues s ?s" using assms(2,4,5) by (simp add: same_queues_def)
qed

lemma read_stream_keeps:
  assumes "vk_inv x s" and "reading f" and "read_stream l f m s = (es, s')"
  shows "vk_inv x s' \<and> same_queues s s'"
proof (cases "streams s m")
  case None
  with assms show ?thesis by (simp add: read_stream_def same_queues_refl)
next
  case (Some st)
  obtain es1 st1 where f: "f st = (es1, st1)" by (cases "f st")
  have "stream_ok st" using vk_invD(4) [OF assms(1), of m] Some by (simp add: unit_ok_Some)
  with assms(2) f have "stream_ok st1" "entries st1 = entries st" "delivered st \<le> delivered st1" unfolding reading_def by metis+
  note s1 = stream_upd [OF assms(1) Some this]
  have "s' = s \<or> s' = s\<lparr>streams := (streams s)(m \<mapsto> st1)\<rparr>"
    using assms(3) by (cases l) (auto simp: read_stream_def Some f)
  then show ?thesis using s1 assms(1) same_queues_refl by auto
qed

lemma drain_commands_keep:
  assumes "vk_inv x s"
  shows "vk_inv x (snd (drain_claim e c n s)) \<and> same_queues s (snd (drain_claim e c n s))"
    and "vk_inv x (snd (drain_read e c n got s)) \<and> same_queues s (snd (drain_read e c n got s))"
  using read_stream_keeps [OF assms] reading_commands assms same_queues_refl
  by (auto simp: drain_claim_def drain_read_def) (metis prod.collapse)+

lemma vk_Drain_keeps:
  assumes "vk_inv x s"
  shows "vk_inv x (snd (vk_Drain e c n s)) \<and> same_queues s (snd (vk_Drain e c n s))"
proof -
  obtain es1 s1 where 1: "drain_claim e c n s = (es1, s1)" by fastforce
  obtain es2 s2 where 2: "drain_read e c n (length es1) s1 = (es2, s2)" by fastforce
  have a: "vk_inv x s1 \<and> same_queues s s1" using drain_commands_keep(1) [OF assms, of e c n] 1 by simp
  then have "vk_inv x s2 \<and> same_queues s1 s2" using drain_commands_keep(2) [of x s1 e c n "length es1"] 2 by simp
  then have "vk_inv x s2 \<and> same_queues s s2" using a same_queues_trans by blast
  then show ?thesis using 1 2 assms same_queues_refl by (simp add: vk_Drain_def)
qed

lemma luaReap_sim:
  assumes "vk_inv x s"
  shows "vk_inv x (snd (luaReap now s)) \<and> spec_step (vk_abs (s, U)) (EvExpire {k. bar_free k \<and> lapsed now s (member k)}) (vk_abs (snd (luaReap now s), U))"
proof -
  note v = luaReap_view [OF assms, of now]
  have "vk_holder (snd (luaReap now s)) = (\<lambda>k. if k \<in> {k. bar_free k \<and> lapsed now s (member k)} then None else vk_holder s k)"
    using v by (auto simp: vk_holder_def fun_eq_iff)
  moreover have "vk_pending (snd (luaReap now s)) = vk_pending s" using v by (simp add: vk_pending_def fun_eq_iff)
  ultimately have ab: "vk_abs (snd (luaReap now s), U) =
      (vk_abs (s, U))\<lparr>s_holder := (\<lambda>k. if k \<in> {k. bar_free k \<and> lapsed now s (member k)} then None else s_holder (vk_abs (s, U)) k)\<rparr>"
    using v by (simp add: vk_abs_def cong: if_cong)
  show ?thesis unfolding ab using v spec_step.expire by blast
qed


section \<open>The simulation\<close>

text \<open>What every call does: it keeps the invariant, and is a step of the specification.\<close>

definition vk_simulates :: "bool \<Rightarrow> vk_opts \<Rightarrow> vk \<times> LeaseToken set \<Rightarrow> vk_call \<Rightarrow> bool" where
  "vk_simulates x opts su vc \<longleftrightarrow> vk_inv x (vk_exec opts vc (fst su)) \<and>
     spec_step (vk_abs su) (vk_event opts su vc) (vk_abs (vk_next opts vc su)) \<and>
     (x \<longrightarrow> (\<forall>k w tok. vk_event opts su vc \<noteq> EvTakeover k w tok))"

lemma vk_stutters:
  assumes "vk_inv x s'" and "vk_event opts (s, U) vc = EvNone" and "vk_exec opts vc s = s'" and "vk_abs (s', U) = vk_abs (s, U)"
  shows "vk_simulates x opts (s, U) vc"
  using assms by (simp add: vk_simulates_def vk_next_def spec_step.stutter)

lemma vk_acts:
  assumes "vk_inv x s'" and "vk_event opts (s, U) vc = ev" and "vk_exec opts vc s = s'" and "issues ev = {}"
    and "spec_step (vk_abs (s, U)) ev (vk_abs (s', U))"
  shows "vk_simulates x opts (s, U) vc"
proof -
  have "ev \<noteq> EvTakeover k w tok" for k w tok using assms(4) by auto
  with assms show ?thesis by (simp add: vk_simulates_def vk_next_def)
qed

lemma sim_VAck:
  assumes "vk_inv x s" and "reaches (vk_link e)"
  shows "vk_simulates x opts (s, U) (VAck e c th)"
proof -
  let ?m = "member (Key c)"
  show ?thesis
  proof (cases "h_lease_token (wu s ?m) = Some (Lease c)")
    case held: True
    from luaAck_sim [OF assms(1) held] obtain h s' w st where "luaAck ?m (Lease c) th (vk_ms e) s = (Ok h, s')" "h_claimed_by (wu s ?m) = Some w"
      "streams s ?m = Some st" "vk_inv x s'"
      "spec_step (vk_abs (s, U)) (EvAck (splitMember ?m) w (Lease c) (map entryToTask (ack_gone th st)) (h = 1)) (vk_abs (s', U))"
      by metis
    with assms(2) show ?thesis by (intro vk_acts) (auto simp: vk_event_def vk_exec_link Let_def)
  qed (use assms in \<open>intro vk_stutters, auto simp: vk_event_def vk_exec_link luaAck_lost Let_def\<close>)
qed

lemma sim_VRel:
  assumes "vk_inv x s" and "reaches (vk_link e)"
  shows "vk_simulates x opts (s, U) (VRel e c)"
proof -
  let ?m = "member (Key c)"
  show ?thesis
  proof (cases "h_lease_token (wu s ?m) = Some (Lease c)")
    case held: True
    from luaRelease_sim [OF assms(1) held] obtain s' w where "luaRelease ?m (Lease c) (vk_ms e) s = (Ok 1, s')" "h_claimed_by (wu s ?m) = Some w"
      "vk_inv x s'" "spec_step (vk_abs (s, U)) (EvRelease (splitMember ?m) w (Lease c)) (vk_abs (s', U))" by metis
    with assms(2) show ?thesis by (intro vk_acts) (auto simp: vk_event_def vk_exec_link Let_def)
  qed (use assms in \<open>intro vk_stutters, auto simp: vk_event_def vk_exec_link luaRelease_lost Let_def\<close>)
qed

lemma sim_VFai:
  assumes "vk_inv x s" and "reaches (vk_link e)"
  shows "vk_simulates x opts (s, U) (VFai e c seq reason)"
proof -
  let ?m = "member (Key c)"
  show ?thesis
  proof (cases "h_lease_token (wu s ?m) = Some (Lease c)")
    case held: True
    from luaFail_sim [OF assms(1) held] obtain s' w where "luaFail ?m (Lease c) seq reason (vk_ms e) (v_maxTries opts) s = (Ok 1, s')"
      "h_claimed_by (wu s ?m) = Some w" "vk_inv x s'" "spec_step (vk_abs (s, U)) (EvFail (splitMember ?m) w (Lease c)
        (if fail_cap ?m seq (v_maxTries opts) s then map_option entryToTask (stream_head (streams s ?m)) else None)) (vk_abs (s', U))"
      by metis
    with assms(2) show ?thesis by (intro vk_acts) (auto simp: vk_event_def vk_exec_link Let_def)
  qed (use assms in \<open>intro vk_stutters, auto simp: vk_event_def vk_exec_link luaFail_lost Let_def\<close>)
qed

lemma vk_sim_call:
  assumes inv: "vk_inv x s" and pos: "vk_possible x opts (s, U) vc"
  shows "vk_simulates x opts (s, U) vc"
proof (cases "reaches (vk_call_link vc)")
  case False
  show ?thesis
  proof (rule vk_stutters [OF inv])
    have "vk_exec opts vc s = s" if "\<nexists>e c n. vc = VDra e c n" using that False by (cases vc) (auto simp: vk_exec_link)
    moreover have "vk_Drain e c n s = (Err ErrLeaseLost, s)" if "\<not> reaches (vk_link e)" for e c n
      using that by (cases "vk_link e") (simp_all add: vk_Drain_defs)
    ultimately show "vk_exec opts vc s = s" using False by fastforce
  qed (use False in \<open>simp_all add: vk_event_def\<close>)
next
  case True
  show ?thesis
  proof (cases vc)
    case (VEnq e k p cost)
    let ?r = "luaEnqueue (member k) p cost (v_defT opts) (go_div (v_defWait opts) 1000000) (vk_ms e) s"
    let ?ev = "case fst ?r of Ok seq \<Rightarrow> EvEnqueue (splitMember (member k)) \<lparr>Seq = seq, Payload = p, Cost = cost\<rparr> | _ \<Rightarrow> EvNone"
    have "vk_inv x (snd ?r) \<and> spec_step (vk_abs (s, U)) ?ev (vk_abs (snd ?r, U))"
      by (rule luaEnqueue_sim [OF inv _ _ _ refl]) (use pos VEnq in simp_all)
    moreover have "issues ?ev = {}" by (auto split: result.split)
    ultimately show ?thesis
      using True VEnq by (intro vk_acts [where s' = "snd ?r" and ev = ?ev]) (simp_all add: vk_event_def vk_exec_link)
  next
    case (VCla e w d)
    with luaClaim_sim [OF inv refl _ refl refl, of "vk_tick e" w U] pos True show ?thesis
      by (simp add: vk_simulates_def vk_next_def vk_event_def vk_exec_link)
  next
    case (VDra e c n)
    have "vk_inv x (snd (vk_Drain e c n s)) \<and> same_queues s (snd (vk_Drain e c n s))" by (rule vk_Drain_keeps [OF inv])
    with VDra show ?thesis by (intro vk_stutters [where s' = "snd (vk_Drain e c n s)"]) (auto simp: vk_event_def same_queues_def vk_abs_def)
  next
    case (VTak e c n)
    with drain_commands_keep(1) [OF inv, of e c n] show ?thesis
      by (intro vk_stutters [where s' = "snd (drain_claim e c n s)"]) (auto simp: vk_event_def same_queues_def vk_abs_def)
  next
    case (VNew e c n got)
    with drain_commands_keep(2) [OF inv, of e c n got] show ?thesis
      by (intro vk_stutters [where s' = "snd (drain_read e c n got s)"]) (auto simp: vk_event_def same_queues_def vk_abs_def)
  next
    case (VAck e c th)
    with sim_VAck [OF inv] True show ?thesis by simp
  next
    case (VRel e c)
    with sim_VRel [OF inv] True show ?thesis by simp
  next
    case (VHbt e c d)
    with luaHeartbeat_sim [OF inv, of "member (Key c)" "Lease c" "go_div d 1000000" "vk_ms e"] True show ?thesis
      by (intro vk_stutters [where s' = "snd (luaHeartbeat (member (Key c)) (Lease c) (go_div d 1000000) (vk_ms e) s)"])
        (auto simp: vk_event_def vk_exec_link vk_abs_def)
  next
    case (VFai e c seq reason)
    with sim_VFai [OF inv] True show ?thesis by simp
  next
    case (VRea e now)
    with luaReap_sim [OF inv, of "now div 1000000" U] True show ?thesis
      by (intro vk_acts) (auto simp: vk_event_def vk_exec_link)
  qed
qed

definition vk_ok :: "bool \<Rightarrow> vk \<times> LeaseToken set \<Rightarrow> bool" where
  "vk_ok x su \<longleftrightarrow> vk_inv x (fst su) \<and> leases_sound (vk_abs su)"

lemma vk_step_ok:
  assumes "vk_ok x su" and "vk_step x opts su vc su'"
  shows "vk_ok x su'" and "spec_step (vk_abs su) (vk_event opts su vc) (vk_abs su')"
    and "x \<Longrightarrow> vk_event opts su vc \<noteq> EvTakeover k w tok"
proof -
  obtain s U where su: "su = (s, U)" by (cases su)
  from assms have p: "vk_possible x opts su vc" and su': "su' = vk_next opts vc su" and inv: "vk_inv x s"
    by (simp_all add: vk_ok_def vk_step_iff su)
  note sim = vk_sim_call [OF inv p [unfolded su]]
  from sim su su' show st: "spec_step (vk_abs su) (vk_event opts su vc) (vk_abs su')" by (simp add: vk_simulates_def)
  from sim su show "x \<Longrightarrow> vk_event opts su vc \<noteq> EvTakeover k w tok" by (simp add: vk_simulates_def)
  have "vk_inv x (fst su')" using sim su su' by (simp add: vk_simulates_def vk_next_def)
  with spec_step_leases [OF st] assms(1) show "vk_ok x su'" by (simp add: vk_ok_def)
qed

interpretation vkl: lease_simulation "vk_step x opts" "vk_event opts" vk_abs "\<lambda>_. vk_ok x" limit for x opts limit
  by unfold_locales (auto simp: vk_step_ok, simp add: vk_ok_def)

abbreviation vk_run :: "bool \<Rightarrow> vk_opts \<Rightarrow> vk \<times> LeaseToken set \<Rightarrow> vk_call list \<Rightarrow> event list \<Rightarrow> vk \<times> LeaseToken set \<Rightarrow> bool" where
  "vk_run x opts \<equiv> impl_run (vk_step x opts) (vk_event opts)"

text \<open>In a run that keeps the stronger invariant no lease is taken over.\<close>

lemma vk_run_ok: "vk_run x opts su vcs evs su' \<Longrightarrow> vk_ok x su \<Longrightarrow> vk_ok x su'"
  by (induction rule: impl_run.induct) (auto dest: vk_step_ok)

lemma vk_run_no_takeover:
  assumes "vk_run True opts su vcs evs su'" and "vk_ok True su"
  shows "EvTakeover k w tok \<notin> set evs"
  using assms
proof (induction rule: impl_run.induct)
  case (snoc vcs evs s' vc s'')
  have "vk_ok True s'" using vk_run_ok [OF snoc.hyps(1) snoc.prems] .
  from vk_step_ok(3) [OF this snoc.hyps(2) TrueI, of k w tok] snoc.IH [OF snoc.prems] show ?case by auto
qed simp

lemma vk_empty_ok: "vk_ok x (vk_empty, {})"
  by (simp add: vk_ok_def vk_inv_def vk_empty_def leases_sound_def vk_holder_def hash_holder_def vk_abs_def)

section \<open>Runs computed from their calls\<close>

fun vk_nexts :: "vk_opts \<Rightarrow> vk_call list \<Rightarrow> vk \<times> LeaseToken set \<Rightarrow> vk \<times> LeaseToken set" where
  "vk_nexts opts [] su = su"
| "vk_nexts opts (vc # vcs) su = vk_nexts opts vcs (vk_next opts vc su)"

fun vk_events :: "vk_opts \<Rightarrow> vk \<times> LeaseToken set \<Rightarrow> vk_call list \<Rightarrow> event list" where
  "vk_events opts su [] = []"
| "vk_events opts su (vc # vcs) = vk_event opts su vc # vk_events opts (vk_next opts vc su) vcs"

fun vk_feasible :: "bool \<Rightarrow> vk_opts \<Rightarrow> vk \<times> LeaseToken set \<Rightarrow> vk_call list \<Rightarrow> bool" where
  "vk_feasible x opts su [] = True"
| "vk_feasible x opts su (vc # vcs) = (vk_possible x opts su vc \<and> vk_feasible x opts (vk_next opts vc su) vcs)"

lemma vk_run_nexts: "vk_feasible x opts su vcs \<Longrightarrow> vk_run x opts su vcs (vk_events opts su vcs) (vk_nexts opts vcs su)"
proof (induction vcs arbitrary: su)
  case (Cons vc vcs)
  then show ?case using impl_run_Cons [OF Cons.IH vk_step.call, of vc su] by simp
qed (simp add: impl_run.nil)

end
