(* ===== verification/Valkey_Contract.thy ===== *)
theory Valkey_Contract
  imports Valkey_System Worker
begin

text \<open>
  A Valkey primary keeps the contract of the \<open>Backend\<close> interface, with connection faults at any point of any
  call except the one that takes over pending entries in \<open>Drain\<close>; so does the sharded driver over any number
  of such primaries. A holder may acknowledge what was delivered from the stream. Claims are exclusive as
  long as the stronger invariant holds; the worker loop relies on the weaker one only.
\<close>

section \<open>Tokens\<close>

lemma fmt_d_sep:
  assumes "fmt_d n @ CHR ''-'' # w = fmt_d n' @ CHR ''-'' # w'"
  shows "w = w' \<and> fmt_d n = fmt_d n'"
proof -
  have d: "CHR ''-'' \<notin> set (show_nat i)" for i by (rule notin_show_nat) simp
  have hd: "hd (show_nat i) \<noteq> CHR ''-''" for i by (rule show_nat_hd) simp
  show ?thesis
  proof (cases "n < 0 \<longleftrightarrow> n' < 0")
    case True
    then have "show_nat (nat \<bar>n\<bar>) @ CHR ''-'' # w = show_nat (nat \<bar>n'\<bar>) @ CHR ''-'' # w'"
      using assms by (auto simp: fmt_d_def split: if_splits)
    from append_sep_inj_first [OF this d d] True show ?thesis by (auto simp: fmt_d_def abs_if split: if_splits)
  next
    case False
    then have "hd (show_nat i @ xs) = CHR ''-''" if "i = nat n \<or> i = nat n'" "CHR ''-'' # ys = show_nat i @ xs" for i xs ys
      using that(2) by (metis list.sel(1))
    with False assms show ?thesis using hd by (auto simp: fmt_d_def split: if_splits) (metis hd_append2 list.sel(1) show_nat_nonempty(1))+
  qed
qed

lemma vk_token_inj: "vk_token n w = vk_token n' w' \<longleftrightarrow> fmt_d n = fmt_d n' \<and> w = w'"
  using fmt_d_sep [of n w n' w'] by (auto simp: vk_token_def)

section \<open>One primary\<close>

definition vk_genuine :: "ClaimedUnit \<Rightarrow> bool" where
  "vk_genuine c \<longleftrightarrow> bar_free (Key c) \<and> (\<exists>n. Lease c = vk_token n (Worker c))"

definition vk_holds :: "vk \<Rightarrow> ClaimedUnit \<Rightarrow> bool" where
  "vk_holds s c \<longleftrightarrow> vk_genuine c \<and> vk_holder s (Key c) = Some (Worker c, Lease c)"

definition vk_env_ok :: "vk \<Rightarrow> vk_env \<Rightarrow> bool" where
  "vk_env_ok s e \<longleftrightarrow> True"

definition vk_drain_ok :: "vk_env \<Rightarrow> bool" where
  "vk_drain_ok e \<longleftrightarrow> claim_link e = Up"

text \<open>A holder may acknowledge a number below which nothing is, or will be, undelivered.\<close>

definition vk_ackable :: "vk \<Rightarrow> ClaimedUnit \<Rightarrow> int \<Rightarrow> bool" where
  "vk_ackable s c th \<longleftrightarrow>
     (case streams s (member (Key c)) of
        None \<Rightarrow> False
      | Some st \<Rightarrow> th < num0 (h_next_seq (wu s (member (Key c)))) \<and> (\<forall>e \<in> set (entries st). e_seq e \<le> th \<longrightarrow> e_id e \<le> delivered st))"

lemma vk_Backend_simps [simp]:
  "be_Enqueue (vk_Backend opts) = vk_Enqueue opts" "be_Claim (vk_Backend opts) = vk_Claim" "be_Drain (vk_Backend opts) = vk_Drain"
  "be_Ack (vk_Backend opts) = vk_Ack" "be_Release (vk_Backend opts) = vk_Release" "be_Heartbeat (vk_Backend opts) = vk_Heartbeat"
  "be_Fail (vk_Backend opts) = vk_Fail opts" "be_ReapExpired (vk_Backend opts) = vk_ReapExpired"
  by (simp_all add: vk_Backend_def)

lemma vk_holds_cong: "vk_holder s' = vk_holder s \<Longrightarrow> vk_holds s' = vk_holds s"
  by (simp add: vk_holds_def fun_eq_iff)

lemma stream_tasks_sorted:
  assumes "stream_ok st"
  shows "seq_sorted (map entryToTask (entries st))"
proof -
  have "sorted_wrt (\<lambda>e e'. e_id e < e_id e' \<and> e_seq e < e_seq e') (entries st)" using assms by (simp add: stream_ok_def)
  then show ?thesis unfolding sorted_wrt_map by (rule sorted_wrt_mono_rel [rotated]) (simp add: entryToTask_def)
qed

lemma vk_pending_sorted:
  assumes "vk_inv x s"
  shows "seq_sorted (vk_pending s k)"
  using vk_invD(4) [OF assms, of "member k"] stream_tasks_sorted
  by (cases "streams s (member k)") (auto simp: vk_pending_def unit_ok_Some)

text \<open>The scripts' check of the token alone is a check of the claim.\<close>

lemma genuine_holds:
  assumes "vk_inv x s" and "vk_genuine c"
  shows "vk_holds s c \<longleftrightarrow> h_lease_token (wu s (member (Key c))) = Some (Lease c)"
proof -
  have b: "bar_free (Key c)" using assms(2) by (simp add: vk_genuine_def)
  show ?thesis
  proof
    assume "vk_holds s c"
    then show "h_lease_token (wu s (member (Key c))) = Some (Lease c)"
      using b by (auto simp: vk_holds_def vk_holder_def hash_holder_def split: option.splits)
  next
    assume t: "h_lease_token (wu s (member (Key c))) = Some (Lease c)"
    from held_holder [OF assms(1) t] obtain w n where "vk_holder s (Key c) = Some (w, Lease c)" "Lease c = vk_token n w"
      using splitMember_member [OF b] by metis
    with assms(2) show "vk_holds s c" by (auto simp: vk_holds_def vk_genuine_def vk_token_inj)
  qed
qed

lemma leaseLost_Ok: "map_err g f r = Ok y \<Longrightarrow> \<exists>z. r = Ok z \<and> y = f z"
  by (cases r) (simp_all add: map_err_def)

lemma trip_cases:
  assumes "trip l f s = (r, s')"
  obtains (ran) "l = Up" "f s = (r, s')" | (down) x where "r = Err x" "s' = s" | (lost) x where "r = Err x" "s' = snd (f s)"
  using assms by (cases l) (auto simp: trip_def)


lemma luaClaim_obs:
  assumes "vk_inv x s" and "tok = vk_token n w" and "luaClaim w tok ms now s = (r, s')"
  shows "vk_inv x s' \<and> vk_pending s' = vk_pending s \<and>
    (case r of None \<Rightarrow> s' = s
     | Some m \<Rightarrow> is_member m \<and> vk_pending s (splitMember m) \<noteq> [] \<and> vk_holder s' = (vk_holder s)(splitMember m \<mapsto> (w, tok)) \<and>
         (x \<longrightarrow> vk_holder s (splitMember m) = None))"
proof -
  let ?ev = "case fst (luaClaim w tok ms now s) of None \<Rightarrow> EvNone
      | Some m \<Rightarrow> (if h_claimed_by (wu s m) = None then EvClaim else EvTakeover) (splitMember m) w tok"
  from luaClaim_sim [OF assms(1,2) _ refl refl, of "{}" ms now] assms(3)
  have inv: "vk_inv x s'" and st: "spec_step (vk_abs (s, {})) ?ev (vk_abs (s', issues ?ev))"
    and no: "x \<longrightarrow> (\<forall>k w tok. ?ev \<noteq> EvTakeover k w tok)" by simp_all
  show ?thesis
  proof (cases r)
    case None
    with assms(3) have "s' = s" by (auto simp: luaClaim_def split: option.splits prod.splits)
    with None assms(1) show ?thesis by simp
  next
    case (Some m)
    have "map_of (z_eligible s) m \<noteq> None"
      using assms(3) Some ZPOPMIN_Some(2) by (auto simp: luaClaim_def split: option.splits prod.splits)
    then obtain st where "streams s m = Some st" using vk_inv_stream [OF assms(1), of m] by blast
    then have m: "is_member m" using vk_invD(4) [OF assms(1), of m] by (simp add: unit_ok_Some)
    have ev: "?ev = (if h_claimed_by (wu s m) = None then EvClaim else EvTakeover) (splitMember m) w tok"
      using assms(3) Some by simp
    let ?k = "splitMember m"
    have "vk_pending s' = vk_pending s" "vk_holder s' = (vk_holder s)(?k \<mapsto> (w, tok))" "vk_pending s ?k \<noteq> []"
      and h: "?ev = EvClaim ?k w tok \<Longrightarrow> vk_holder s ?k = None"
      using st unfolding ev by (auto elim!: spec_stepE split: if_splits dest: arg_cong [of _ _ s_queue] arg_cong [of _ _ s_holder])
    moreover have "vk_holder s ?k = None" if x using h no that ev by (auto split: if_splits)
    ultimately show ?thesis using inv m Some by simp
  qed
qed

lemma vk_Claim_view:
  assumes "vk_inv x s" and "vk_Claim e w d s = (r, s')"
  shows "vk_inv x s' \<and> vk_pending s' = vk_pending s \<and> (r = Ok None \<longrightarrow> s' = s) \<and>
    (\<forall>c. r = Ok (Some c) \<longrightarrow> vk_holds s' c \<and> Worker c = w \<and> vk_pending s (Key c) \<noteq> [] \<and>
       vk_holder s' = (vk_holder s)(Key c \<mapsto> (w, Lease c)) \<and> (x \<longrightarrow> vk_holder s (Key c) = None))"
proof -
  let ?tok = "vk_token (vk_tick e) w"
  obtain r1 s1 where l: "luaClaim w ?tok (go_div d 1000000) (vk_ms e) s = (r1, s1)" by fastforce
  note o = luaClaim_obs [OF assms(1) refl l]
  show ?thesis
  proof (cases "vk_link e = Up")
    case True
    show ?thesis
    proof (cases r1)
      case None
      with assms(2) l o True show ?thesis by (auto simp: vk_Claim_def trip_def)
    next
      case (Some m)
      with assms(2) l True have r: "r = Ok (Some \<lparr>Key = splitMember m, Worker = w, Lease = ?tok, LeaseTill = vk_time e + d\<rparr>)" "s' = s1"
        by (auto simp: vk_Claim_def trip_def)
      with o Some bar_free_split [of m] show ?thesis by (auto simp: vk_holds_def vk_genuine_def)
    qed
  next
    case False
    with assms(2) l have "(\<exists>z. r = Err z) \<and> (s' = s \<or> s' = s1)"
      by (cases "vk_link e") (auto simp: vk_Claim_def trip_def Let_def)
    with o assms(1) show ?thesis by auto
  qed
qed

lemma vk_Ack_view:
  assumes "vk_inv x s" and "vk_genuine c" and "luaAck (member (Key c)) (Lease c) th now s = (r, s')"
  shows "vk_inv x s' \<and> (s' = s \<and> r = Err LEASELOST \<or> (\<exists>h st. r = Ok h \<and> vk_holds s c \<and> streams s (member (Key c)) = Some st \<and>
    vk_pending s (Key c) = map entryToTask (ack_gone th st) @ vk_pending s' (Key c) \<and> (\<forall>k. k \<noteq> Key c \<longrightarrow> vk_pending s' k = vk_pending s k) \<and>
    vk_holder s' = (vk_holder s)(Key c := if h = 1 then Some (Worker c, Lease c) else None)))"
proof (cases "vk_holds s c")
  case False
  with genuine_holds [OF assms(1,2)] luaAck_lost [of s "member (Key c)" "Lease c" th now] assms(1,3) show ?thesis by auto
next
  case True
  then have t: "h_lease_token (wu s (member (Key c))) = Some (Lease c)" using genuine_holds [OF assms(1,2)] by simp
  have k: "splitMember (member (Key c)) = Key c" using assms(2) splitMember_member by (simp add: vk_genuine_def)
  from luaAck_sim [OF assms(1) t, of th now "{}"] assms(3) obtain h w st where a: "r = Ok h" "streams s (member (Key c)) = Some st" "vk_inv x s'"
    "h_claimed_by (wu s (member (Key c))) = Some w"
    "spec_step (vk_abs (s, {})) (EvAck (Key c) w (Lease c) (map entryToTask (ack_gone th st)) (h = 1)) (vk_abs (s', {}))"
    unfolding k by (metis prod.inject)
  have w: "w = Worker c"
    using True a(4) by (auto simp: vk_holds_def vk_holder_def hash_holder_def split: if_splits option.splits)
  from a(5) obtain rest where "vk_abs (s', {}) = (vk_abs (s, {}))\<lparr>s_queue := (vk_pending s)(Key c := rest),
      s_holder := (vk_holder s)(Key c := if h = 1 then Some (w, Lease c) else None)\<rparr>"
    and rest: "vk_pending s (Key c) = map entryToTask (ack_gone th st) @ rest"
    by (auto elim!: spec_stepE)
  from arg_cong [OF this(1), of s_queue] arg_cong [OF this(1), of s_holder]
  have "vk_pending s' = (vk_pending s)(Key c := rest)" "vk_holder s' = (vk_holder s)(Key c := if h = 1 then Some (w, Lease c) else None)"
    by simp_all
  with a(1-3) rest True w show ?thesis by auto
qed

lemma ackable_gone:
  assumes "vk_ackable s c th" and "streams s (member (Key c)) = Some st"
  shows "ack_gone th st = takeWhile (\<lambda>e. e_seq e \<le> th) (entries st)"
  unfolding ack_gone_def by (rule takeWhile_cong) (use assms in \<open>auto simp: vk_ackable_def\<close>)

lemma vk_Release_view:
  assumes "vk_inv x s" and "vk_genuine c" and "luaRelease (member (Key c)) (Lease c) now s = (r, s')"
  shows "vk_inv x s' \<and> vk_pending s' = vk_pending s \<and> (\<forall>z. r = Ok z \<longrightarrow> vk_holds s c \<and> \<not> vk_holds s' c)"
proof (cases "vk_holds s c")
  case False
  with genuine_holds [OF assms(1,2)] luaRelease_lost [of s "member (Key c)" "Lease c" now] assms(1,3) show ?thesis by auto
next
  case True
  then have t: "h_lease_token (wu s (member (Key c))) = Some (Lease c)" using genuine_holds [OF assms(1,2)] by simp
  have k: "splitMember (member (Key c)) = Key c" using assms(2) splitMember_member by (simp add: vk_genuine_def)
  from luaRelease_sim [OF assms(1) t, of now "{}"] assms(3) obtain w where a: "vk_inv x s'"
    "spec_step (vk_abs (s, {})) (EvRelease (Key c) w (Lease c)) (vk_abs (s', {}))"
    unfolding k by (metis prod.inject)
  from a(2) have "vk_abs (s', {}) = (vk_abs (s, {}))\<lparr>s_holder := (vk_holder s)(Key c := None)\<rparr>" by (auto elim!: spec_stepE)
  from arg_cong [OF this, of s_queue] arg_cong [OF this, of s_holder] a(1) True show ?thesis by (simp add: vk_holds_def)
qed


text \<open>
  The batch of a drain: the pending entries first, then new ones, at most \<open>n\<close>; a prefix of the stream, all of it
  delivered afterwards.
\<close>

lemma batch_prefix:
  assumes "stream_ok st" and "es1 = take n (takeWhile (\<lambda>e. e_id e \<le> delivered st) (entries st))"
    and "es2 = (if length es1 < n then take j (filter (\<lambda>e. delivered st < e_id e) (entries st)) else [])"
  shows "es1 @ es2 = take (length (es1 @ es2)) (entries st)"
proof -
  let ?ds = "takeWhile (\<lambda>e. e_id e \<le> delivered st) (entries st)" and ?us = "filter (\<lambda>e. delivered st < e_id e) (entries st)"
  have en: "entries st = ?ds @ ?us" by (rule entries_split [OF assms(1)])
  show ?thesis
  proof (cases "length es1 < n")
    case True
    then have "es1 = ?ds" using assms(2) by simp
    with True assms(3) show ?thesis by (subst en) (simp add: min_def)
  next
    case False
    then have "es2 = []" "length es1 = n" "n \<le> length ?ds" using assms(2,3) by (auto simp: min_def split: if_splits)
    with assms(2) show ?thesis by (subst en) simp
  qed
qed


lemma prefix_delivered:
  assumes "stream_ok st'" and "ts = take (length ts) (entries st')" and "\<forall>e \<in> set ts. e_id e \<le> delivered st'" and "ts \<noteq> []"
    and "e \<in> set (entries st')" and "e_seq e \<le> e_seq (last ts)"
  shows "e_id e \<le> delivered st'"
proof -
  have en: "entries st' = ts @ drop (length ts) (entries st')" using assms(2) by (metis append_take_drop_id)
  have "sorted_wrt (\<lambda>e e'. e_id e < e_id e' \<and> e_seq e < e_seq e') (ts @ drop (length ts) (entries st'))"
    unfolding en [symmetric] using assms(1) by (simp add: stream_ok_def)
  then have "e \<notin> set (drop (length ts) (entries st'))" 
    using assms(6) last_in_set [OF assms(4)] unfolding sorted_wrt_append by (meson linorder_not_le)
  then have "e \<in> set ts" using assms(5) arg_cong [OF en, of set] by auto
  with assms(3) show ?thesis by blast
qed

lemma read_stream_Some:
  assumes "streams s m = Some st" and "f st = (es, st')"
  shows "read_stream l f m s = (if l = Up then es else [], if reaches l then s\<lparr>streams := (streams s)(m \<mapsto> st')\<rparr> else s)"
  using assms by (cases l) (simp_all add: read_stream_def)

text \<open>
  What an uninterrupted \<open>Drain\<close> returns when the pending entries can be taken over: the first entries of the
  stream, in order, all of them delivered.
\<close>

lemma drained_batch:
  assumes "streams s (member (Key c)) = Some st" and "stream_ok st" and t: "drain_check e c s" and "vk_drain_ok e"
    and "vk_Drain e c n s = (Ok ts, s')"
  shows "\<exists>bs st'. ts = map entryToTask bs \<and> bs = take (length bs) (entries st) \<and> int (length bs) \<le> max n 0 \<and>
    streams s' (member (Key c)) = Some st' \<and> (\<forall>e \<in> set bs. e_id e \<le> delivered st')"
proof (cases "n \<le> 0")
  case True
  with assms(5) t assms(1) show ?thesis by (intro exI [of _ "[]"] exI [of _ st]) (simp add: vk_Drain_defs Let_def)
next
  case False
  obtain es1 st1 where x1: "XAUTOCLAIM (Worker c) (nat n) st = (es1, st1)" by fastforce
  note c1 = XAUTOCLAIM_ok [OF assms(2) x1]
  obtain es2 st2 where x2: "XREADGROUP (Worker c) (nat (n - int (length es1))) st1 = (es2, st2)" by fastforce
  note c2 = XREADGROUP_ok [OF c1(2) x2]
  let ?s1 = "s\<lparr>streams := (streams s)(member (Key c) \<mapsto> st1)\<rparr>"
  have r1: "read_stream (claim_link e) (XAUTOCLAIM (Worker c) (nat n)) (member (Key c)) s = (es1, ?s1)"
    using read_stream_Some [of s "member (Key c)" st "XAUTOCLAIM (Worker c) (nat n)"] assms(1) x1 assms(4) by (simp add: vk_drain_ok_def)
  have r2: "read_stream (read_link e) (XREADGROUP (Worker c) (nat (n - int (length es1)))) (member (Key c)) ?s1 =
      (if read_link e = Up then es2 else [], if reaches (read_link e) then ?s1\<lparr>streams := (streams ?s1)(member (Key c) \<mapsto> st2)\<rparr> else ?s1)"
    by (rule read_stream_Some) (use x2 in simp_all)
  let ?more = "int (length es1) < n"
  let ?es2 = "if ?more \<and> read_link e = Up then es2 else []" and ?st = "if ?more \<and> reaches (read_link e) then st2 else st1"
  let ?bs = "es1 @ ?es2"
  have bs: "?bs = take (length ?bs) (entries st)"
    using batch_prefix [OF assms(2) c1(1), of _ "if read_link e = Up then nat (n - int (length es1)) else 0"] c2(1) c1(3,4) False
    by (auto simp: nat_less_iff zless_nat_eq_int_zless split: if_splits)
  have srt: "sort_key Seq (map entryToTask ?bs) = map entryToTask ?bs"
  proof (rule sort_key_id_if_sorted)
    have "seq_sorted (map entryToTask (take (length ?bs) (entries st)))"
      unfolding take_map [symmetric] by (rule sorted_wrt_take [OF stream_tasks_sorted [OF assms(2)]])
    then have "seq_sorted (map entryToTask ?bs)" using bs by simp
    then show "sorted (map Seq (map entryToTask ?bs))"
      unfolding sorted_map by (rule sorted_wrt_mono_rel [rotated]) simp
  qed
  have ts: "ts = map entryToTask ?bs" "streams s' (member (Key c)) = Some ?st"
    using assms(5) t False r1 r2 srt by (auto simp: vk_Drain_defs Let_def split: if_splits)
  have d1: "e_id e \<le> delivered st" if "e \<in> set es1" for e using that c1(1) set_takeWhileD in_set_takeD by fast
  have "\<forall>e \<in> set ?bs. e_id e \<le> delivered ?st"
    using d1 c1(4) c2(4,5) by (auto split: if_splits dest: le_trans)
  moreover have "int (length ?bs) \<le> max n 0"
    using c1(1) c2(1) False by (auto simp: min_def)
  ultimately show ?thesis using ts bs by blast
qed

lemma vk_Drain_view:
  assumes "vk_inv x s" and "vk_genuine c" and "vk_drain_ok e" and "vk_Drain e c n s = (Ok ts, s')"
  shows "vk_holds s c" and "ts = take (length ts) (vk_pending s (Key c))" and "int (length ts) \<le> max n 0"
    and "ts \<noteq> [] \<Longrightarrow> vk_ackable s' c (Seq (last ts))"
proof -
  let ?m = "member (Key c)"
  have b: "bar_free (Key c)" using assms(2) by (simp add: vk_genuine_def)
  have t: "h_lease_token (wu s ?m) = Some (Lease c)"
    using assms(4) by (auto simp: vk_Drain_defs Let_def split: if_splits)
  then show "vk_holds s c" using genuine_holds [OF assms(1,2)] by simp
  from held_unit [OF assms(1) t] obtain st where st: "streams s ?m = Some st" "stream_ok st" "hash_ok (wu s ?m) (entries st)" by metis
  have p: "vk_pending s (Key c) = map entryToTask (entries st)" using b st(1) by (simp add: vk_pending_def)
  have inv': "vk_inv x s'" and same: "same_queues s s'" using vk_Drain_keeps [OF assms(1), of e c n] assms(4) by simp_all
  have "drain_check e c s" using assms(4) by (auto simp: vk_Drain_def split: if_splits)
  from drained_batch [OF st(1,2) this assms(3,4)]
  obtain bs st' where bs: "ts = map entryToTask bs" "bs = take (length bs) (entries st)" "int (length bs) \<le> max n 0"
    "streams s' ?m = Some st'" "\<forall>e \<in> set bs. e_id e \<le> delivered st'" by blast
  show "ts = take (length ts) (vk_pending s (Key c))"
    unfolding p bs(1) length_map take_map using bs(2) by (rule arg_cong)
  show "int (length ts) \<le> max n 0" using bs(1,3) by simp
  assume "ts \<noteq> []"
  then have ne: "bs \<noteq> []" using bs(1) by simp
  have en: "entries st' = entries st" and w: "wu s' = wu s" using same st(1) bs(4) unfolding same_queues_def by (metis option.inject)+
  have ok': "stream_ok st'" using vk_invD(4) [OF inv', of ?m] bs(4) by (simp add: unit_ok_Some)
  have "last bs \<in> set (entries st)" using last_in_set [OF ne] bs(2) in_set_takeD by metis
  then have "e_seq (last bs) < num0 (h_next_seq (wu s ?m))" using st(3) by (auto simp: hash_ok_def)
  moreover have "Seq (last ts) = e_seq (last bs)" using bs(1) ne by (simp add: last_map entryToTask_def)
  moreover have "\<forall>e \<in> set (entries st'). e_seq e \<le> e_seq (last bs) \<longrightarrow> e_id e \<le> delivered st'"
    using prefix_delivered [OF ok' _ bs(5) ne] bs(2) en by metis
  ultimately show "vk_ackable s' c (Seq (last ts))" using bs(4) w by (simp add: vk_ackable_def)
qed

lemma same_queues_ackable:
  assumes "same_queues s s'" and "vk_ackable s c th"
  shows "vk_ackable s' c th"
proof -
  from assms(2) obtain st where st: "streams s (member (Key c)) = Some st" by (auto simp: vk_ackable_def split: option.splits)
  with assms(1) obtain st' where "streams s' (member (Key c)) = Some st'" "entries st' = entries st" "delivered st \<le> delivered st'"
    unfolding same_queues_def by blast
  with assms st show ?thesis by (auto simp: vk_ackable_def same_queues_def dest: le_trans)
qed


lemma vk_ackable_cong:
  assumes "streams s' = streams s" and "\<And>m. h_next_seq (wu s' m) = h_next_seq (wu s m)"
  shows "vk_ackable s' = vk_ackable s"
  using assms by (simp add: vk_ackable_def fun_eq_iff split: option.split)

lemma vk_Heartbeat_keeps:
  assumes "vk_inv x s" and "vk_Heartbeat e c d s = (r, s')"
  shows "vk_inv x s' \<and> vk_pending s' = vk_pending s \<and> vk_holds s' = vk_holds s \<and> (\<forall>c th. vk_ackable s c th \<longrightarrow> vk_ackable s' c th)"
proof -
  let ?s = "snd (luaHeartbeat (member (Key c)) (Lease c) (go_div d 1000000) (vk_ms e) s)"
  have "s' = (if reaches (vk_link e) then ?s else s)" using vk_exec_link(5) [of e c d s] assms(2) by simp
  moreover have "h_next_seq (wu ?s m) = h_next_seq (wu s m)" for m by (simp add: luaHeartbeat_def)
  then have "vk_ackable ?s = vk_ackable s"
    using luaHeartbeat_sim [OF assms(1), of "member (Key c)" "Lease c" "go_div d 1000000" "vk_ms e"]
    by (intro vk_ackable_cong) simp_all
  ultimately show ?thesis
    using luaHeartbeat_sim [OF assms(1), of "member (Key c)" "Lease c" "go_div d 1000000" "vk_ms e"] vk_holds_cong [of s ?s] assms(1) by simp
qed

text \<open>A method that runs one script, and what its reply says of the script's.\<close>

lemma script_reply:
  assumes "(case trip l f s of (r, s) \<Rightarrow> (map_err leaseLost g r, s)) = (r', s')"
  obtains (ran) r where "f s = (r, s')" "r' = map_err leaseLost g r" | (err) z where "r' = Err z" "s' = s \<or> s' = snd (f s)"
  using assms by (cases l; cases "f s") (auto simp: trip_def map_err_def)

lemma script_reply_Ok:
  assumes "(case trip l f s of (r, s) \<Rightarrow> (map_err leaseLost g r, s)) = (Ok y, s')"
  obtains z where "f s = (Ok z, s')" "y = g z"
  using assms
proof (cases rule: script_reply)
  case (ran r)
  with leaseLost_Ok [of leaseLost g r y] that show ?thesis by auto
qed simp

lemma vk_Drain_law:
  assumes "vk_inv False s" and "vk_genuine c" and "vk_drain_ok e" and "vk_Drain e c n s = (r, s')"
  shows "vk_inv False s' \<and> vk_pending s' = vk_pending s \<and> vk_holds s' = vk_holds s \<and> (\<forall>c th. vk_ackable s c th \<longrightarrow> vk_ackable s' c th) \<and>
      (\<forall>ts. r = Ok ts \<longrightarrow> vk_holds s c \<and> ts = take (length ts) (vk_pending s (Key c)) \<and> int (length ts) \<le> max n 0 \<and>
        (ts \<noteq> [] \<longrightarrow> vk_ackable s' c (Seq (last ts))))"
proof (intro conjI allI impI)
  have k: "vk_inv False s'" "same_queues s s'" using vk_Drain_keeps [OF assms(1), of e c n] assms(4) by simp_all
  then show "vk_inv False s'" "vk_pending s' = vk_pending s" "vk_holds s' = vk_holds s"
    using vk_holds_cong [of s s'] by (simp_all add: same_queues_def)
  show "vk_ackable s' c th" if "vk_ackable s c th" for c th by (rule same_queues_ackable [OF k(2) that])
  fix ts
  assume "r = Ok ts"
  with assms(4) have "vk_Drain e c n s = (Ok ts, s')" by simp
  note v = vk_Drain_view [OF assms(1-3) this]
  show "vk_holds s c" "ts = take (length ts) (vk_pending s (Key c))" "int (length ts) \<le> max n 0" by (rule v)+
  show "vk_ackable s' c (Seq (last ts))" if "ts \<noteq> []" by (rule v(4) [OF that])
qed

lemma vk_Ack_held:
  assumes "vk_inv False s" and "vk_genuine c" and "vk_Ack e c th s = (Ok h, s')"
  shows "vk_holds s c"
  using assms(3) unfolding vk_Ack_def
proof (cases rule: script_reply_Ok)
  case (1 z)
  from vk_Ack_view [OF assms(1,2) 1(1)] show ?thesis by auto
qed

lemma vk_Ack_law:
  assumes "vk_inv False s" and "vk_genuine c" and "vk_ackable s c th" and "vk_Ack e c th s = (Ok h, s')"
  shows "vk_pending s' (Key c) = dropWhile (\<lambda>t. Seq t \<le> th) (vk_pending s (Key c)) \<and> (h \<longleftrightarrow> vk_holds s' c)"
  using assms(4) unfolding vk_Ack_def
proof (cases rule: script_reply_Ok)
  case (1 z)
  from vk_Ack_view [OF assms(1,2) 1(1)] obtain st where st: "streams s (member (Key c)) = Some st"
    "vk_pending s (Key c) = map entryToTask (ack_gone th st) @ vk_pending s' (Key c)"
    "vk_holder s' = (vk_holder s)(Key c := if z = 1 then Some (Worker c, Lease c) else None)" by auto
  have p: "vk_pending s (Key c) = map entryToTask (entries st)" using st(1) assms(2) by (simp add: vk_pending_def vk_genuine_def)
  have "takeWhile (\<lambda>t. Seq t \<le> th) (vk_pending s (Key c)) = map entryToTask (ack_gone th st)"
    unfolding p ackable_gone [OF assms(3) st(1)] takeWhile_map by (simp add: o_def entryToTask_def)
  then have "vk_pending s' (Key c) = dropWhile (\<lambda>t. Seq t \<le> th) (vk_pending s (Key c))"
    using st(2) by (metis same_append_eq takeWhile_dropWhile_id)
  then show ?thesis using st(3) 1(2) assms(2) by (auto simp: vk_holds_def)
qed

lemma vk_Ack_any:
  assumes "vk_inv False s" and "vk_genuine c" and "vk_Ack e c th s = (rb, s')"
  shows "vk_inv False s' \<and> (\<exists>i. vk_pending s' (Key c) = drop i (vk_pending s (Key c))) \<and>
      (\<forall>k. k \<noteq> Key c \<longrightarrow> vk_pending s' k = vk_pending s k)"
proof -
  let ?f = "luaAck (member (Key c)) (Lease c) th (vk_ms e)"
  have ack: "vk_inv False s1 \<and> (\<exists>i. vk_pending s1 (Key c) = drop i (vk_pending s (Key c))) \<and>
      (\<forall>k. k \<noteq> Key c \<longrightarrow> vk_pending s1 k = vk_pending s k)" if "s1 = s \<or> s1 = snd (?f s)" for s1
    using vk_Ack_view [OF \<open>vk_inv False s\<close> \<open>vk_genuine c\<close> surjective_pairing, of th "vk_ms e"] that \<open>vk_inv False s\<close>
    by (metis append_eq_conv_conj drop0)
  show ?thesis
    using assms(3) unfolding vk_Ack_def
    by (cases rule: script_reply) (use ack in \<open>metis snd_conv\<close>)+
qed

lemma vk_Release_law:
  assumes "vk_inv False s" and "vk_genuine c" and "vk_Release e c s = (ru, s')"
  shows "vk_inv False s' \<and> vk_pending s' = vk_pending s \<and> (ru = Ok () \<longrightarrow> vk_holds s c \<and> \<not> vk_holds s' c)"
  using assms(3) unfolding vk_Release_def
proof (cases rule: script_reply)
  case (ran r)
  from vk_Release_view [OF assms(1,2) ran(1)] ran(2) leaseLost_Ok [of leaseLost "\<lambda>_. ()" r "()"] show ?thesis by auto
next
  case (err z)
  with vk_Release_view [OF assms(1,2) surjective_pairing, of "vk_ms e"] assms(1) show ?thesis by auto
qed

interpretation vkq: backend_contract "vk_Backend opts" "vk_inv False" vk_env_ok vk_drain_ok vk_genuine vk_pending vk_holds vk_ackable
  "vk_inv True" for opts
proof (unfold_locales, unfold vk_Backend_simps)
  show "seq_sorted (vk_pending s k)" if "vk_inv False s" for s k using that by (rule vk_pending_sorted)
  show "Worker c = Worker c' \<and> Lease c = Lease c'" if "vk_holds s c" "vk_holds s c'" "Key c = Key c'" for s c c'
    using that by (auto simp: vk_holds_def)
  show "vk_genuine c" if "vk_holds s c" for s c using that by (simp add: vk_holds_def)
  show "vk_inv False s' \<and> vk_pending s' = vk_pending s \<and> vk_holds s' = vk_holds s \<and> (vk_inv True s \<longrightarrow> vk_inv True s')"
    if "vk_inv False s" "vk_Claim e w d s = (Ok None, s')" for s e w d s'
    using vk_Claim_view [OF that] that(1) by simp
  show "vk_inv False s' \<and> vk_pending s' = vk_pending s" if "vk_inv False s" "vk_Claim e w d s = (rc, s')" for s e w d rc s'
    using vk_Claim_view [OF that] by simp
  show "vk_inv False s' \<and> vk_holds s' c \<and> Worker c = w \<and> vk_pending s' = vk_pending s \<and> vk_pending s (Key c) \<noteq> [] \<and>
      (vk_inv True s \<longrightarrow> (\<forall>c'. Key c' = Key c \<longrightarrow> \<not> vk_holds s c')) \<and> (\<forall>c'. Key c' \<noteq> Key c \<longrightarrow> vk_holds s' c' = vk_holds s c')"
    if "vk_inv False s" "vk_Claim e w d s = (Ok (Some c), s')" for s e w d c s'
    using vk_Claim_view [OF that] vk_Claim_view [OF _ that(2), of True] by (auto simp: vk_holds_def)
  show "vk_inv False s' \<and> vk_pending s' = vk_pending s \<and> vk_holds s' = vk_holds s \<and> (\<forall>c th. vk_ackable s c th \<longrightarrow> vk_ackable s' c th) \<and>
      (\<forall>ts. r = Ok ts \<longrightarrow> vk_holds s c \<and> ts = take (length ts) (vk_pending s (Key c)) \<and> int (length ts) \<le> max n 0 \<and>
        (ts \<noteq> [] \<longrightarrow> vk_ackable s' c (Seq (last ts))))"
    if "vk_inv False s" "vk_genuine c" "vk_drain_ok e" "vk_Drain e c n s = (r, s')" for s c e n r s'
    using that by (rule vk_Drain_law)
  show "vk_holds s c"
    if "vk_inv False s" "vk_genuine c" "vk_Ack e c th s = (Ok h, s')" for s c e th h s'
    using that by (rule vk_Ack_held)
  show "vk_pending s' (Key c) = dropWhile (\<lambda>t. Seq t \<le> th) (vk_pending s (Key c)) \<and> (h \<longleftrightarrow> vk_holds s' c)"
    if "vk_inv False s" "vk_genuine c" "vk_ackable s c th" "vk_Ack e c th s = (Ok h, s')" for s c e th h s'
    using that by (rule vk_Ack_law)
  show "vk_inv False s' \<and> (\<exists>i. vk_pending s' (Key c) = drop i (vk_pending s (Key c))) \<and>
      (\<forall>k. k \<noteq> Key c \<longrightarrow> vk_pending s' k = vk_pending s k)"
    if "vk_inv False s" "vk_genuine c" "vk_Ack e c th s = (rb, s')" for s c e th rb s'
    using that by (rule vk_Ack_any)
  show "vk_inv False s' \<and> vk_pending s' = vk_pending s \<and> (ru = Ok () \<longrightarrow> vk_holds s c \<and> \<not> vk_holds s' c)"
    if "vk_inv False s" "vk_genuine c" "vk_Release e c s = (ru, s')" for s c e ru s'
    using that by (rule vk_Release_law)
  show "vk_inv False s' \<and> vk_pending s' = vk_pending s \<and> vk_holds s' = vk_holds s \<and> (\<forall>c th. vk_ackable s c th \<longrightarrow> vk_ackable s' c th)"
    if "vk_inv False s" "vk_Heartbeat e c d s = (ru, s')" for s e c d ru s'
    using that by (rule vk_Heartbeat_keeps)
qed


section \<open>Many primaries\<close>

abbreviation vkc_inv :: "vk cluster \<Rightarrow> bool" where
  "vkc_inv \<equiv> cl_invar (vk_inv False) vk_pending"

abbreviation vkc_pending :: "vk cluster \<Rightarrow> WorkUnitKey \<Rightarrow> Task list" where
  "vkc_pending \<equiv> cl_pending vk_pending"

abbreviation vkc_holds :: "vk cluster \<Rightarrow> ClaimedUnit \<Rightarrow> bool" where
  "vkc_holds \<equiv> cl_holds vk_holds"

interpretation vkc: backend_contract "sharded (vk_Backend opts)" vkc_inv "cl_env_ok vk_env_ok" "cl_drain_ok vk_drain_ok" vk_genuine
  vkc_pending vkc_holds "cl_ackable vk_ackable" "cl_exclusive (vk_inv True)" for opts
  by (rule vkq.sharded_contract)

section \<open>Other clients of the cluster\<close>

text \<open>
  Calls of producers, reapers and workers other than \<open>w\<close>, each on the primary it is routed to. A call counts
  as \<open>w\<close>'s when it claims for \<open>w\<close> or acknowledges, releases or fails with a token issued to \<open>w\<close>; drains and
  heartbeats take nothing from a queue and end no lease.
\<close>

fun vk_by_worker :: "WorkerID \<Rightarrow> vk_call \<Rightarrow> bool" where
  "vk_by_worker w (VEnq e k p cost) = False"
| "vk_by_worker w (VRea e now) = False"
| "vk_by_worker w (VHbt e c d) = False"
| "vk_by_worker w (VDra e c n) = False"
| "vk_by_worker w (VTak e c n) = False"
| "vk_by_worker w (VNew e c n got) = False"
| "vk_by_worker w (VCla e w' d) = (w' = w)"
| "vk_by_worker w (VAck e c th) = (\<exists>n. Lease c = vk_token n w)"
| "vk_by_worker w (VRel e c) = (\<exists>n. Lease c = vk_token n w)"
| "vk_by_worker w (VFai e c seq reason) = (\<exists>n. Lease c = vk_token n w)"

fun vk_routes_to :: "vk cluster \<Rightarrow> nat \<Rightarrow> vk_call \<Rightarrow> bool" where
  "vk_routes_to cl i (VEnq e k p cost) = (owner cl k = i \<and> bar_free k \<and> 1 \<le> cost \<and> int8 cost)"
| "vk_routes_to cl i _ = True"

definition vkc_others :: "vk_opts \<Rightarrow> WorkerID \<Rightarrow> (nat \<times> vk_call) list \<Rightarrow> vk cluster \<Rightarrow> vk cluster" where
  "vkc_others opts w = cl_others (vk_exec opts) (\<lambda>cl i vc. \<not> vk_by_worker w vc \<and> vk_routes_to cl i vc)"

lemma vkc_others_Nil [simp]: "vkc_others opts w [] cl = cl"
  by (simp add: vkc_others_def)

lemma vk_by_worker_event:
  assumes "\<not> vk_by_worker w vc"
  shows "\<not> by_holder k w (vk_token n w) (vk_event opts su vc)" and "\<not> grants k w tok (vk_event opts su vc)"
  using assms by (cases vc; auto simp: vk_event_def Let_def split: result.splits option.splits prod.splits)+

text \<open>The stream of a unit under other clients' calls: entries are appended, more of them get delivered.\<close>

definition grown :: "string \<Rightarrow> vk \<Rightarrow> vk \<Rightarrow> bool" where
  "grown m s s' \<longleftrightarrow> (\<forall>st. streams s m = Some st \<longrightarrow>
     (\<exists>st' new. streams s' m = Some st' \<and> entries st' = entries st @ new \<and> delivered st \<le> delivered st' \<and>
       num0 (h_next_seq (wu s m)) \<le> num0 (h_next_seq (wu s' m)) \<and> (\<forall>e \<in> set new. num0 (h_next_seq (wu s m)) \<le> e_seq e)))"

lemma grownI:
  "streams s' m = streams s m \<Longrightarrow> h_next_seq (wu s' m) = h_next_seq (wu s m) \<Longrightarrow> grown m s s'"
  by (auto simp: grown_def)

lemma grown_ackable: "grown (member (Key c)) s s' \<Longrightarrow> vk_ackable s c th \<Longrightarrow> vk_ackable s' c th"
  by (fastforce simp: grown_def vk_ackable_def split: option.splits)

lemma grown_only: "only m' s s' \<Longrightarrow> m' \<noteq> m \<Longrightarrow> grown m s s'"
  by (rule grownI) (metis fun_upd_other only_def)+


lemma luaEnqueue_grown:
  assumes "vk_inv x s" and "1 \<le> cost" and "int8 cost"
  shows "grown m s (snd (luaEnqueue (member k) p cost T mw now s))"
  using assms(1,2) member_canonical(1) [of k]
proof (cases rule: luaEnqueue_ok [where p = p and T = T and mw = mw and now = now])
  case (overflow s')
  then have "s' = s" using assms(3) by (cases "streams s (member k)") (auto simp: XGROUP_CREATE_def map_upd_triv)
  with overflow show ?thesis by (simp add: grownI)
next
  case (added st h seq s')
  have o: "only (member k) s s'" by (simp add: only_def added(12))
  have "grown m s s'"
  proof (cases "member k = m")
    case True
    from added(6) have "seq < num0 (h_next_seq h)" by (auto simp: hash_ok_def XADD_def)
    with True added(2,5) show ?thesis by (auto simp: grown_def added(12) XADD_def XGROUP_CREATE_def)
  qed (use grown_only [OF o] in simp)
  with added(1) show ?thesis by simp
qed

lemma same_queues_grown:
  assumes "same_queues s s'"
  shows "grown m s s'"
  unfolding grown_def
proof (intro allI impI)
  fix st
  assume "streams s m = Some st"
  with assms obtain st' where "streams s' m = Some st'" "entries st' = entries st" "delivered st \<le> delivered st'"
    unfolding same_queues_def by blast
  moreover have "wu s' = wu s" using assms by (simp add: same_queues_def)
  ultimately show "\<exists>st' new. streams s' m = Some st' \<and> entries st' = entries st @ new \<and> delivered st \<le> delivered st' \<and>
      num0 (h_next_seq (wu s m)) \<le> num0 (h_next_seq (wu s' m)) \<and> (\<forall>e \<in> set new. num0 (h_next_seq (wu s m)) \<le> e_seq e)"
    by (intro exI [of _ st'] exI [of _ "[]"]) simp
qed

text \<open>A holder's script with another token works on another unit, or on none.\<close>

lemma foreign_script:
  assumes "vk_inv x s" and "h_lease_token (wu s m) = Some tok" and "tok' \<noteq> tok"
  shows "grown m s (snd (luaAck m' tok' th now s))" and "grown m s (snd (luaRelease m' tok' now s))"
    and "grown m s (snd (luaFail m' tok' fseq reason now tries s))"
proof -
  have *: "grown m s (snd (luaAck m' tok' th now s)) \<and> grown m s (snd (luaRelease m' tok' now s)) \<and>
      grown m s (snd (luaFail m' tok' fseq reason now tries s))"
  proof (cases "h_lease_token (wu s m') = Some tok'")
    case True
    then have m: "m' \<noteq> m" using assms(2,3) by auto
    from held_unit [OF assms(1) True] obtain st where st: "streams s m' = Some st" by metis
    have "only m' s (snd (luaAck m' tok' th now s))" 
      by (rule luaAck_held [OF assms(1) True st refl, of th now]) (simp add: leaves_def)
    moreover have "only m' s (snd (luaRelease m' tok' now s))" 
      by (rule luaRelease_held [OF assms(1) True st, of now]) (simp add: leaves_def)
    moreover have "only m' s (snd (luaFail m' tok' fseq reason now tries s))"
      by (rule luaFail_held [OF assms(1) True st, of fseq reason now tries]) (simp add: leaves_def)
    ultimately show ?thesis using grown_only m by blast
  qed (simp add: luaAck_lost luaRelease_lost luaFail_lost grownI)
  then show "grown m s (snd (luaAck m' tok' th now s))" "grown m s (snd (luaRelease m' tok' now s))"
    "grown m s (snd (luaFail m' tok' fseq reason now tries s))" by simp_all
qed

lemma vk_other_grown:
  assumes "vk_inv x s" and "vk_possible False opts (s, U) vc" and "\<not> vk_by_worker (Worker c) vc" and "vk_holds s c"
  shows "grown (member (Key c)) s (vk_exec opts vc s)"
proof -
  let ?m = "member (Key c)"
  from assms(4) obtain n where n: "Lease c = vk_token n (Worker c)" and g: "vk_genuine c"
    by (auto simp: vk_holds_def vk_genuine_def)
  have t: "h_lease_token (wu s ?m) = Some (Lease c)" using genuine_holds [OF assms(1) g] assms(4) by simp
  note foreign = foreign_script [OF assms(1) t]
  show ?thesis
  proof (cases vc)
    case (VEnq e k p cost)
    with assms(1,2) luaEnqueue_grown show ?thesis by (simp add: vk_exec_link grownI)
  next
    case (VCla e w d)
    have "grown ?m s (snd (luaClaim w (vk_token (vk_tick e) w) (go_div d 1000000) (vk_ms e) s))"
      by (rule grownI) (simp_all add: luaClaim_def split: option.split prod.split)
    with VCla show ?thesis by (simp add: vk_exec_link grownI)
  next
    case (VDra e c' n')
    with vk_Drain_keeps [OF assms(1), of e c' n'] same_queues_grown show ?thesis by simp
  next
    case (VTak e c' n')
    with drain_commands_keep(1) [OF assms(1), of e c' n'] same_queues_grown show ?thesis by simp
  next
    case (VNew e c' n' got)
    with drain_commands_keep(2) [OF assms(1), of e c' n' got] same_queues_grown show ?thesis by simp
  next
    case (VAck e c' th)
    with foreign(1) assms(3) n show ?thesis by (auto simp: vk_exec_link grownI)
  next
    case (VRel e c')
    with foreign(2) assms(3) n show ?thesis by (auto simp: vk_exec_link grownI)
  next
    case (VHbt e c' d)
    have "grown ?m s (snd (luaHeartbeat (member (Key c')) (Lease c') (go_div d 1000000) (vk_ms e) s))"
      by (rule grownI) (simp_all add: luaHeartbeat_def)
    with VHbt show ?thesis by (simp add: vk_exec_link grownI)
  next
    case (VFai e c' seq reason)
    with foreign(3) assms(3) n show ?thesis by (auto simp: vk_exec_link grownI)
  next
    case (VRea e now)
    have "grown ?m s (snd (luaReap (now div 1000000) s))"
      by (rule grownI) (use luaReap_view [OF assms(1), of "now div 1000000"] in simp_all)
    with VRea show ?thesis by (simp add: vk_exec_link grownI)
  qed
qed

lemma vk_other_call:
  assumes "vk_inv False s" and "vk_possible False opts (s, {}) vc" and "\<not> vk_by_worker (Worker c) vc"
  shows "evolves UNIV (vk_inv False) vk_pending vk_holds vk_ackable c s (vk_exec opts vc s)"
proof -
  obtain U where n: "vk_next opts vc (s, {}) = (vk_exec opts vc s, U)" by (simp add: vk_next_def)
  have step: "spec_step (vk_abs (s, {})) (vk_event opts (s, {}) vc) (vk_abs (vk_exec opts vc s, U))"
    and inv: "vk_inv False (vk_exec opts vc s)"
    using vk_sim_call [OF assms(1,2)] n by (simp_all add: vk_simulates_def)
  have "vk_holds s c \<and> vk_pending (vk_exec opts vc s) (Key c) = vk_pending s (Key c) @ entered (Key c) (vk_event opts (s, {}) vc) \<and>
      (\<forall>th. vk_ackable s c th \<longrightarrow> vk_ackable (vk_exec opts vc s) c th)"
    if "vk_holds (vk_exec opts vc s) c"
  proof -
    from that obtain i where g: "vk_genuine c" "Lease c = vk_token i (Worker c)"
      and h: "vk_holder (vk_exec opts vc s) (Key c) = Some (Worker c, Lease c)"
      by (auto simp: vk_holds_def vk_genuine_def)
    from spec_step_gains [OF step, of "Key c" "Worker c" "Lease c"] h vk_by_worker_event(2) [OF assms(3)]
    have h0: "vk_holder s (Key c) = Some (Worker c, Lease c)" by auto
    then have "vk_holds s c" using g by (simp add: vk_holds_def)
    with spec_step_others [OF step, of "Key c" "Worker c" "Lease c"] h h0 vk_by_worker_event(1) [OF assms(3), of "Key c" i] g(2)
      vk_other_grown [OF assms] grown_ackable
    show ?thesis by auto
  qed
  with inv show ?thesis by (auto simp: evolves_def)
qed

lemma vk_exec_pending:
  assumes "vk_inv False s" and "vk_possible False opts (s, {}) vc" and "vk_pending (vk_exec opts vc s) k \<noteq> []"
  shows "vk_pending s k \<noteq> [] \<or> (\<exists>e k' p cost. vc = VEnq e k' p cost \<and> k = splitMember (member k'))"
proof -
  obtain U where n: "vk_next opts vc (s, {}) = (vk_exec opts vc s, U)" by (simp add: vk_next_def)
  have "spec_step (vk_abs (s, {})) (vk_event opts (s, {}) vc) (vk_abs (vk_exec opts vc s, U))"
    using vk_sim_call [OF assms(1,2)] n by (simp add: vk_simulates_def)
  from spec_step_fifo [OF this, of k] assms(3)
  have "vk_pending s k \<noteq> [] \<or> entered k (vk_event opts (s, {}) vc) \<noteq> []" by (cases "vk_pending s k") auto
  moreover have "\<exists>e k' p cost. vc = VEnq e k' p cost \<and> k = splitMember (member k')" if "entered k (vk_event opts (s, {}) vc) \<noteq> []"
    using that by (cases vc) (auto simp: vk_event_def Let_def split: result.splits option.splits prod.splits if_splits)
  ultimately show ?thesis by blast
qed

lemma vkc_others_evolves:
  assumes "vkc_inv cl"
  shows "evolves UNIV vkc_inv vkc_pending vkc_holds (cl_ackable vk_ackable) c cl (vkc_others opts (Worker c) vcs cl)"
  unfolding vkc_others_def
proof (rule cl_others_evolves [OF _ assms], intro conjI allI impI)
  fix cl :: "vk cluster" and i vc k
  assume cl: "vkc_inv cl" and i: "i < length (shards cl)" and ok: "\<not> vk_by_worker (Worker c) vc \<and> vk_routes_to cl i vc"
  have inv: "vk_inv False (shards cl ! i)" using cl i by (simp add: cl_invar_def)
  have p: "vk_possible False opts (s, {}) vc" for s using ok by (cases vc) auto
  show "evolves UNIV (vk_inv False) vk_pending vk_holds vk_ackable c (shards cl ! i) (vk_exec opts vc (shards cl ! i))"
    using vk_other_call [OF inv p] ok by simp
  show "owner cl k = i" if "vk_pending (vk_exec opts vc (shards cl ! i)) k \<noteq> []"
    using vk_exec_pending [OF inv p that] cl i ok splitMember_member by (auto simp: cl_invar_def)
qed

definition vkc_others_turn :: "vk_opts \<Rightarrow> WorkerID \<Rightarrow> (nat \<Rightarrow> vk_env, vk cluster) turn \<Rightarrow> bool" where
  "vkc_others_turn opts w t \<longleftrightarrow> (\<exists>vcs. interfere t = vkc_others opts w vcs)"

definition vkc_others_round :: "vk_opts \<Rightarrow> WorkerID \<Rightarrow> (nat \<Rightarrow> vk_env, vk cluster) round \<Rightarrow> bool" where
  "vkc_others_round opts w r \<longleftrightarrow> vkc_others_turn opts w (drain_turn r) \<and> vkc_others_turn opts w (ack_turn r) \<and>
     (\<forall>t \<in> set (beat_turns r). vkc_others_turn opts w t)"

lemma vkc_others_round_relies:
  assumes "vkc_others_round opts (Worker c) r"
  shows "round_relies UNIV vkc_inv vkc_pending vkc_holds (cl_ackable vk_ackable) c r"
proof -
  have "relies UNIV vkc_inv vkc_pending vkc_holds (cl_ackable vk_ackable) c t" if "vkc_others_turn opts (Worker c) t" for t
    using that vkc_others_evolves by (auto simp: vkc_others_turn_def relies_def)
  with assms show ?thesis by (auto simp: vkc_others_round_def round_relies_def)
qed

lemma vkc_runOnce_concurrent:
  assumes "vkc_inv cl" and "cl_env_ok vk_env_ok cl (reads t)" and "w \<noteq> ''''" and "interfere t = id"
    and "\<forall>r \<in> set rs. vkc_others_round opts w r \<and> cl_drain_ok vk_drain_ok (reads (drain_turn r))"
    and "runOnce (sharded (vk_Backend opts)) w cfg t rs cl = Some (ex, tr, cl')"
  shows "vkc_inv cl' \<and> (\<exists>k ps. processed tr = map (Pair k) ps \<and>
    fifo_prefix UNIV (vkc_pending cl k) ps ex (vkc_pending cl' k))"
proof -
  have "\<forall>r \<in> set rs. round_relies UNIV vkc_inv vkc_pending vkc_holds (cl_ackable vk_ackable) c r \<and> cl_drain_ok vk_drain_ok (reads (drain_turn r))"
    if "Worker c = w" for c
    using assms(5) that vkc_others_round_relies by blast
  with vkc.runOnce_sound [OF extensions_UNIV, of t cl w rs opts cfg ex tr cl'] assms show ?thesis by simp
qed

end
