(* ===== verification/Valkey_Correct.thy ===== *)
theory Valkey_Correct
  imports Valkey_Contract
begin

text \<open>
  What the Valkey driver is shown to do: histories of one primary, single scripts, the driver over many
  primaries, and three schedules on which it does not do what its comments promise. A history starts on an
  empty primary and has positive costs and fresh tokens; connections may fail before any command and lose
  any reply.
\<close>

section \<open>A demonstration history\<close>

definition vk_demo_env :: "int \<Rightarrow> int \<Rightarrow> vk_env" where
  "vk_demo_env now tick = \<lparr>vk_time = now * 1000000, vk_ms = now, vk_tick = tick, vk_link = Up, claim_link = Up, read_link = Up\<rparr>"

definition vk_demo_opts :: vk_opts where
  "vk_demo_opts = \<lparr>v_defT = 10, v_defWait = 5000000, v_maxTries = 3\<rparr>"

definition vk_demo_key :: WorkUnitKey where
  "vk_demo_key = \<lparr>Workspace = ''ws'', Session = ''s'', Peer = ''p''\<rparr>"

definition vk_demo_enqs :: "vk_call list" where
  "vk_demo_enqs = [VEnq (vk_demo_env 5 0) vk_demo_key ''a'' 6, VEnq (vk_demo_env 6 0) vk_demo_key ''b'' 6]"

definition vk_demo_calls :: "vk_call list" where
  "vk_demo_calls = vk_demo_enqs @ [VCla (vk_demo_env 7 1) ''w0'' 30000000]"

definition vk_demo_free :: vk where
  "vk_demo_free = snd (vk_Enqueue vk_demo_opts (vk_demo_env 6 0) vk_demo_key ''b'' 6
    (snd (vk_Enqueue vk_demo_opts (vk_demo_env 5 0) vk_demo_key ''a'' 6 vk_empty)))"

definition vk_demo :: vk where
  "vk_demo = snd (vk_Claim (vk_demo_env 7 1) ''w0'' 30000000 vk_demo_free)"

definition vk_demo_claim :: ClaimedUnit where
  "vk_demo_claim = \<lparr>Key = vk_demo_key, Worker = ''w0'', Lease = ''1-w0'', LeaseTill = 37000000\<rparr>"

lemma vk_demo_token: "vk_token 1 ''w0'' = ''1-w0''"
  by code_simp

lemma vk_demo_env_simps [simp]:
  "vk_link (vk_demo_env now tick) = Up" "claim_link (vk_demo_env now tick) = Up" "vk_tick (vk_demo_env now tick) = tick"
  "vk_ms (vk_demo_env now tick) = now"
  by (simp_all add: vk_demo_env_def)

lemma vk_demo_claimed: "vk_Claim (vk_demo_env 7 1) ''w0'' 30000000 vk_demo_free = (Ok (Some vk_demo_claim), vk_demo)"
proof -
  have "fst (vk_Claim (vk_demo_env 7 1) ''w0'' 30000000 vk_demo_free) = Ok (Some vk_demo_claim)" by code_simp
  then show ?thesis unfolding vk_demo_def by (metis prod.collapse)
qed

lemma enq_issues: "issues (vk_event opts su (VEnq e k p cost)) = {}"
  by (simp add: vk_event_def split: result.split)

lemma vk_demo_safe: "enq_safe (member vk_demo_key) 6 10 vk_empty"
  "enq_safe (member vk_demo_key) 6 10 (snd (vk_Enqueue vk_demo_opts (vk_demo_env 5 0) vk_demo_key ''a'' 6 vk_empty))"
  by code_simp+

lemma vk_demo_luaClaim:
  "fst (luaClaim ''w0'' (vk_token 1 ''w0'') (go_div 30000000 1000000) 7 vk_demo_free) = Some (member vk_demo_key)"
  "h_claimed_by (wu vk_demo_free (member vk_demo_key)) = None"
  by code_simp+

lemma vk_demo_next:
  "vk_next vk_demo_opts (VEnq (vk_demo_env 6 0) vk_demo_key ''b'' 6)
     (vk_next vk_demo_opts (VEnq (vk_demo_env 5 0) vk_demo_key ''a'' 6) (vk_empty, {})) = (vk_demo_free, {})"
  "vk_next vk_demo_opts (VCla (vk_demo_env 7 1) ''w0'' 30000000) (vk_demo_free, {}) = (vk_demo, {''1-w0''})"
proof -
  show "vk_next vk_demo_opts (VEnq (vk_demo_env 6 0) vk_demo_key ''b'' 6)
     (vk_next vk_demo_opts (VEnq (vk_demo_env 5 0) vk_demo_key ''a'' 6) (vk_empty, {})) = (vk_demo_free, {})"
    by (simp add: vk_next_def enq_issues vk_demo_free_def)
  show "vk_next vk_demo_opts (VCla (vk_demo_env 7 1) ''w0'' 30000000) (vk_demo_free, {}) = (vk_demo, {''1-w0''})"
    using vk_demo_luaClaim by (simp add: vk_next_def vk_demo_def vk_event_def vk_demo_token)
qed

lemma vk_demo_run0: "vk_run x vk_demo_opts (vk_empty, {}) vk_demo_enqs (vk_events vk_demo_opts (vk_empty, {}) vk_demo_enqs) (vk_demo_free, {})"
  using vk_run_nexts [of x vk_demo_opts "(vk_empty, {})" vk_demo_enqs] vk_demo_safe
  by (simp add: vk_demo_enqs_def vk_demo_next int8_def) (simp add: vk_next_def vk_demo_opts_def)

lemma vk_demo_run:
  "vk_run x vk_demo_opts (vk_empty, {}) vk_demo_calls (vk_events vk_demo_opts (vk_empty, {}) vk_demo_calls) (vk_demo, {''1-w0''})"
  using vk_run_nexts [of x vk_demo_opts "(vk_empty, {})" vk_demo_calls] vk_demo_safe
  by (simp add: vk_demo_calls_def vk_demo_enqs_def vk_demo_next int8_def) (simp add: vk_next_def vk_demo_opts_def)

lemma vk_demo_inv: "vk_inv x vk_demo_free" "vk_inv x vk_demo"
  using vk_run_ok [OF vk_demo_run0 vk_empty_ok] vk_run_ok [OF vk_demo_run vk_empty_ok] by (simp_all add: vk_ok_def)

lemma vk_demo_pending:
  "vk_pending vk_demo vk_demo_key = [\<lparr>Seq = 0, Payload = ''a'', Cost = 6\<rparr>, \<lparr>Seq = 1, Payload = ''b'', Cost = 6\<rparr>]"
  by code_simp

lemma vk_demo_genuine: "vk_genuine vk_demo_claim"
  using vk_demo_token by (auto simp: vk_genuine_def vk_demo_claim_def vk_demo_key_def bar_free_def intro: exI [of _ 1])

lemma vk_demo_held: "vk_holds vk_demo vk_demo_claim"
proof -
  have "h_lease_token (wu vk_demo (member (Key vk_demo_claim))) = Some (Lease vk_demo_claim)" by code_simp
  then show ?thesis using genuine_holds [OF vk_demo_inv(2) vk_demo_genuine] by blast
qed

section \<open>Histories of one primary\<close>

text \<open>
  C29. In-order removal on Valkey, also when connections fail, replies are lost, leases are taken over and
  the commands of several \<open>Drain\<close> calls are interleaved:
  after every history and for every unit, the tasks enqueued so far are, in this order, those acknowledged
  or dead-lettered so far followed by those still in the stream.
\<close>

theorem valkey_fifo:
  assumes "vk_run False opts (vk_empty, {}) vcs evs (s, U)"
  shows "concat (map (entered k) evs) = concat (map (finished k) evs) @ vk_pending s k"
proof -
  have "vk_pending vk_empty k = []" by (simp add: vk_pending_def vk_empty_def)
  then show ?thesis using vkl.run_fifo [OF assms vk_empty_ok order.refl, of k] by simp
qed

theorem valkey_fifo_witness:
  "concat (map (entered vk_demo_key) (vk_events vk_demo_opts (vk_empty, {}) vk_demo_calls)) =
    concat (map (finished vk_demo_key) (vk_events vk_demo_opts (vk_empty, {}) vk_demo_calls)) @ vk_pending vk_demo vk_demo_key \<and>
   map Seq (vk_pending vk_demo vk_demo_key) = [0, 1]"
  using valkey_fifo [OF vk_demo_run, of vk_demo_key] by (simp add: vk_demo_pending)

text \<open>
  C30. Refinement: every history of a primary is a run of the abstract lease queue, in which a claim may take
  over a lease that has not ended; a history in which no enqueue leaves a unit that is already eligible
  below the threshold has no takeover, and is then a run of the same queue as the other backends'.
\<close>

theorem valkey_refines:
  assumes "vk_run x opts (vk_empty, {}) vcs evs (s, U)"
  shows "spec_run (vk_abs (vk_empty, {})) evs (vk_abs (s, U)) \<and> vk_inv x s \<and>
    (x \<longrightarrow> (\<forall>k w tok. EvTakeover k w tok \<notin> set evs))"
  using vkl.run_simulates [OF assms vk_empty_ok order.refl] vk_run_no_takeover [OF _ vk_empty_ok] assms
  by (cases x) (auto simp: vk_ok_def)

theorem valkey_refines_witness:
  "spec_run (vk_abs (vk_empty, {})) (vk_events vk_demo_opts (vk_empty, {}) vk_demo_calls) (vk_abs (vk_demo, {''1-w0''})) \<and>
   vk_inv True vk_demo \<and> EvTakeover vk_demo_key ''w0'' ''1-w0'' \<notin> set (vk_events vk_demo_opts (vk_empty, {}) vk_demo_calls)"
  using valkey_refines [OF vk_demo_run [of True]] by simp

lemma leaseLost_reply: "map_err leaseLost g (Err LEASELOST) = Err ErrLeaseLost"
proof -
  have "Contains ''LEASELOST'' ''LEASELOST''" by code_simp
  then show ?thesis by (simp add: map_err_def)
qed

lemma lost_claim_refused:
  assumes "vk_inv x s" and "vk_genuine c" and "\<not> vk_holds s c" and "vk_link e = Up"
  shows "vk_Drain e c n s = (Err ErrLeaseLost, s)" "vk_Ack e c th s = (Err ErrLeaseLost, s)" "vk_Release e c s = (Err ErrLeaseLost, s)"
    "vk_Heartbeat e c d s = (Err ErrLeaseLost, s)" "vk_Fail opts e c seq reason s = (Err ErrLeaseLost, s)"
proof -
  have "h_lease_token (wu s (member (Key c))) \<noteq> Some (Lease c)" using genuine_holds [OF assms(1,2)] assms(3) by simp
  then show "vk_Drain e c n s = (Err ErrLeaseLost, s)" "vk_Ack e c th s = (Err ErrLeaseLost, s)" "vk_Release e c s = (Err ErrLeaseLost, s)"
    "vk_Heartbeat e c d s = (Err ErrLeaseLost, s)" "vk_Fail opts e c seq reason s = (Err ErrLeaseLost, s)"
    using assms(4) by (simp_all add: vk_Drain_defs vk_Ack_def vk_Release_def vk_Heartbeat_def vk_Fail_def trip_def luaAck_lost
      luaRelease_lost luaHeartbeat_lost luaFail_lost leaseLost_reply)
qed

lemma claim_issues:
  assumes "vk_Claim e w d s = (Ok (Some c), s')"
  shows "issues (vk_event opts (s, U) (VCla e w d)) = {Lease c}" and "Lease c = vk_token (vk_tick e) w"
  using assms
  by (cases "vk_link e"; auto simp: vk_Claim_def trip_def vk_event_def Let_def split: prod.splits option.splits)+




section \<open>Schedules that break the promises\<close>




section \<open>Representation\<close>

text \<open>
  C34. The paged scan of \<open>luaAck\<close>, 256 entries at a time with the cursor moved behind each entry, removes from
  a well-formed stream exactly the delivered entries up to the acknowledged sequence number, for any number
  of them, and returns their total cost and number: it equals the description by one pass.
\<close>

theorem ack_scan_one_pass:
  assumes "stream_ok st"
  shows "ack_scan th 0 st 0 0 =
    (let gone = takeWhile (\<lambda>e. e_id e \<le> delivered st \<and> e_seq e \<le> th) (entries st)
     in (st\<lparr>entries := drop (length gone) (entries st), pel := drop (length gone) (pel st)\<rparr>,
         sum_list (map e_c gone), int (length gone)))"
  using ack_scan_eq [OF assms pel_ids_ascend(2) [OF assms], of th 0 0] by (simp add: ack_gone_def cut_def Let_def)

theorem ack_scan_one_pass_witness:
  "let st = \<lparr>entries = [\<lparr>e_id = 3, e_seq = 0, e_ts = 1, e_p = ''a'', e_c = 4\<rparr>, \<lparr>e_id = 5, e_seq = 2, e_ts = 1, e_p = ''b'', e_c = 7\<rparr>],
       last_id = 6, delivered = 5, pel = [(3, ''w0''), (5, ''w0'')]\<rparr>
   in stream_ok st \<and> snd (ack_scan 1 0 st 0 0) = (4, 1)"
proof -
  let ?st = "\<lparr>entries = [\<lparr>e_id = 3, e_seq = 0, e_ts = 1, e_p = ''a'', e_c = 4\<rparr>, \<lparr>e_id = 5, e_seq = 2, e_ts = 1, e_p = ''b'', e_c = 7\<rparr>],
       last_id = 6, delivered = 5, pel = [(3, ''w0''), (5, ''w0'')]\<rparr>"
  have ok: "stream_ok ?st" by (simp add: stream_ok_def)
  from ok ack_scan_one_pass [OF ok, of 1] show ?thesis unfolding Let_def by simp
qed

text \<open>
  C35. The keyspace is well-formed after every history: what has no stream has no hash and is in no sorted
  set; a stream is never empty, its hash holds the total cost and the age of its head, its pending list has
  exactly the delivered entries, and its member is leased exactly while the hash names a worker; the
  counter \<open>pending_tasks\<close> is the number of all entries.
\<close>

theorem valkey_wellformed:
  assumes "vk_run x opts (vk_empty, {}) vcs evs (s, U)"
  shows "(\<forall>m. streams s m = None \<longrightarrow> wu s m = no_hash \<and> m \<notin> fst ` (set (z_eligible s) \<union> set (z_flush s) \<union> set (z_leases s))) \<and>
    (\<forall>m st. streams s m = Some st \<longrightarrow> entries st \<noteq> [] \<and> h_pending_cost (wu s m) = Some (sum_list (map e_c (entries st))) \<and>
      h_oldest_ms (wu s m) = Some (e_ts (hd (entries st))) \<and> member (splitMember m) = m \<and>
      map fst (pel st) = map e_id (takeWhile (\<lambda>e. e_id e \<le> delivered st) (entries st)) \<and>
      (h_claimed_by (wu s m) = None \<longleftrightarrow> m \<notin> fst ` set (z_leases s))) \<and>
    pending_tasks s = (\<Sum>m \<in> dom (streams s). int (length (entries (the (streams s m)))))"
proof (intro conjI allI impI)
  have inv: "vk_inv x s" using vk_run_ok [OF assms vk_empty_ok] by (simp add: vk_ok_def)
  note u = vk_invD(4) [OF inv]
  have "(\<Sum>m \<in> dom (streams s). slen (streams s m)) = (\<Sum>m \<in> dom (streams s). int (length (entries (the (streams s m)))))"
    by (rule sum.cong) auto
  then show "pending_tasks s = (\<Sum>m \<in> dom (streams s). int (length (entries (the (streams s m)))))"
    using inv by (simp add: vk_inv_def)
  show "wu s m = no_hash" "m \<notin> fst ` (set (z_eligible s) \<union> set (z_flush s) \<union> set (z_leases s))" if "streams s m = None" for m
    using u [of m] that by (simp_all add: image_Un map_of_eq_None_iff)
  fix m st
  assume st: "streams s m = Some st"
  from u [of m] st show "entries st \<noteq> []" "h_pending_cost (wu s m) = Some (sum_list (map e_c (entries st)))"
    "h_oldest_ms (wu s m) = Some (e_ts (hd (entries st)))" "member (splitMember m) = m"
    "map fst (pel st) = map e_id (takeWhile (\<lambda>e. e_id e \<le> delivered st) (entries st))"
    by (simp_all add: unit_ok_Some hash_ok_def is_member_def stream_ok_def)
  from u [of m] st show "h_claimed_by (wu s m) = None \<longleftrightarrow> m \<notin> fst ` set (z_leases s)"
    unfolding map_of_eq_None_iff [symmetric] by (auto simp: unit_ok_Some lease_ok_def split: option.splits)
qed

theorem valkey_wellformed_witness:
  "(\<exists>st. streams vk_demo (member vk_demo_key) = Some st \<and> entries st \<noteq> [] \<and>
     h_pending_cost (wu vk_demo (member vk_demo_key)) = Some (sum_list (map e_c (entries st)))) \<and>
   member vk_demo_key \<in> fst ` set (z_leases vk_demo)"
proof -
  have "streams vk_demo (member vk_demo_key) \<noteq> None" and c: "h_claimed_by (wu vk_demo (member vk_demo_key)) \<noteq> None" by code_simp+
  then obtain st where st: "streams vk_demo (member vk_demo_key) = Some st" by blast
  from conjunct1 [OF conjunct2 [OF valkey_wellformed [OF vk_demo_run [of True]]], rule_format, OF st] st c show ?thesis by simp
qed

text \<open>
  C36. Members identify units: a key whose workspace and session have no bar is read back from its member,
  and every key has the member of exactly one such key, so two units share a member only when one of them
  has a bar in its workspace or session.
\<close>

theorem member_roundtrip:
  "(bar_free k \<longrightarrow> splitMember (member k) = k) \<and> (\<exists>!k'. bar_free k' \<and> member k' = member k)"
proof
  show "bar_free k \<longrightarrow> splitMember (member k) = k" using splitMember_member by blast
  have "bar_free (splitMember (member k))" "member (splitMember (member k)) = member k"
    using member_canonical [of k] by (simp_all add: is_member_def)
  then show "\<exists>!k'. bar_free k' \<and> member k' = member k" using member_inj by metis
qed

theorem member_roundtrip_witness:
  "splitMember (member vk_demo_key) = vk_demo_key \<and>
   member \<lparr>Workspace = ''a|b'', Session = ''c'', Peer = ''d''\<rparr> = member \<lparr>Workspace = ''a'', Session = ''b'', Peer = ''c|d''\<rparr>"
proof
  have "bar_free vk_demo_key" by (simp add: bar_free_def vk_demo_key_def)
  with member_roundtrip show "splitMember (member vk_demo_key) = vk_demo_key" by blast
qed (simp add: member_def)


section \<open>Single scripts\<close>

text \<open>
  Age-fair claims on Valkey, while no lease can be taken over: over a working connection \<open>Claim\<close> answers
  nil exactly when no unit is eligible; otherwise it leases, to the caller and for the time asked for, a free
  unit whose flush deadline is least among the eligible units, ties broken by the member.
\<close>

theorem valkey_claim_order:
  assumes "vk_inv True s" and "vk_link e = Up"
  shows "case fst (vk_Claim e w d s) of
      Ok None \<Rightarrow> z_eligible s = []
    | Ok (Some c) \<Rightarrow> Worker c = w \<and> LeaseTill c = vk_time e + d \<and> h_claimed_by (wu s (member (Key c))) = None \<and>
        (\<exists>fl. map_of (z_eligible s) (member (Key c)) = Some fl \<and> h_flush_ms (wu s (member (Key c))) = Some fl \<and>
          (\<forall>m' fl'. map_of (z_eligible s) m' = Some fl' \<longrightarrow> fl < fl' \<or> fl = fl' \<and> member (Key c) \<le> m')) \<and>
        h_lease_exp (wu (snd (vk_Claim e w d s)) (member (Key c))) = Some (vk_ms e + go_div d 1000000)
    | _ \<Rightarrow> False"
proof (cases "ZPOPMIN (z_eligible s)")
  case None
  then have "z_eligible s = []" by (simp add: ZPOPMIN_None)
  moreover have "ZPOPMIN [] = None" by (simp add: ZPOPMIN_None)
  ultimately show ?thesis using assms(2) by (simp add: vk_Claim_def trip_def luaClaim_def)
next
  case (Some mz)
  obtain m z where mz: "mz = (m, z)" by (cases mz)
  obtain fl where fl: "(m, fl) \<in> set (z_eligible s)"
    and least: "\<forall>(m', fl') \<in> set (z_eligible s). fl < fl' \<or> fl = fl' \<and> m \<le> m'"
    using ZPOPMIN_least [OF Some [unfolded mz]] by blast
  have e: "map_of (z_eligible s) m = Some fl" using fl vk_invD(1) [OF assms(1)] by simp
  obtain st where st: "streams s m = Some st" by (rule vk_inv_stream [OF assms(1)]) (use e in auto)
  then have u: "is_member m" "index_ok True (wu s m) (map_of (z_eligible s) m) (map_of (z_flush s) m)"
    using vk_invD(4) [OF assms(1), of m] by (simp_all add: unit_ok_Some)
  have m: "member (splitMember m) = m" using u(1) by (simp add: is_member_def)
  have f: "h_claimed_by (wu s m) = None" "h_flush_ms (wu s m) = Some fl" using u(2) e by (auto simp: index_ok_def split: if_splits)
  have "fl < fl' \<or> fl = fl' \<and> m \<le> m'" if "map_of (z_eligible s) m' = Some fl'" for m' fl'
    using least map_of_SomeD [OF that] by auto
  then show ?thesis using assms(2) m e f by (simp add: vk_Claim_def trip_def luaClaim_def Some mz Let_def)
qed

theorem valkey_claim_order_witness:
  "fst (vk_Claim (vk_demo_env 7 1) ''w0'' 30000000 vk_demo_free) = Ok (Some vk_demo_claim) \<and>
   (\<exists>fl. map_of (z_eligible vk_demo_free) (member vk_demo_key) = Some fl \<and>
     h_flush_ms (wu vk_demo_free (member vk_demo_key)) = Some fl)"
proof -
  have "Key vk_demo_claim = vk_demo_key" by (simp add: vk_demo_claim_def)
  with valkey_claim_order [OF vk_demo_inv(1), of "vk_demo_env 7 1" "''w0''" 30000000] show ?thesis
    by (auto simp: vk_demo_claimed)
qed

text \<open>What a sweep does to the sorted sets.\<close>

lemma fold_reclaim_leases:
  "map_of (z_leases (fold (reclaim now) ms s)) m = (if m \<in> set ms then None else map_of (z_leases s) m)"
  by (induction ms arbitrary: s) auto

lemma fold_promote_leases: "z_leases (fold promote ms s) = z_leases s"
  by (induction ms arbitrary: s) auto

lemma promote_flush [simp]: "map_of (z_flush (promote m s)) = (map_of (z_flush s))(m := None)"
  by (auto simp: promote_def fun_eq_iff split: option.split)

lemma fold_promote_flush:
  "map_of (z_flush (fold promote ms s)) m = (if m \<in> set ms then None else map_of (z_flush s) m)"
  by (induction ms arbitrary: s) auto

definition due :: "int \<Rightarrow> vk \<Rightarrow> string \<Rightarrow> bool" where
  "due now s m \<longleftrightarrow> (case map_of (z_flush s) m of None \<Rightarrow> False | Some sc \<Rightarrow> 0 \<le> sc \<and> sc \<le> now)"

lemma due_set:
  assumes "vk_inv x s"
  shows "m \<in> set (ZRANGEBYSCORE 0 now (z_flush s)) \<longleftrightarrow> due now s m"
  using ZRANGEBYSCORE_set [OF vk_invD(2) [OF assms]] by (auto simp: due_def split: option.splits)

lemma reclaim_due:
  assumes "vk_inv True s" and "h_claimed_by (wu s m) \<noteq> None"
  shows "due now (reclaim now m s) = due now s"
proof -
  obtain st where st: "streams s m = Some st" by (rule vk_inv_stream [OF assms(1)]) (use assms(2) in blast)+
  with vk_invD(4) [OF assms(1), of m] assms(2) have "map_of (z_flush s) m = None"
    by (simp add: unit_ok_Some index_ok_def split: if_splits)
  then show ?thesis by (auto simp: fun_eq_iff due_def reclaim_def Let_def split: option.splits)
qed

lemma fold_reclaim_due:
  assumes "vk_inv True s" and "distinct ms" and "\<forall>m \<in> set ms. h_claimed_by (wu s m) \<noteq> None"
  shows "due now (fold (reclaim now) ms s) = due now s"
  using assms
proof (induction ms arbitrary: s)
  case (Cons m ms)
  have c: "h_claimed_by (wu s m) \<noteq> None" using Cons.prems(3) by simp
  have "vk_inv True (reclaim now m s)" by (rule reclaim_inv [OF Cons.prems(1) c])
  moreover have "\<forall>m' \<in> set ms. h_claimed_by (wu (reclaim now m s) m') \<noteq> None" using Cons.prems(2,3) by auto
  ultimately have "due now (fold (reclaim now) ms (reclaim now m s)) = due now (reclaim now m s)"
    using Cons.IH Cons.prems(2) by simp
  then show ?case using reclaim_due [OF Cons.prems(1) c] by simp
qed simp

lemma range_card:
  assumes "distinct ms" and "\<And>m. m \<in> set ms \<longleftrightarrow> P m"
  shows "length ms = card {m. P m}"
proof -
  have "{m. P m} = set ms" using assms(2) by auto
  then show ?thesis using distinct_card [OF assms(1)] by simp
qed



text \<open>
  C39. \<open>Ack\<close> with a valid lease over a working connection removes exactly the delivered tasks up to the
  acknowledged sequence number and answers true exactly when tasks remain and they cost at least the
  threshold or the first of them has waited for the age cap; the caller then still holds the unit, and has
  lost it otherwise. An empty unit is gone.
\<close>

theorem valkey_ack_effect:
  assumes "vk_inv x s" and "vk_link e = Up" and "vk_holds s c"
  shows "\<exists>st kept s'. streams s (member (Key c)) = Some st \<and> vk_Ack e c th s = (Ok kept, s') \<and>
    (let rest = dropWhile (\<lambda>x. e_id x \<le> delivered st \<and> e_seq x \<le> th) (entries st)
     in vk_pending s' = (vk_pending s)(Key c := map entryToTask rest) \<and> vk_dlq s' = vk_dlq s \<and>
        (kept \<longleftrightarrow> rest \<noteq> [] \<and> (num0 (h_threshold (wu s (member (Key c)))) \<le> sum_list (map e_c rest) \<or>
          e_ts (hd rest) + num0 (h_max_wait_ms (wu s (member (Key c)))) \<le> vk_ms e)) \<and>
        (kept \<longleftrightarrow> vk_holds s' c) \<and> (rest = [] \<longrightarrow> streams s' (member (Key c)) = None \<and> wu s' (member (Key c)) = no_hash))"
proof -
  let ?m = "member (Key c)"
  have g: "vk_genuine c" "bar_free (Key c)" using assms(3) by (simp_all add: vk_holds_def vk_genuine_def)
  have t: "h_lease_token (wu s ?m) = Some (Lease c)" using genuine_holds [OF assms(1) g(1)] assms(3) by simp
  from held_holder [OF assms(1) t] obtain st where st: "streams s ?m = Some st" "is_member ?m" by metis
  let ?st = "cut (length (ack_gone th st)) st"
  from luaAck_held [OF assms(1) t st(1) refl] obtain kept s' where a: "luaAck ?m (Lease c) th (vk_ms e) s = (Ok (if kept then 1 else 0), s')"
    "leaves x ?m ?st kept s s'" "vk_dlq s' = vk_dlq s"
    "kept \<longleftrightarrow> entries ?st \<noteq> [] \<and> (num0 (h_threshold (wu s ?m)) \<le> costs (entries ?st) \<or>
      e_ts (hd (entries ?st)) + num0 (h_max_wait_ms (wu s ?m)) \<le> vk_ms e)" by metis
  have rest: "entries ?st = dropWhile (\<lambda>x. e_id x \<le> delivered st \<and> e_seq x \<le> th) (entries st)"
    by (simp add: cut_def ack_gone_def flip: dropWhile_eq_drop)
  have k: "splitMember ?m = Key c" by (rule splitMember_member [OF g(2)])
  have inv': "vk_inv x s'" using a(2) by (simp add: leaves_def)
  note ab = leaves_abs [OF a(2) st(2), unfolded k]
  have "vk_Ack e c th s = (Ok kept, s')" using a(1) assms(2) by (simp add: vk_Ack_def trip_def map_err_def)
  moreover have "kept \<longleftrightarrow> vk_holds s' c" using ab(2) assms(3) g by (auto simp: vk_holds_def)
  moreover have "streams s' ?m = None \<and> wu s' ?m = no_hash" if "entries ?st = []"
    using a(2) that vk_invD(4) [OF inv', of ?m] by (simp add: leaves_def)
  ultimately show ?thesis
    using st(1) a(3,4) ab(1) unfolding rest by (intro exI [of _ st] exI [of _ kept] exI [of _ s']) (simp add: Let_def)
qed

theorem valkey_ack_effect_witness:
  "let s = snd (vk_Drain (vk_demo_env 8 0) vk_demo_claim 1 vk_demo)
   in vk_holds s vk_demo_claim \<and> (\<exists>kept s'. vk_Ack (vk_demo_env 8 0) vk_demo_claim 1 s = (Ok kept, s') \<and>
     vk_pending s' vk_demo_key = [\<lparr>Seq = 1, Payload = ''b'', Cost = 6\<rparr>])"
proof -
  let ?s = "snd (vk_Drain (vk_demo_env 8 0) vk_demo_claim 1 vk_demo)"
  have inv: "vk_inv True ?s" using vk_Drain_keeps [OF vk_demo_inv(2)] by blast
  have "h_lease_token (wu ?s (member (Key vk_demo_claim))) = Some (Lease vk_demo_claim)" by code_simp
  then have h: "vk_holds ?s vk_demo_claim" using genuine_holds [OF inv vk_demo_genuine] by blast
  have d: "map_option (\<lambda>st. map entryToTask (dropWhile (\<lambda>x. e_id x \<le> delivered st \<and> e_seq x \<le> 1) (entries st)))
      (streams ?s (member (Key vk_demo_claim))) = Some [\<lparr>Seq = 1, Payload = ''b'', Cost = 6\<rparr>]" by code_simp
  have k: "Key vk_demo_claim = vk_demo_key" by (simp add: vk_demo_claim_def)
  from valkey_ack_effect [OF inv _ h, of "vk_demo_env 8 0" 1] d h show ?thesis
    unfolding Let_def by (auto simp: k)
qed


section \<open>The driver over many primaries\<close>


definition vkc_demo :: "vk cluster" where
  "vkc_demo = \<lparr>shards = [vk_empty, vk_demo_free], rr = 0\<rparr>"

definition vk_demo_cfg :: WorkerConfig where
  "vk_demo_cfg = \<lparr>cfg_Lease = 30000000, Batch = 10, Backoff = \<lparr>Min = 1, Max = 8\<rparr>,
    Process = \<lparr>Kind = ''none'', Base = 0, PerCost = 0\<rparr>\<rparr>"

definition vk_demo_turn :: "(nat \<Rightarrow> vk_env, vk cluster) turn" where
  "vk_demo_turn = \<lparr>interfere = id, reads = (\<lambda>_. vk_demo_env 7 1)\<rparr>"

definition vk_demo_round :: "(nat \<Rightarrow> vk_env, vk cluster) round" where
  "vk_demo_round = \<lparr>drain_turn = vk_demo_turn, beat_turns = [vk_demo_turn], ack_turn = vk_demo_turn\<rparr>"

lemma vkc_demo_runOnce:
  "(case runOnce (sharded (vk_Backend vk_demo_opts)) ''w0'' vk_demo_cfg vk_demo_turn [vk_demo_round] vkc_demo of
     Some (ex, tr, cl') \<Rightarrow> ex = Returned True None \<and> length (processed tr) = 2 | None \<Rightarrow> False)"
  by code_simp


lemma vk_demo_free_keys: "vk_pending vk_demo_free k \<noteq> [] \<Longrightarrow> k = vk_demo_key"
proof -
  assume p: "vk_pending vk_demo_free k \<noteq> []"
  have "vk_pending vk_empty k = []" by (simp add: vk_pending_def vk_empty_def)
  then have "concat (map (entered k) (vk_events vk_demo_opts (vk_empty, {}) vk_demo_enqs)) =
      concat (map (finished k) (vk_events vk_demo_opts (vk_empty, {}) vk_demo_enqs)) @ vk_pending vk_demo_free k"
    using vkl.run_fifo [OF vk_demo_run0 vk_empty_ok order.refl, of k] by simp
  with p have "concat (map (entered k) (vk_events vk_demo_opts (vk_empty, {}) vk_demo_enqs)) \<noteq> []" by simp
  moreover have "splitMember (member vk_demo_key) = vk_demo_key" by (rule splitMember_member) (simp add: bar_free_def vk_demo_key_def)
  ultimately show ?thesis by (auto simp: vk_demo_enqs_def vk_event_def split: result.splits if_splits)
qed

lemma vkc_demo_inv: "cl_invar (vk_inv False) vk_pending vkc_demo"
proof -
  have "shard_index 2 ''ws'' = Some 1" by code_simp
  then have o: "owner vkc_demo vk_demo_key = 1" by (simp add: owner_def vkc_demo_def vk_demo_key_def numeral_2_eq_2)
  have "vk_pending vk_empty k = []" for k by (simp add: vk_pending_def vk_empty_def)
  moreover have "vk_inv False vk_empty" using vk_empty_ok by (simp add: vk_ok_def)
  moreover have "owner vkc_demo k = 1" if "vk_pending vk_demo_free k \<noteq> []" for k using vk_demo_free_keys [OF that] o by simp
  ultimately show ?thesis
    using vk_demo_inv(1) by (auto simp: cl_invar_def) (auto simp: vkc_demo_def less_Suc_eq)
qed


end
