(* ===== verification/Loadgen.thy ===== *)
theory Loadgen
  imports Worker Memory Complex_Main
begin

text \<open>
  Package \<open>internal/loadgen\<close>, the load: the synthetic workload, the producers, alone and interleaved, the
  chaos workers, and the latency histogram and counters. Random draws, clock readings and what other
  goroutines do meanwhile are arguments. The harness that measures a run is in theory Harness.
\<close>

section \<open>Workload\<close>

record CostDist =
  cd_Kind :: string
  Lo :: int
  Hi :: int

text \<open>\<open>r.Int63n(n)\<close> panics for \<open>n \<le> 0\<close>; the draw is the argument, a number from 0 up to \<open>n\<close>.\<close>

definition draws :: "(int \<Rightarrow> int) \<Rightarrow> bool" where
  "draws int63n \<longleftrightarrow> (\<forall>n > 0. 0 \<le> int63n n \<and> int63n n < n)"

definition sample_cost :: "(int \<Rightarrow> int) \<Rightarrow> CostDist \<Rightarrow> int result" where
  "sample_cost int63n c =
    (if cd_Kind c = ''uniform'' \<and> Hi c > Lo c then
       let n = i64 (i64 (Hi c - Lo c) + 1) in if n \<le> 0 then Panic else Ok (i64 (Lo c + int63n n))
     else if Lo c \<le> 0 then Ok 1 else Ok (Lo c))"

record Workload =
  wl_Seed :: int
  wl_WorkingSet :: int
  wl_ZipfS :: real
  wl_BirthRate :: real
  wl_Cost :: CostDist
  wl_Workspaces :: int

definition DefaultWorkload :: "int \<Rightarrow> Workload" where
  "DefaultWorkload seed =
    \<lparr> wl_Seed = seed, wl_WorkingSet = 1000, wl_ZipfS = 1.2, wl_BirthRate = 0.02,
      wl_Cost = \<lparr>cd_Kind = ''uniform'', Lo = 10, Hi = 50\<rparr>, wl_Workspaces = 8 \<rparr>"

definition keyFor :: "int \<Rightarrow> int \<Rightarrow> WorkUnitKey" where
  "keyFor idx workspaces =
    \<lparr> Workspace = ''ws-'' @ fmt_d (go_mod idx (max workspaces 1)), Session = ''s-'' @ fmt_d idx, Peer = ''p'' \<rparr>"

section \<open>Producers\<close>

text \<open>
  One iteration of a producer: whether the context is cancelled at its head, whether the birth draw
  slides the window, by how much other producers slide it before it is read, the Zipf rank, the cost
  draw, the schedule and the oracle of the \<open>Enqueue\<close> call, and whether the context is cancelled when it
  returns an error.
\<close>

record ('o, 's) attempt =
  at_done :: bool
  at_birth :: bool
  at_slide :: int
  at_rank :: int
  at_int63n :: "int \<Rightarrow> int"
  at_turn :: "('o, 's) turn"
  at_done_err :: bool

definition payload :: string where
  "payload = ''task''"

text \<open>
  The state is the window base, the \<open>Enqueued\<close> counter and the queue; the enqueued keys are returned.
  \<open>None\<close> stands for a panic: \<open>rand.NewZipf\<close> returns nil for an exponent of at most 1, and the first draw from
  it panics.
\<close>

fun produce :: "('o, 's) Backend \<Rightarrow> Workload \<Rightarrow> ('o, 's) attempt list \<Rightarrow> int \<times> int \<times> 's
    \<Rightarrow> (WorkUnitKey list \<times> int \<times> int \<times> 's) option" where
  "produce be w [] (base, n, s) = Some ([], base, n, s)"
| "produce be w (a # as) (base, n, s) =
    (if at_done a then Some ([], base, n, s)
     else
       let base = (if at_birth a then i64 (base + 1) else base);
           base = i64 (base + at_slide a);
           k = keyFor (i64 (base + at_rank a)) (wl_Workspaces w)
       in if wl_ZipfS w \<le> 1 then None
          else case sample_cost (at_int63n a) (wl_Cost w) of
           Ok cost \<Rightarrow>
             (case be_Enqueue be (reads (at_turn a)) k payload cost (interfere (at_turn a) s) of
               (Ok _, s) \<Rightarrow> map_option (\<lambda>(ks, r). (k # ks, r)) (produce be w as (base, i64 (n + 1), s))
             | (Err _, s) \<Rightarrow> if at_done_err a then Some ([], base, n, s) else produce be w as (base, n, s)
             | (Panic, s) \<Rightarrow> None)
         | _ \<Rightarrow> None)"

definition RunProducers_workload :: "Workload \<Rightarrow> Workload" where
  "RunProducers_workload w = (if wl_WorkingSet w < 2 then w\<lparr>wl_WorkingSet := 2\<rparr> else w)"

text \<open>
  \<open>RunProducers\<close> starts \<open>n\<close> producers that share the base, the counter and the queue. Where producer \<open>i\<close> is in
  its iteration: before the birth draw, before it reads the base, before its \<open>Enqueue\<close>, before it counts, or
  returned. Each step is one atomic operation; \<open>other\<close> is a step of the workers or the reaper, which leave the
  base and the \<open>Enqueued\<close> counter alone. The label of a step is the list of tasks the queue has accepted in it.
\<close>

datatype pc = AtHead | AtLoad | AtEnqueue int | AtCount | Stopped

record 's load =
  ld_base :: int
  ld_enqueued :: int
  ld_queue :: 's
  ld_pc :: "nat \<Rightarrow> pc"

definition RunProducers :: "'s \<Rightarrow> int \<Rightarrow> 's load" where
  "RunProducers s n = \<lparr>ld_base = 0, ld_enqueued = n, ld_queue = s, ld_pc = (\<lambda>_. AtHead)\<rparr>"

inductive producer_step :: "('o, 's) Backend \<Rightarrow> Workload \<Rightarrow> nat \<Rightarrow> 's load \<Rightarrow> (WorkUnitKey \<times> int) list \<Rightarrow> 's load \<Rightarrow> bool"
  for be w n where
  stop: "i < n \<Longrightarrow> ld_pc l i = AtHead \<Longrightarrow> producer_step be w n l [] (l\<lparr>ld_pc := (ld_pc l)(i := Stopped)\<rparr>)"
| birth: "i < n \<Longrightarrow> ld_pc l i = AtHead \<Longrightarrow>
    producer_step be w n l [] (l\<lparr>ld_base := i64 (ld_base l + 1), ld_pc := (ld_pc l)(i := AtLoad)\<rparr>)"
| stay: "i < n \<Longrightarrow> ld_pc l i = AtHead \<Longrightarrow> producer_step be w n l [] (l\<lparr>ld_pc := (ld_pc l)(i := AtLoad)\<rparr>)"
| load: "i < n \<Longrightarrow> ld_pc l i = AtLoad \<Longrightarrow> 1 < wl_ZipfS w \<Longrightarrow> 0 \<le> rank \<Longrightarrow> rank < wl_WorkingSet w \<Longrightarrow>
    producer_step be w n l [] (l\<lparr>ld_pc := (ld_pc l)(i := AtEnqueue (i64 (ld_base l + rank)))\<rparr>)"
| accepted: "i < n \<Longrightarrow> ld_pc l i = AtEnqueue j \<Longrightarrow> draws int63n \<Longrightarrow> sample_cost int63n (wl_Cost w) = Ok cost \<Longrightarrow>
    be_Enqueue be e (keyFor j (wl_Workspaces w)) payload cost (ld_queue l) = (Ok seq, q) \<Longrightarrow>
    producer_step be w n l [(keyFor j (wl_Workspaces w), cost)] (l\<lparr>ld_queue := q, ld_pc := (ld_pc l)(i := AtCount)\<rparr>)"
| refused: "i < n \<Longrightarrow> ld_pc l i = AtEnqueue j \<Longrightarrow> draws int63n \<Longrightarrow> sample_cost int63n (wl_Cost w) = Ok cost \<Longrightarrow>
    be_Enqueue be e (keyFor j (wl_Workspaces w)) payload cost (ld_queue l) = (Err x, q) \<Longrightarrow> p \<in> {AtHead, Stopped} \<Longrightarrow>
    producer_step be w n l [] (l\<lparr>ld_queue := q, ld_pc := (ld_pc l)(i := p)\<rparr>)"
| count: "i < n \<Longrightarrow> ld_pc l i = AtCount \<Longrightarrow>
    producer_step be w n l [] (l\<lparr>ld_enqueued := i64 (ld_enqueued l + 1), ld_pc := (ld_pc l)(i := AtHead)\<rparr>)"
| other: "producer_step be w n l [] (l\<lparr>ld_queue := q\<rparr>)"

inductive producer_run :: "('o, 's) Backend \<Rightarrow> Workload \<Rightarrow> nat \<Rightarrow> 's load \<Rightarrow> (WorkUnitKey \<times> int) list list \<Rightarrow> 's load \<Rightarrow> bool"
  for be w n where
  none: "producer_run be w n l [] l"
| more: "producer_run be w n l ks l' \<Longrightarrow> producer_step be w n l' k l'' \<Longrightarrow> producer_run be w n l (ks @ [k]) l''"

section \<open>Chaos workers\<close>

text \<open>The digits are written from the end of an array of 12 bytes; one more is an index panic.\<close>

function itoa_loop :: "int \<Rightarrow> nat \<Rightarrow> string \<Rightarrow> string result" where
  "itoa_loop i p b =
    (if i > 0 then
       if p = 0 then Panic else itoa_loop (go_div i 10) (p - 1) (digit (nat (i mod 10)) # b)
     else Ok b)"
  by pat_completeness auto
termination by (relation "measure (\<lambda>(_, p, _). p)") auto

declare itoa_loop.simps [simp del]

definition itoa :: "int \<Rightarrow> string result" where
  "itoa i = (if i = 0 then Ok ''0'' else itoa_loop i 12 [])"

definition workerName :: "int \<Rightarrow> string result" where
  "workerName i = (case itoa i of Ok s \<Rightarrow> Ok (''chaos-w'' @ s) | r \<Rightarrow> r)"

definition chaos_interval :: "duration \<Rightarrow> int \<Rightarrow> duration" where
  "chaos_interval killEvery i =
    (let k = (if killEvery \<le> 0 then 5000000000 else killEvery) in i64 (k + go_div (i64 (i * k)) 8))"

text \<open>
  One chaos worker: it lives again and again until the run is cancelled; each life is a \<open>Run\<close> of a new worker
  that its own timeout ends. \<open>None\<close> when a life's schedule is too short or the worker panics. \<open>RunChaosWorkers\<close>
  starts \<open>n\<close> of them, each with its name and the length of its lives.
\<close>

fun runChaosWorker :: "('o, 's) Backend \<Rightarrow> WorkerID \<Rightarrow> WorkerConfig \<Rightarrow> ('o, 's) iteration list list \<Rightarrow> 's \<Rightarrow> 's option" where
  "runChaosWorker be w cfg [] s = Some s"
| "runChaosWorker be w cfg (life # lives) s =
    (case Run be w cfg life 0 s of
      Some (True, _, s) \<Rightarrow> runChaosWorker be w cfg lives s
    | _ \<Rightarrow> None)"

definition RunChaosWorkers :: "int \<Rightarrow> duration \<Rightarrow> (WorkerID result \<times> duration) list" where
  "RunChaosWorkers n killEvery = map (\<lambda>i. (workerName i, chaos_interval killEvery i)) [0..n - 1]"

section \<open>Metrics\<close>

text \<open>
  The bucket bounds in nanoseconds. Comparing \<open>d.Seconds()\<close> with a bound in floating point agrees with
  comparing the integers: every bound is a whole number of nanoseconds.
\<close>

definition histBounds :: "int list" where
  "histBounds =
    [50000, 100000, 200000, 500000,
     1000000, 2000000, 5000000, 10000000, 20000000, 50000000, 100000000, 200000000, 500000000,
     1000000000, 2000000000, 5000000000, 10000000000]"

record hist =
  counts :: "int list"
  hist_n :: int

definition newHist :: hist where
  "newHist = \<lparr>counts = replicate (length histBounds + 1) 0, hist_n = 0\<rparr>"

fun bucket :: "int list \<Rightarrow> duration \<Rightarrow> nat" where
  "bucket [] d = 0"
| "bucket (b # bs) d = (if d > b then Suc (bucket bs d) else 0)"

definition hist_add :: "duration \<Rightarrow> hist \<Rightarrow> hist" where
  "hist_add d h =
    (let i = bucket histBounds d
     in h\<lparr>counts := (counts h)[i := i64 (counts h ! i + 1)], hist_n := i64 (hist_n h + 1)\<rparr>)"

text \<open>
  \<open>qn\<close> is the floating-point product \<open>int64(q * float64(n))\<close>. The loop returns the index of the bucket in
  which the cumulative count reaches it; past the last bound twice the last bound is reported.
\<close>

fun quantile_loop :: "int list \<Rightarrow> nat \<Rightarrow> int \<Rightarrow> int \<Rightarrow> duration" where
  "quantile_loop [] i cum target = last histBounds"
| "quantile_loop (c # cs) i cum target =
    (let cum = i64 (cum + c)
     in if cum \<ge> target then (if i \<ge> length histBounds then last histBounds * 2 else histBounds ! i)
        else quantile_loop cs (Suc i) cum target)"

definition quantile :: "(int \<Rightarrow> int) \<Rightarrow> hist \<Rightarrow> duration" where
  "quantile qn h = (if hist_n h = 0 then 0 else quantile_loop (counts h) 0 0 (qn (hist_n h)))"

record Metrics =
  mt_Enqueued :: int
  mt_Acked :: int
  mt_Claims :: int
  mt_ClaimEmpty :: int
  mt_LeaseExpired :: int
  claimLat :: hist
  loopLat :: hist

definition hist_total :: "hist \<Rightarrow> int" where
  "hist_total h = hist_n h"

definition NewMetrics :: Metrics where
  "NewMetrics = \<lparr>mt_Enqueued = 0, mt_Acked = 0, mt_Claims = 0, mt_ClaimEmpty = 0, mt_LeaseExpired = 0,
    claimLat = newHist, loopLat = newHist\<rparr>"

definition mt_Claim :: "duration \<Rightarrow> bool \<Rightarrow> Metrics \<Rightarrow> Metrics" where
  "mt_Claim d gotUnit m =
    (let m = m\<lparr>mt_Claims := i64 (mt_Claims m + 1)\<rparr>;
         m = (if \<not> gotUnit then m\<lparr>mt_ClaimEmpty := i64 (mt_ClaimEmpty m + 1)\<rparr> else m)
     in m\<lparr>claimLat := hist_add d (claimLat m)\<rparr>)"

definition mt_Ack :: "int \<Rightarrow> Metrics \<Rightarrow> Metrics" where
  "mt_Ack n m = m\<lparr>mt_Acked := i64 (mt_Acked m + n)\<rparr>"

definition mt_Loop :: "duration \<Rightarrow> Metrics \<Rightarrow> Metrics" where
  "mt_Loop d m = m\<lparr>loopLat := hist_add d (loopLat m)\<rparr>"

definition ClaimP99 :: "(int \<Rightarrow> int) \<Rightarrow> Metrics \<Rightarrow> duration" where
  "ClaimP99 qn m = quantile qn (claimLat m)"

definition LoopP99 :: "(int \<Rightarrow> int) \<Rightarrow> Metrics \<Rightarrow> duration" where
  "LoopP99 qn m = quantile qn (loopLat m)"

definition LoopSamples :: "Metrics \<Rightarrow> int" where
  "LoopSamples m = hist_total (loopLat m)"

section \<open>Names and keys\<close>

lemma itoa_loop_show: "0 < n \<Longrightarrow> n < 10 ^ p \<Longrightarrow> itoa_loop (int n) p b = Ok (show_nat n @ b)"
proof (induction n arbitrary: p b rule: show_nat.induct)
  case (1 n)
  from 1(2,3) have p: "p \<noteq> 0" by (cases p) auto
  have step: "itoa_loop (int n) p b = itoa_loop (int (n div 10)) (p - 1) (digit (n mod 10) # b)"
    using 1(2) p by (simp add: itoa_loop.simps [of "int n"] go_div_nonneg nat_mod_distrib zdiv_int)
  show ?case
  proof (cases "n < 10")
    case True
    then show ?thesis using step by (simp add: itoa_loop.simps [of 0] show_nat.simps [of n])
  next
    case False
    have "n div 10 < 10 ^ (p - 1)"
      using 1(3) p by (cases p) (auto simp: less_mult_imp_div_less mult.commute)
    then have "itoa_loop (int (n div 10)) (p - 1) (digit (n mod 10) # b) = Ok (show_nat (n div 10) @ digit (n mod 10) # b)"
      using 1(1) False by simp
    with step False show ?thesis by (simp add: show_nat.simps [of n])
  qed
qed

lemma itoa_loop_panic: "10 ^ p \<le> n \<Longrightarrow> itoa_loop (int n) p b = Panic"
proof (induction p arbitrary: n b)
  case 0
  then show ?case by (simp add: itoa_loop.simps [of "int n"])
next
  case (Suc p)
  then have "10 ^ p \<le> n div 10" by (metis div_le_mono div_mult_self1_is_m power_Suc zero_less_numeral)
  moreover have "0 < n" using Suc.prems by (metis less_le_trans zero_less_numeral zero_less_power)
  ultimately show ?case
    using Suc.IH [of "n div 10" "digit (nat (int n mod 10)) # b"]
    by (simp add: itoa_loop.simps [of "int n"] go_div_nonneg zdiv_int)
qed

lemma fmt_d_inj_all: "fmt_d i = fmt_d j \<longleftrightarrow> i = j"
proof -
  have "hd (show_nat n) \<noteq> CHR ''-''" for n
    by (rule show_nat_hd) simp
  then show ?thesis
    by (auto simp: fmt_d_def dest: show_nat_inj split: if_splits) (metis list.sel(1))+
qed

lemma slash_free_keyFor: "slash_free (keyFor i w)"
proof -
  have "CHR ''/'' \<notin> set (fmt_d j)" for j
    using notin_show_nat [of "CHR ''/''"] by (auto simp: fmt_d_def)
  then show ?thesis by (simp add: slash_free_def keyFor_def)
qed

section \<open>The histogram against its samples\<close>

text \<open>The number of samples at most \<open>b\<close>.\<close>

definition at_most :: "duration \<Rightarrow> duration list \<Rightarrow> int" where
  "at_most b ds = int (length (filter (\<lambda>d. d \<le> b) ds))"

text \<open>The quantile by its definition: the least bound that \<open>t\<close> samples do not exceed.\<close>

definition quantile_ref :: "int \<Rightarrow> duration list \<Rightarrow> duration" where
  "quantile_ref t ds =
    (case filter (\<lambda>b. t \<le> at_most b ds) histBounds of b # _ \<Rightarrow> b | [] \<Rightarrow> 2 * last histBounds)"

lemma bucket_le: "bucket bs d \<le> length bs"
  by (induction bs) auto

lemma bucket_nth: "sorted bs \<Longrightarrow> i < length bs \<Longrightarrow> bucket bs d \<le> i \<longleftrightarrow> d \<le> bs ! i"
proof (induction bs arbitrary: i)
  case (Cons b bs)
  show ?case
  proof (cases i)
    case (Suc j)
    with Cons.prems have "b \<le> bs ! j" by simp
    then have "\<not> b < d \<Longrightarrow> d \<le> bs ! j" by linarith
    with Suc Cons.IH [of j] Cons.prems show ?thesis by auto
  qed auto
qed simp

lemma histBounds_sorted: "sorted histBounds" and histBounds_length: "length histBounds = 17"
  by (simp_all add: histBounds_def)

definition in_bucket :: "nat \<Rightarrow> duration list \<Rightarrow> int" where
  "in_bucket i ds = int (length (filter (\<lambda>d. bucket histBounds d = i) ds))"

lemma in_bucket_append: "in_bucket i (ds @ [d]) = in_bucket i ds + of_bool (bucket histBounds d = i)"
  by (simp add: in_bucket_def)

lemma in_bucket_bound: "in_bucket i ds \<le> int (length ds)"
  by (simp add: in_bucket_def)

lemma in_bucket_nonneg: "0 \<le> in_bucket i ds"
  by (simp add: in_bucket_def)

lemma hist_adds:
  assumes "int (length ds) < 2 ^ 63"
  shows "fold hist_add ds newHist = \<lparr>counts = map (\<lambda>i. in_bucket i ds) [0..<18], hist_n = int (length ds)\<rparr>"
  using assms
proof (induction ds rule: rev_induct)
  case Nil
  have "map (\<lambda>i. in_bucket i []) [0..<18] = replicate 18 0"
    by (rule nth_equalityI) (simp_all add: in_bucket_def)
  then show ?case by (simp add: newHist_def histBounds_length)
next
  case (snoc d ds)
  let ?i = "bucket histBounds d"
  have i: "?i < 18" using bucket_le [of histBounds d] by (simp add: histBounds_length)
  have c: "i64 (in_bucket ?i ds + 1) = in_bucket ?i ds + 1"
    using in_bucket_bound [of ?i ds] in_bucket_nonneg [of ?i ds] snoc.prems by (intro i64_id) auto
  have "(map (\<lambda>i. in_bucket i ds) [0..<18])[?i := in_bucket ?i ds + 1] = map (\<lambda>i. in_bucket i (ds @ [d])) [0..<18]"
    using i by (intro nth_equalityI) (auto simp: in_bucket_append nth_list_update)
  with snoc i c show ?case by (simp add: hist_add_def Let_def i64_id)
qed

text \<open>Counting bucket by bucket up to \<open>i\<close> counts the samples not above the bound of bucket \<open>i\<close>.\<close>

lemma sum_buckets: "(\<Sum>j<Suc i. in_bucket j ds) = int (length (filter (\<lambda>d. bucket histBounds d \<le> i) ds))"
proof (induction ds)
  case (Cons d ds)
  have "(\<Sum>j<Suc i. in_bucket j (d # ds)) = (\<Sum>j<Suc i. in_bucket j ds + of_bool (bucket histBounds d = j))"
    by (rule sum.cong) (auto simp: in_bucket_def)
  also have "\<dots> = (\<Sum>j<Suc i. in_bucket j ds) + of_bool (bucket histBounds d \<le> i)"
    by (simp add: sum.distrib of_bool_def sum.delta' less_Suc_eq_le del: sum.lessThan_Suc)
  finally show ?case using Cons by simp
qed (simp add: in_bucket_def)

lemma sum_buckets_at_most: "i < 17 \<Longrightarrow> (\<Sum>j<Suc i. in_bucket j ds) = at_most (histBounds ! i) ds"
  by (simp only: sum_buckets at_most_def bucket_nth [OF histBounds_sorted] histBounds_length)

lemma filter_first: "i < length bs \<Longrightarrow> P (bs ! i) \<Longrightarrow> \<forall>j < i. \<not> P (bs ! j) \<Longrightarrow> \<exists>r. filter P bs = bs ! i # r"
proof (induction bs arbitrary: i)
  case (Cons b bs)
  show ?case
  proof (cases i)
    case (Suc j)
    then have "\<not> P b" using Cons.prems(3) by force
    moreover have "\<forall>l < j. \<not> P (bs ! l)" using Cons.prems(3) Suc by force
    ultimately show ?thesis using Cons.IH [of j] Cons.prems Suc by simp
  qed (use Cons.prems in auto)
qed simp

lemma quantile_loop_ref:
  assumes "i < 18" and "int (length ds) < 2 ^ 63" and "t \<le> int (length ds)"
    and "\<forall>j < i. at_most (histBounds ! j) ds < t"
  shows "quantile_loop (map (\<lambda>i. in_bucket i ds) [i..<18]) i (\<Sum>j<i. in_bucket j ds) t = quantile_ref t ds"
  using assms(1,4)
proof (induction "18 - i" arbitrary: i)
  case (Suc n)
  let ?cum = "\<Sum>j<Suc i. in_bucket j ds"
  have "0 \<le> ?cum" "?cum \<le> int (length ds)"
    unfolding sum_buckets by simp_all
  then have cum: "i64 ?cum = ?cum" using assms(2) by (intro i64_id) auto
  have cs: "map (\<lambda>i. in_bucket i ds) [i..<18] = in_bucket i ds # map (\<lambda>i. in_bucket i ds) [Suc i..<18]"
    using Suc.prems(1) by (simp add: upt_conv_Cons)
  show ?case
  proof (cases "t \<le> ?cum")
    case True
    have "quantile_ref t ds = (if i \<ge> 17 then last histBounds * 2 else histBounds ! i)"
    proof (cases "i < 17")
      case True
      with \<open>t \<le> ?cum\<close> have "t \<le> at_most (histBounds ! i) ds" by (simp only: sum_buckets_at_most)
      with True Suc.prems(2) filter_first [of i histBounds "\<lambda>b. t \<le> at_most b ds"]
      show ?thesis by (auto simp: quantile_ref_def histBounds_length not_le)
    next
      case False
      with Suc.prems have "filter (\<lambda>b. t \<le> at_most b ds) histBounds = []"
        by (auto simp: filter_empty_conv in_set_conv_nth histBounds_length not_le)
      with False show ?thesis by (simp add: quantile_ref_def)
    qed
    with True cum cs show ?thesis by (simp add: histBounds_length algebra_simps)
  next
    case False
    have "i \<noteq> 17"
    proof
      assume "i = 17"
      then have "?cum = int (length ds)"
        unfolding sum_buckets using bucket_le [of histBounds] by (simp add: histBounds_length)
      with False assms(3) show False by simp
    qed
    with Suc.prems(1) have i: "Suc i < 18" by simp
    have "\<forall>j < Suc i. at_most (histBounds ! j) ds < t"
      using Suc.prems(2) False i by (simp only: less_Suc_eq sum_buckets_at_most) auto
    with Suc.hyps(1) [of "Suc i"] Suc.hyps(2) i False cum cs show ?thesis by (simp add: algebra_simps)
  qed
qed simp

section \<open>What the load generator guarantees\<close>

text \<open>
  The hand-written \<open>itoa\<close> prints every index below \<open>10^12\<close> in decimal, as \<open>fmt\<close> does; a larger one
  overruns its 12-byte buffer and panics, and a negative one prints as the empty string.
\<close>

theorem itoa_correct:
  "itoa i = (if i < 0 then Ok '''' else if i < 10 ^ 12 then Ok (fmt_d i) else Panic)"
proof -
  consider "i < 0" | "i = 0" | n where "i = int n" "0 < n" "n < 10 ^ 12" | n where "i = int n" "10 ^ 12 \<le> n"
    by (metis linorder_less_linear not_less pos_int_cases zero_less_imp_eq_int)
  then show ?thesis
  proof cases
    case 1
    then show ?thesis by (simp add: itoa_def itoa_loop.simps [of i])
  next
    case 2
    then show ?thesis by (simp add: itoa_def fmt_d_def show_nat.simps digit_def)
  next
    case 3
    then show ?thesis using itoa_loop_show [of n 12 "[]"] by (simp add: itoa_def fmt_d_nonneg)
  next
    case 4
    then show ?thesis using itoa_loop_panic [of 12 n "[]"] by (auto simp: itoa_def)
  qed
qed

text \<open>
  The workload: a cost drawn from a distribution with \<open>1 \<le> Lo\<close> is between 1 and the larger bound, so
  every task counts towards the threshold; the key of an index identifies the index, contains no
  slash, and its workspace is one of the configured number.
\<close>

theorem workload_wellformed:
  assumes "draws int63n" and "1 \<le> Lo c" and "Hi c < 2 ^ 63 - 1" and "0 \<le> i"
  shows "(\<exists>x. sample_cost int63n c = Ok x \<and> 1 \<le> x \<and> x \<le> max (Lo c) (Hi c)) \<and>
    (keyFor i w = keyFor j w' \<longrightarrow> i = j) \<and> slash_free (keyFor i w) \<and>
    (\<exists>m. 0 \<le> m \<and> m < max w 1 \<and> Workspace (keyFor i w) = ''ws-'' @ fmt_d m)"
proof -
  have "\<exists>x. sample_cost int63n c = Ok x \<and> 1 \<le> x \<and> x \<le> max (Lo c) (Hi c)"
  proof (cases "cd_Kind c = ''uniform'' \<and> Hi c > Lo c")
    case True
    let ?n = "Hi c - Lo c + 1"
    have n: "i64 (i64 (Hi c - Lo c) + 1) = ?n" using True assms(2,3) by (simp add: i64_id)
    have "0 < ?n" using True by simp
    then have "0 \<le> int63n ?n" "int63n ?n < ?n" using assms(1) unfolding draws_def by blast+
    moreover from this have "i64 (Lo c + int63n ?n) = Lo c + int63n ?n"
      using assms(2,3) by (intro i64_id) auto
    ultimately show ?thesis using True n assms(2) by (simp add: sample_cost_def Let_def)
  qed (use assms(2) in \<open>auto simp: sample_cost_def\<close>)
  moreover have "keyFor i w = keyFor j w' \<longrightarrow> i = j" by (simp add: keyFor_def fmt_d_inj_all)
  moreover have "0 \<le> go_mod i (max w 1)" "go_mod i (max w 1) < max w 1"
    using assms(4) by (simp_all add: go_mod_nonneg)
  ultimately show ?thesis using slash_free_keyFor by (auto simp: keyFor_def)
qed

theorem workload_wellformed_witness:
  "\<exists>x. sample_cost (\<lambda>n. n - 1) (wl_Cost (DefaultWorkload 1)) = Ok x \<and> 1 \<le> x \<and> x \<le> 50"
  using workload_wellformed [of "\<lambda>n. n - 1" "wl_Cost (DefaultWorkload 1)" 0] by (simp add: DefaultWorkload_def draws_def)

text \<open>
  C16. The streaming histogram computes the quantile of its samples, up to the resolution of its
  buckets: after any samples, fewer than \<open>2^63\<close>, it reports the least bucket bound that at least \<open>qn n\<close> of
  them do not exceed, and twice the last bound when they exceed every bound.
\<close>

theorem quantile_correct:
  assumes "ds \<noteq> []" and "int (length ds) < 2 ^ 63" and "qn (int (length ds)) \<le> int (length ds)"
  shows "quantile qn (fold hist_add ds newHist) = quantile_ref (qn (int (length ds))) ds"
  using quantile_loop_ref [of 0 ds "qn (int (length ds))"] assms by (simp add: hist_adds quantile_def)

theorem quantile_correct_witness:
  "quantile (\<lambda>n. 99 * n div 100) (fold hist_add [60000, 70000, 3000000] newHist) = 100000"
proof -
  have "quantile (\<lambda>n. 99 * n div 100) (fold hist_add [60000, 70000, 3000000] newHist)
      = quantile_ref 2 [60000, 70000, 3000000]"
    using quantile_correct [of "[60000, 70000, 3000000]" "\<lambda>n. 99 * n div 100"] by simp
  also have "\<dots> = 100000" by (simp add: quantile_ref_def histBounds_def at_most_def)
  finally show ?thesis .
qed

text \<open>Window moves go forward, and ranks stay below the size of the working set.\<close>

definition in_window :: "Workload \<Rightarrow> ('o, 's) attempt \<Rightarrow> bool" where
  "in_window w a \<longleftrightarrow> 0 \<le> at_slide a \<and> 0 \<le> at_rank a \<and> at_rank a < wl_WorkingSet w"

lemma produce_step:
  assumes "produce be w (a # as) (base, n, s) = Some (ks, base', n', s')" and "\<not> at_done a"
    and "i64 ((if at_birth a then i64 (base + 1) else base) + at_slide a) = base1" and "i64 (base1 + at_rank a) = j"
    and "i64 (n + 1) = n + 1"
  obtains (counted) s1 ks1 where "produce be w as (base1, n + 1, s1) = Some (ks1, base', n', s')"
      "ks = keyFor j (wl_Workspaces w) # ks1"
    | (skipped) s1 where "produce be w as (base1, n, s1) = Some (ks, base', n', s')"
    | (stopped) "ks = []" "base' = base1" "n' = n"
proof -
  let ?k = "keyFor j (wl_Workspaces w)"
  from assms(1-4) obtain cost where cost: "\<not> wl_ZipfS w \<le> 1" "sample_cost (at_int63n a) (wl_Cost w) = Ok cost"
    by (auto simp: Let_def split: result.splits if_splits)
  obtain r s1 where enq: "be_Enqueue be (reads (at_turn a)) ?k payload cost (interfere (at_turn a) s) = (r, s1)"
    by (cases "be_Enqueue be (reads (at_turn a)) ?k payload cost (interfere (at_turn a) s)")
  show ?thesis
    using assms cost enq counted skipped stopped
    by (cases r; cases "at_done_err a") (auto simp: Let_def simp del: i64_add)
qed

text \<open>
  A producer counts exactly what it enqueued, whatever the backend answers: its counter advances
  by the number of keys whose \<open>Enqueue\<close> succeeded. The window only moves forward, and every key it enqueues
  to has an index between the old base and the end of the new window.
\<close>

theorem produce_counts:
  assumes "produce be w as (base, n, s) = Some (ks, base', n', s')" and "0 \<le> n" and "n + int (length as) < 2 ^ 63"
    and "\<forall>a \<in> set as. in_window w a" and "0 \<le> base"
    and "base + sum_list (map at_slide as) + int (length as) + wl_WorkingSet w < 2 ^ 63"
  shows "n' = n + int (length ks) \<and> base \<le> base' \<and>
    (\<forall>k \<in> set ks. \<exists>j. base \<le> j \<and> j < base' + wl_WorkingSet w \<and> k = keyFor j (wl_Workspaces w))"
  using assms
proof (induction as arbitrary: base n s ks)
  case (Cons a as)
  let ?base = "(if at_birth a then base + 1 else base) + at_slide a"
  have win: "0 \<le> at_slide a" "0 \<le> at_rank a" "at_rank a < wl_WorkingSet w" and as: "\<forall>a \<in> set as. in_window w a"
    using Cons.prems(4) by (simp_all add: in_window_def)
  have slides: "0 \<le> sum_list (map at_slide as)"
    using as by (intro sum_list_nonneg) (auto simp: in_window_def)
  have b: "base \<le> ?base" "?base + sum_list (map at_slide as) + int (length as) + wl_WorkingSet w < 2 ^ 63"
    using win Cons.prems(6) by auto
  have eqs: "i64 ((if at_birth a then i64 (base + 1) else base) + at_slide a) = ?base"
    "i64 (?base + at_rank a) = ?base + at_rank a" "i64 (n + 1) = n + 1"
    using win slides b Cons.prems(2,3,5) by (auto simp: i64_id)
  show ?case
  proof (cases "at_done a")
    case False
    from Cons.prems(1) False eqs show ?thesis
    proof (cases rule: produce_step)
      case (counted s1 ks1)
      have IH: "n' = n + 1 + int (length ks1)" "?base \<le> base'"
        "\<forall>k \<in> set ks1. \<exists>j. ?base \<le> j \<and> j < base' + wl_WorkingSet w \<and> k = keyFor j (wl_Workspaces w)"
        using Cons.IH [OF counted(1)] Cons.prems(2,3,5) b as by auto
      have "base \<le> ?base + at_rank a" "?base + at_rank a < base' + wl_WorkingSet w" using b win IH(2) by linarith+
      with IH b(1) show ?thesis unfolding counted(2) by (auto intro: order.trans)
    next
      case (skipped s1)
      have "n' = n + int (length ks) \<and> ?base \<le> base' \<and>
          (\<forall>k \<in> set ks. \<exists>j. ?base \<le> j \<and> j < base' + wl_WorkingSet w \<and> k = keyFor j (wl_Workspaces w))"
        using Cons.IH [OF skipped] Cons.prems(2,3,5) b as by simp
      with b(1) show ?thesis by (meson order.trans)
    next
      case stopped
      with b(1) show ?thesis by simp
    qed
  qed (use Cons.prems(1) in auto)
qed auto

theorem produce_counts_witness:
  "\<exists>base' b'. produce memory_Backend (DefaultWorkload 1)
      [\<lparr>at_done = False, at_birth = True, at_slide = 2, at_rank = 7, at_int63n = (\<lambda>_. 0),
        at_turn = \<lparr>interfere = id, reads = \<lparr>clock = 1, clock' = 1, order = []\<rparr>\<rparr>, at_done_err = False\<rparr>]
      (0, 0, mem_New \<lparr>DefaultThreshold = 1, DefaultMaxWait = 1, MaxAttempts = 1\<rparr>)
    = Some ([keyFor 10 8], base', 1, b') \<and> 0 \<le> base'"
proof -
  let ?a = "\<lparr>at_done = False, at_birth = True, at_slide = 2, at_rank = 7, at_int63n = (\<lambda>_. 0),
    at_turn = \<lparr>interfere = id, reads = \<lparr>clock = 1, clock' = 1, order = []\<rparr>\<rparr>, at_done_err = False\<rparr>"
  let ?b = "mem_New \<lparr>DefaultThreshold = 1, DefaultMaxWait = 1, MaxAttempts = 1\<rparr>"
  obtain base' b' where run: "produce memory_Backend (DefaultWorkload 1) [?a] (0, 0, ?b) = Some ([keyFor 10 8], base', 1, b')"
    by (simp add: DefaultWorkload_def sample_cost_def memory_Backend_def mem_Enqueue_def Let_def i64_id)
  from produce_counts [OF run] run show ?thesis by (auto simp: in_window_def DefaultWorkload_def)
qed


section \<open>Interleaved producers\<close>

text \<open>The producers that have enqueued a task and not yet counted it.\<close>

definition uncounted :: "nat \<Rightarrow> 's load \<Rightarrow> nat set" where
  "uncounted n l = {i. i < n \<and> ld_pc l i = AtCount}"

lemma finite_uncounted [simp]: "finite (uncounted n l)"
  by (simp add: uncounted_def)

lemma uncounted_upd:
  assumes "i < n"
  shows "uncounted n (l\<lparr>ld_pc := (ld_pc l)(i := p)\<rparr>) = (if p = AtCount then insert i (uncounted n l) else uncounted n l - {i})"
  using assms by (auto simp: uncounted_def)

lemma uncounted_more [simp]:
  "uncounted n (l\<lparr>ld_base := b\<rparr>) = uncounted n l" "uncounted n (l\<lparr>ld_enqueued := m\<rparr>) = uncounted n l"
  "uncounted n (l\<lparr>ld_queue := q\<rparr>) = uncounted n l"
  by (simp_all add: uncounted_def)

lemma not_uncounted: "ld_pc l i \<noteq> AtCount \<Longrightarrow> i \<notin> uncounted n l"
  by (simp add: uncounted_def)

text \<open>
  What holds between any two steps, with \<open>t\<close> the number of steps so far and \<open>ks\<close> the tasks accepted: the counter
  lags behind by the producers about to count, the base has moved at most once per step, and the
  indices about to be enqueued and those enqueued lie below the end of the window.
\<close>

definition in_range :: "Workload \<Rightarrow> int \<Rightarrow> WorkUnitKey \<times> int \<Rightarrow> bool" where
  "in_range w base kc \<longleftrightarrow> (\<exists>j. 0 \<le> j \<and> j < base + wl_WorkingSet w \<and> fst kc = keyFor j (wl_Workspaces w)) \<and>
     (\<exists>d. draws d \<and> sample_cost d (wl_Cost w) = Ok (snd kc))"

definition load_ok :: "Workload \<Rightarrow> nat \<Rightarrow> int \<Rightarrow> nat \<Rightarrow> (WorkUnitKey \<times> int) list \<Rightarrow> 's load \<Rightarrow> bool" where
  "load_ok w n m t ks l \<longleftrightarrow> ld_enqueued l + int (card (uncounted n l)) = m + int (length ks) \<and> length ks \<le> t \<and>
     m \<le> ld_enqueued l \<and> 0 \<le> ld_base l \<and> ld_base l \<le> int t \<and>
     (\<forall>i j. i < n \<longrightarrow> ld_pc l i = AtEnqueue j \<longrightarrow> 0 \<le> j \<and> j < ld_base l + wl_WorkingSet w) \<and>
     (\<forall>kc \<in> set ks. in_range w (ld_base l) kc)"


lemma in_range_mono: "in_range w b kc \<Longrightarrow> b \<le> b' \<Longrightarrow> in_range w b' kc"
  unfolding in_range_def by fastforce

lemma load_ok_step:
  assumes "producer_step be w n l k l'" and "load_ok w n m t ks l"
    and "0 \<le> m" and "m + int (Suc t) < 2 ^ 63" and "int (Suc t) + wl_WorkingSet w < 2 ^ 63" and "0 \<le> wl_WorkingSet w"
  shows "load_ok w n m (Suc t) (ks @ k) l'"
  using assms
proof (induction rule: producer_step.induct)
  case (stop i l)
  then show ?case by (auto simp: load_ok_def uncounted_upd not_uncounted)
next
  case (birth i l)
  have b: "i64 (ld_base l + 1) = ld_base l + 1" using birth by (intro i64_id) (auto simp: load_ok_def)
  have "uncounted n (l\<lparr>ld_base := ld_base l + 1, ld_pc := (ld_pc l)(i := AtLoad)\<rparr>) = uncounted n l"
    using birth by (auto simp: uncounted_def)
  with birth b show ?case by (auto simp: load_ok_def intro: in_range_mono)
next
  case (stay i l)
  then show ?case by (auto simp: load_ok_def uncounted_upd not_uncounted)
next
  case (load i l rank)
  have "i64 (ld_base l + rank) = ld_base l + rank" using load by (intro i64_id) (auto simp: load_ok_def)
  with load show ?case by (auto simp: load_ok_def uncounted_upd not_uncounted)
next
  case (accepted i l j int63n cost e seq q)
  have "uncounted n (l\<lparr>ld_queue := q, ld_pc := (ld_pc l)(i := AtCount)\<rparr>) = insert i (uncounted n l)"
    using accepted by (auto simp: uncounted_def)
  moreover have "in_range w (ld_base l) (keyFor j (wl_Workspaces w), cost)"
    using accepted by (auto simp: load_ok_def in_range_def)
  ultimately show ?case using accepted by (auto simp: load_ok_def not_uncounted)
next
  case (refused i l j int63n cost e x q p)
  then have "uncounted n (l\<lparr>ld_queue := q, ld_pc := (ld_pc l)(i := p)\<rparr>) = uncounted n l"
    by (auto simp: uncounted_def)
  with refused show ?case by (auto simp: load_ok_def)
next
  case (count i l)
  have i: "i \<in> uncounted n l" using count by (simp add: uncounted_def)
  then have c: "Suc (card (uncounted n l - {i})) = card (uncounted n l)" by (intro card_Suc_Diff1) simp
  have "uncounted n (l\<lparr>ld_enqueued := ld_enqueued l + 1, ld_pc := (ld_pc l)(i := AtHead)\<rparr>) = uncounted n l - {i}"
    using count by (auto simp: uncounted_def)
  moreover have "i64 (ld_enqueued l + 1) = ld_enqueued l + 1"
    using count c by (intro i64_id) (auto simp: load_ok_def)
  ultimately show ?case using count c by (auto simp: load_ok_def)
next
  case (other l q)
  then show ?case by (auto simp: load_ok_def)
qed

lemma load_ok_run:
  assumes "producer_run be w n l ks l'" and "l = RunProducers s m"
    and "0 \<le> m" and "m + int (length ks) < 2 ^ 63" and "int (length ks) + wl_WorkingSet w < 2 ^ 63" and "0 \<le> wl_WorkingSet w"
  shows "load_ok w n m (length ks) (concat ks) l'"
  using assms
proof (induction rule: producer_run.induct)
  case (none l)
  then show ?case by (simp add: load_ok_def RunProducers_def uncounted_def)
next
  case (more l ks l' k l'')
  then show ?case using load_ok_step [OF more.hyps(2), of m "length ks" "concat ks"] by simp
qed

text \<open>One producer that enqueues one task and returns, on any backend that accepts it.\<close>

definition demo_load :: "int \<Rightarrow> int \<Rightarrow> 's \<Rightarrow> pc \<Rightarrow> 's load" where
  "demo_load b n q p = \<lparr>ld_base = b, ld_enqueued = n, ld_queue = q, ld_pc = (\<lambda>_. AtHead)(0 := p)\<rparr>"

lemma demo_load_simps [simp]: "ld_queue (demo_load b n q p) = q" "ld_pc (demo_load b n q p) 0 = p"
  "RunProducers q n = demo_load 0 n q AtHead"
  by (simp_all add: demo_load_def RunProducers_def fun_eq_iff)

lemma demo_steps:
  assumes "be_Enqueue be e (keyFor 8 8) payload 10 s = (Ok sq, q)"
  shows "producer_step be (DefaultWorkload 1) 1 (demo_load 0 0 s AtHead) [] (demo_load 1 0 s AtLoad)"
    and "producer_step be (DefaultWorkload 1) 1 (demo_load 1 0 s AtLoad) [] (demo_load 1 0 s (AtEnqueue 8))"
    and "producer_step be (DefaultWorkload 1) 1 (demo_load 1 0 s (AtEnqueue 8)) [(keyFor 8 8, 10)] (demo_load 1 0 q AtCount)"
    and "producer_step be (DefaultWorkload 1) 1 (demo_load 1 0 q AtCount) [] (demo_load 1 1 q AtHead)"
    and "producer_step be (DefaultWorkload 1) 1 (demo_load 1 1 q AtHead) [] (demo_load 1 1 q Stopped)"
proof -
  let ?w = "DefaultWorkload 1"
  show "producer_step be ?w 1 (demo_load 0 0 s AtHead) [] (demo_load 1 0 s AtLoad)"
    using producer_step.birth [of 0 1 "demo_load 0 0 s AtHead" be ?w] by (simp add: i64_id demo_load_def)
  show "producer_step be ?w 1 (demo_load 1 0 s AtLoad) [] (demo_load 1 0 s (AtEnqueue 8))"
    using producer_step.load [of 0 1 "demo_load 1 0 s AtLoad" ?w 7 be] by (simp add: i64_id DefaultWorkload_def demo_load_def)
  show "producer_step be ?w 1 (demo_load 1 0 s (AtEnqueue 8)) [(keyFor 8 8, 10)] (demo_load 1 0 q AtCount)"
    using producer_step.accepted [of 0 1 "demo_load 1 0 s (AtEnqueue 8)" 8 "\<lambda>_. 0" ?w 10 be e sq q] assms
    by (simp add: DefaultWorkload_def sample_cost_def i64_id draws_def demo_load_def)
  show "producer_step be ?w 1 (demo_load 1 0 q AtCount) [] (demo_load 1 1 q AtHead)"
    using producer_step.count [of 0 1 "demo_load 1 0 q AtCount" be ?w] by (simp add: i64_id demo_load_def)
  show "producer_step be ?w 1 (demo_load 1 1 q AtHead) [] (demo_load 1 1 q Stopped)"
    using producer_step.stop [of 0 1 "demo_load 1 1 q AtHead" be ?w] by (simp add: demo_load_def)
qed

lemma producer_demo:
  "\<exists>l. producer_run memory_Backend (DefaultWorkload 1) 1 (RunProducers (mem_New \<lparr>DefaultThreshold = 1, DefaultMaxWait = 1, MaxAttempts = 1\<rparr>) 0)
      [[], [], [(keyFor 8 8, 10)], [], []] l \<and> ld_pc l 0 = Stopped"
proof -
  let ?b = "mem_New \<lparr>DefaultThreshold = 1, DefaultMaxWait = 1, MaxAttempts = 1\<rparr>" and ?e = "\<lparr>clock = 1, clock' = 1, order = []\<rparr>"
  have e: "be_Enqueue memory_Backend ?e (keyFor 8 8) payload 10 ?b = (Ok 0, snd (be_Enqueue memory_Backend ?e (keyFor 8 8) payload 10 ?b))"
    by (simp add: memory_Backend_def mem_Enqueue_def mem_New_def new_unit_def)
  note d = demo_steps [OF e]
  note r = producer_run.more [OF producer_run.more [OF producer_run.more [OF producer_run.more [OF producer_run.more
    [OF producer_run.none d(1)] d(2)] d(3)] d(4)] d(5), simplified append.simps]
  show ?thesis unfolding demo_load_simps by (intro exI conjI, rule r) simp
qed

text \<open>
  C18. The telemetry of concurrent producers: whatever the interleaving, and whatever workers and reaper do to
  the queue meanwhile, the \<open>Enqueued\<close> counter never runs ahead of the tasks that the queue has accepted and
  lags behind by at most one per producer; when all producers have returned it is exact. Every accepted
  task went to a key of the window and has a cost that the configured distribution can draw.
\<close>

theorem producers_account:
  assumes "producer_run be w n (RunProducers s m) ks l" and "0 \<le> m" and "m + int (length ks) < 2 ^ 63"
    and "int (length ks) + wl_WorkingSet w < 2 ^ 63" and "0 \<le> wl_WorkingSet w"
  shows "ld_enqueued l \<le> m + int (length (concat ks)) \<and> m + int (length (concat ks)) \<le> ld_enqueued l + int n \<and>
    ((\<forall>i < n. ld_pc l i = Stopped) \<longrightarrow> ld_enqueued l = m + int (length (concat ks))) \<and>
    (\<forall>kc \<in> set (concat ks). in_range w (ld_base l) kc)"
proof -
  have ok: "load_ok w n m (length ks) (concat ks) l" by (rule load_ok_run [OF assms(1) HOL.refl assms(2-5)])
  have "card (uncounted n l) \<le> card {..<n}" by (rule card_mono) (auto simp: uncounted_def)
  moreover have "uncounted n l = {}" if "\<forall>i < n. ld_pc l i = Stopped" using that by (auto simp: uncounted_def)
  ultimately show ?thesis using ok by (auto simp: load_ok_def)
qed


theorem producers_account_witness:
  "\<exists>l. producer_run memory_Backend (DefaultWorkload 1) 1 (RunProducers (mem_New \<lparr>DefaultThreshold = 1, DefaultMaxWait = 1, MaxAttempts = 1\<rparr>) 0)
      [[], [], [(keyFor 8 8, 10)], [], []] l \<and> ld_enqueued l = 1"
proof -
  obtain l where r: "producer_run memory_Backend (DefaultWorkload 1) 1
      (RunProducers (mem_New \<lparr>DefaultThreshold = 1, DefaultMaxWait = 1, MaxAttempts = 1\<rparr>) 0) [[], [], [(keyFor 8 8, 10)], [], []] l"
    and "ld_pc l 0 = Stopped"
    using producer_demo by blast
  with producers_account [OF r] show ?thesis by (auto simp: DefaultWorkload_def)
qed

text \<open>
  The chaos workers: up to \<open>10^12\<close> of them have different names, none of them panics on its name, and the lives
  of a later worker are at least as long as an earlier one's, and at least \<open>killEvery\<close>.
\<close>

theorem chaos_plan:
  assumes "n \<le> 10 ^ 12" and "0 < killEvery" and "killEvery * (n + 8) < 2 ^ 63"
  shows "distinct (map fst (RunChaosWorkers n killEvery)) \<and> sorted (map snd (RunChaosWorkers n killEvery)) \<and>
    (\<forall>(w, d) \<in> set (RunChaosWorkers n killEvery). killEvery \<le> d \<and> (\<exists>i. w = Ok (''chaos-w'' @ fmt_d i)))"
proof -
  have name: "workerName i = Ok (''chaos-w'' @ fmt_d i)" if "0 \<le> i" "i < n" for i
    using itoa_correct [of i] that assms(1) by (simp add: workerName_def)
  have iv: "chaos_interval killEvery i = killEvery + i * killEvery div 8" if "0 \<le> i" "i < n" for i
  proof -
    have ik: "0 \<le> i * killEvery" using that(1) assms(2) by simp
    have "i * killEvery \<le> n * killEvery" using that assms(2) by (intro mult_right_mono) auto
    moreover have "n * killEvery + 8 * killEvery < 2 ^ 63" using assms(3) by (simp only: algebra_simps)
    ultimately have lt: "killEvery + i * killEvery < 2 ^ 63" using assms(2) by linarith
    have "i * killEvery div 8 \<le> i * killEvery" using ik by linarith
    moreover have "0 \<le> i * killEvery div 8" using ik by linarith
    moreover have "i64 (i * killEvery) = i * killEvery" using ik lt assms(2) by (intro i64_id) linarith+
    moreover have "i64 (killEvery + i * killEvery div 8) = killEvery + i * killEvery div 8"
      using calculation(1,2) lt assms(2) by (intro i64_id) linarith+
    ultimately show ?thesis using assms(2) ik by (simp add: chaos_interval_def Let_def go_div_nonneg del: i64_add)
  qed
  have "sorted (map (chaos_interval killEvery) [0..n - 1])"
    unfolding sorted_iff_nth_mono
    using assms(2) by (auto simp: iv intro!: zdiv_mono1 mult_right_mono)
  moreover have "inj_on workerName {0..n - 1}" by (rule inj_onI) (auto simp: name fmt_d_inj_all)
  moreover have "0 \<le> i * killEvery div 8" if "0 \<le> i" for i
    using that assms(2) by (simp add: pos_imp_zdiv_nonneg_iff)
  ultimately show ?thesis using assms(2) by (auto simp: RunChaosWorkers_def distinct_map comp_def name iv)
qed

end
