(* ===== verification/Load_System.thy ===== *)
theory Load_System
  imports Memory_System Postgres_System Valkey_System Loadgen "HOL-Library.Sublist"
begin

text \<open>
  Producers and a queue together: the interleaved producers of \<open>RunProducers\<close> against a backend that other
  clients call at the same time, as \<open>Run\<close> of the harness and the producer and worker boxes have it. The step
  relation is the same for the three backends; each provides its own calls and their events.
\<close>

section \<open>The composed system\<close>

text \<open>
  A state pairs the producers' with the queue's; \<open>store\<close> is what the producers see of the latter. A step is
  one of a producer that does not touch the queue, an \<open>Enqueue\<close> that is answered with a sequence number or
  an error, or a call of another client. Recorded are the tasks accepted in each step and the events of the
  queue.
\<close>

inductive system_run :: "('o, 's) Backend \<Rightarrow> ('t \<Rightarrow> 's) \<Rightarrow> ('t \<Rightarrow> 'l \<Rightarrow> 't \<Rightarrow> bool) \<Rightarrow> ('t \<Rightarrow> 'l \<Rightarrow> event) \<Rightarrow> ('o \<Rightarrow> WorkUnitKey \<Rightarrow> int \<Rightarrow> 'l)
    \<Rightarrow> Workload \<Rightarrow> nat \<Rightarrow> 's load \<times> 't \<Rightarrow> (WorkUnitKey \<times> int) list list \<Rightarrow> event list \<Rightarrow> 's load \<times> 't \<Rightarrow> bool"
  for be store step event enq w n x where
  start: "system_run be store step event enq w n x [] [] x"
| local: "system_run be store step event enq w n x ks evs (l, t) \<Longrightarrow> producer_step be w n l [] l' \<Longrightarrow> ld_queue l' = ld_queue l \<Longrightarrow>
    system_run be store step event enq w n x (ks @ [[]]) evs (l', t)"
| accept: "system_run be store step event enq w n x ks evs (l, t) \<Longrightarrow> producer_step be w n l [(k, cost)] l' \<Longrightarrow>
    be_Enqueue be e k payload cost (store t) = (Ok seq, store t') \<Longrightarrow> ld_queue l' = store t' \<Longrightarrow> step t (enq e k cost) t' \<Longrightarrow>
    system_run be store step event enq w n x (ks @ [[(k, cost)]]) (evs @ [event t (enq e k cost)]) (l', t')"
| refuse: "system_run be store step event enq w n x ks evs (l, t) \<Longrightarrow> producer_step be w n l [] l' \<Longrightarrow>
    be_Enqueue be e k payload cost (store t) = (Err y, store t') \<Longrightarrow> ld_queue l' = store t' \<Longrightarrow> step t (enq e k cost) t' \<Longrightarrow>
    system_run be store step event enq w n x (ks @ [[]]) (evs @ [event t (enq e k cost)]) (l', t')"
| other: "system_run be store step event enq w n x ks evs (l, t) \<Longrightarrow> step t c t' \<Longrightarrow>
    system_run be store step event enq w n x (ks @ [[]]) (evs @ [event t c]) (l\<lparr>ld_queue := store t'\<rparr>, t')"

text \<open>The costs of the tasks that were accepted for a unit, in the order of their acceptance.\<close>

definition accepted :: "WorkUnitKey \<Rightarrow> (WorkUnitKey \<times> int) list \<Rightarrow> int list" where
  "accepted k ks = map snd (filter (\<lambda>kc. fst kc = k) ks)"

lemma accepted_simps [simp]: "accepted k [] = []" "accepted k (ks @ ks') = accepted k ks @ accepted k ks'"
  "accepted k [(k', cost)] = (if k' = k then [cost] else [])"
  by (simp_all add: accepted_def)

text \<open>The two halves of a run: one of the producers, and one of the queue.\<close>

lemma system_run_producers:
  assumes "system_run be store step event enq w n (l0, t0) ks evs lt"
  shows "producer_run be w n l0 ks (fst lt)"
  using assms
proof (induction rule: system_run.induct)
  case start
  show ?case by (simp add: producer_run.none)
next
  case (other ks evs l t c t')
  then show ?case using producer_run.more [OF _ producer_step.other] by simp
qed (simp_all add: producer_run.more)

lemma run_queue_snoc:
  assumes "\<exists>cls. impl_run step event t0 cls evs t \<and> length cls \<le> length ks" and "step t c t'"
  shows "\<exists>cls. impl_run step event t0 cls (evs @ [event t c]) t' \<and> length cls \<le> Suc (length ks)"
proof -
  from assms(1) obtain cls where run: "impl_run step event t0 cls evs t" and "length cls \<le> length ks" by blast
  then show ?thesis by (intro exI [of _ "cls @ [c]"]) (simp add: impl_run.snoc [where l = c, OF run assms(2)])
qed

lemma system_run_queue:
  assumes "system_run be store step event enq w n (l0, t0) ks evs lt"
  shows "\<exists>cls. impl_run step event t0 cls evs (snd lt) \<and> length cls \<le> length ks"
  using assms
proof (induction rule: system_run.induct)
  case start
  have "impl_run step event t0 [] [] t0" by (rule impl_run.nil)
  then show ?case by (intro exI [of _ "[]"]) simp
next
  case (local ks evs l t l')
  then obtain cls where "impl_run step event t0 cls evs t" "length cls \<le> length ks" by auto
  then show ?case by (intro exI [of _ cls]) simp
next
  case (accept ks evs l t k cost l' e seq t')
  then show ?case using run_queue_snoc [of step event t0 evs t ks] by simp
next
  case (refuse ks evs l t l' e k cost y t')
  then show ?case using run_queue_snoc [of step event t0 evs t ks] by simp
next
  case (other ks evs l t c t')
  then show ?case using run_queue_snoc [of step event t0 evs t ks] by simp
qed


lemma keyFor_free: "bar_free (keyFor j w)"
proof -
  have "CHR ''|'' \<notin> set (fmt_d i)" for i using notin_show_nat [of "CHR ''|''"] by (auto simp: fmt_d_def)
  then show ?thesis by (simp add: bar_free_def keyFor_def)
qed

inductive_cases accepted_stepE: "producer_step be w n l [(k, cost)] l'"

section \<open>No accepted task is lost\<close>

text \<open>
  What a queue owes its producers: an \<open>Enqueue\<close> answered with a sequence number is an enqueue of the
  specification, for this unit and of this cost. With the simulation of the lease queue it gives that an
  accepted task is finished or still there.
\<close>

locale fed_queue = lease_simulation step event abs inv limit
  for step :: "'t \<Rightarrow> 'l \<Rightarrow> 't \<Rightarrow> bool" and event :: "'t \<Rightarrow> 'l \<Rightarrow> event" and abs :: "'t \<Rightarrow> spec" and inv :: "nat \<Rightarrow> 't \<Rightarrow> bool" and limit :: nat +
  fixes be :: "('o, 's) Backend" and store :: "'t \<Rightarrow> 's" and enq :: "'o \<Rightarrow> WorkUnitKey \<Rightarrow> int \<Rightarrow> 'l"
  assumes feed: "bar_free k \<Longrightarrow> be_Enqueue be e k payload cost (store t) = (Ok seq, q) \<Longrightarrow>
    event t (enq e k cost) = EvEnqueue k \<lparr>Seq = seq, Payload = payload, Cost = cost\<rparr>"
begin

lemma accepted_entered:
  assumes "system_run be store step event enq w n (l0, t0) ks evs lt"
  shows "subseq (accepted k (concat ks)) (map Cost (concat (map (entered k) evs)))"
  using assms
proof (induction rule: system_run.induct)
  case (accept ks evs l t k' cost l' e seq t')
  obtain j where "k' = keyFor j (wl_Workspaces w)" using accept.hyps(2) by (rule accepted_stepE) simp_all
  with feed [OF _ accept.hyps(3)] keyFor_free
  have "event t (enq e k' cost) = EvEnqueue k' \<lparr>Seq = seq, Payload = payload, Cost = cost\<rparr>" by simp
  with accept.IH show ?case by (auto intro: list_emb_append_mono)
qed (simp_all add: subseq_rev_drop_many)

lemma nothing_accepted_is_lost:
  assumes "system_run be store step event enq w n (RunProducers (store t0) m, t0) ks evs (l, t)"
    and "inv 0 t0" and "length ks \<le> limit" and "\<And>k. s_queue (abs t0) k = []"
    and "0 \<le> m" and "m + int (length ks) < 2 ^ 63" and "int (length ks) + wl_WorkingSet w < 2 ^ 63" and "0 \<le> wl_WorkingSet w"
  shows "subseq (accepted k (concat ks)) (map Cost (concat (map (finished k) evs) @ s_queue (abs t) k)) \<and>
    ld_enqueued l \<le> m + int (length (concat ks)) \<and>
    ((\<forall>i < n. ld_pc l i = Stopped) \<longrightarrow> ld_enqueued l = m + int (length (concat ks)))"
proof -
  from system_run_queue [OF assms(1)] obtain cls where run: "impl_run step event t0 cls evs t" and len: "length cls \<le> length ks"
    by auto
  have fifo: "concat (map (entered k) evs) = concat (map (finished k) evs) @ s_queue (abs t) k"
    using run_fifo [OF run assms(2), of k] len assms(3,4) by simp
  have ok: "load_ok w n m (length ks) (concat ks) l"
    using load_ok_run [OF system_run_producers [OF assms(1)] refl assms(5-8)] by simp
  have "uncounted n l = {}" if "\<forall>i < n. ld_pc l i = Stopped" using that by (auto simp: uncounted_def)
  with ok have "ld_enqueued l \<le> m + int (length (concat ks)) \<and>
      ((\<forall>i < n. ld_pc l i = Stopped) \<longrightarrow> ld_enqueued l = m + int (length (concat ks)))"
    by (auto simp: load_ok_def)
  with accepted_entered [OF assms(1), of k] fifo show ?thesis by simp
qed

end

section \<open>The three backends\<close>

definition mem_enq :: "mem_env \<Rightarrow> WorkUnitKey \<Rightarrow> int \<Rightarrow> call" where
  "mem_enq e k cost = Enq (clock e) k payload cost"

definition pg_enq :: "pg_env \<Rightarrow> WorkUnitKey \<Rightarrow> int \<Rightarrow> pg_call" where
  "pg_enq e k cost = PEnq e k payload cost"

definition vk_enq :: "vk_env \<Rightarrow> WorkUnitKey \<Rightarrow> int \<Rightarrow> vk_call" where
  "vk_enq e k cost = VEnq e k payload cost"

interpretation mem_fed: fed_queue mem_step mem_event mem_abs mem_ok "2 ^ 63 - 1" memory_Backend id mem_enq
  by unfold_locales (auto simp: memory_Backend_def mem_enq_def)

interpretation pg_fed: fed_queue pg_step pg_event pg_abs "\<lambda>_. pg_ok" limit pg_Backend fst pg_enq for limit
proof
  fix k :: WorkUnitKey and e cost seq q and t :: "pg \<times> LeaseToken set"
  assume ok: "be_Enqueue pg_Backend e k payload cost (fst t) = (Ok seq, q)"
  obtain T wait s where get: "tenant_get e (Workspace k) (fst t) = ((T, wait), s)" by (metis surj_pair)
  with ok have d: "driver e (enqueue_stmt (pg_now e) T (go_div wait 1000000) k payload cost) s = (Ok seq, q)"
    by (simp add: pg_Backend_def pg_Enqueue_def)
  then have "fault e = None" by (simp add: driver_def split: option.splits)
  with driver_Ok [OF d] get
  show "pg_event t (pg_enq e k cost) = EvEnqueue k \<lparr>Seq = seq, Payload = payload, Cost = cost\<rparr>"
    by (simp add: pg_enq_def pg_event_def)
qed

interpretation vk_fed: fed_queue "vk_step x opts" "vk_event opts" vk_abs "\<lambda>_. vk_ok x" limit "vk_Backend opts" fst vk_enq for x opts limit
proof
  fix k :: WorkUnitKey and e cost seq q and t :: "vk \<times> LeaseToken set"
  assume k: "bar_free k" and "be_Enqueue (vk_Backend opts) e k payload cost (fst t) = (Ok seq, q)"
  then have "trip (vk_link e) (luaEnqueue (member k) payload cost (v_defT opts) (go_div (v_defWait opts) 1000000) (vk_ms e)) (fst t) = (Ok seq, q)"
    by (simp add: vk_Backend_def vk_Enqueue_def)
  then have "vk_link e = Up" "luaEnqueue (member k) payload cost (v_defT opts) (go_div (v_defWait opts) 1000000) (vk_ms e) (fst t) = (Ok seq, q)"
    by (cases "vk_link e"; simp add: trip_def split: prod.splits)+
  with splitMember_member [OF k]
  show "vk_event opts t (vk_enq e k cost) = EvEnqueue k \<lparr>Seq = seq, Payload = payload, Cost = cost\<rparr>"
    by (simp add: vk_enq_def vk_event_def)
qed


text \<open>
  The in-memory backend under load: every task whose \<open>Enqueue\<close> was answered with a sequence number has been
  acknowledged, is a dead letter or is still queued, in the order of acceptance for each unit.
\<close>

theorem memory_nothing_lost:
  assumes "system_run memory_Backend id mem_step mem_event mem_enq w n (RunProducers (mem_New opt) m, mem_New opt) ks evs (l, b)"
    and "0 \<le> m" and "m + int (length ks) < 2 ^ 63" and "int (length ks) + wl_WorkingSet w < 2 ^ 63" and "0 \<le> wl_WorkingSet w"
  shows "subseq (accepted k (concat ks)) (map Cost (concat (map (finished k) evs) @ mem_pending b k)) \<and>
    ((\<forall>i < n. ld_pc l i = Stopped) \<longrightarrow> ld_enqueued l = m + int (length (concat ks)))"
proof -
  have "s_queue (mem_abs (mem_New opt)) k = []" for k by (simp add: mem_New_def queue_of_def)
  moreover have "length ks \<le> 2 ^ 63 - 1" using assms(2,3) by simp
  ultimately show ?thesis
    using mem_fed.nothing_accepted_is_lost [OF _ mem_ok_New, of w n opt m ks evs l b k] assms by simp
qed

text \<open>The same of a Valkey primary, whatever replies get lost, leases get taken over and drains interleave.\<close>

theorem valkey_nothing_lost:
  assumes "system_run (vk_Backend opts) fst (vk_step False opts) (vk_event opts) vk_enq w n (RunProducers vk_empty m, (vk_empty, {})) ks evs (l, (s, U))"
    and "0 \<le> m" and "m + int (length ks) < 2 ^ 63" and "int (length ks) + wl_WorkingSet w < 2 ^ 63" and "0 \<le> wl_WorkingSet w"
  shows "subseq (accepted k (concat ks)) (map Cost (concat (map (finished k) evs) @ vk_pending s k)) \<and>
    ((\<forall>i < n. ld_pc l i = Stopped) \<longrightarrow> ld_enqueued l = m + int (length (concat ks)))"
proof -
  have "s_queue (vk_abs (vk_empty, {})) k = []" for k by (simp add: vk_abs_def vk_pending_def vk_empty_def)
  then show ?thesis
    using vk_fed.nothing_accepted_is_lost [OF _ vk_empty_ok order.refl, of opts False w n m ks evs l "(s, U)" k] assms by (simp add: vk_abs_def)
qed

end
