(* ===== verification/Config.thy ===== *)
theory Config
  imports Go_Lib Worker Memory Complex_Main
begin

text \<open>
  Package \<open>internal/config\<close> and the parts of \<open>cmd/plq\<close> that compute from it: the environment, the parsing
  helpers with their defaults, the assembled \<open>Config\<close>, the worker configuration, the shard addresses
  and the intervals and labels the command derives. The environment is a map of strings.
\<close>

section \<open>Durations\<close>

text \<open>
  \<open>time.ParseDuration\<close>. The contribution of the digits after a decimal point is computed in floating
  point by the library; it is the argument \<open>fracv\<close>, a function of these digits and the unit.
\<close>

definition is_num :: "char \<Rightarrow> bool" where
  "is_num c \<longleftrightarrow> 48 \<le> (of_char c :: nat) \<and> (of_char c :: nat) \<le> 57"

definition unit_ns :: "string \<Rightarrow> nat option" where
  "unit_ns u = map_of
    [(''ns'', 1), (''us'', 1000), ([CHR 0xC2, CHR 0xB5, CHR ''s''], 1000), ([CHR 0xCE, CHR 0xBC, CHR ''s''], 1000),
     (''ms'', 1000000), (''s'', 1000000000), (''m'', 60000000000), (''h'', 3600000000000)] u"

fun leadingInt :: "string \<Rightarrow> nat \<Rightarrow> (nat \<times> string) option" where
  "leadingInt [] x = Some (x, [])"
| "leadingInt (c # cs) x =
    (if \<not> is_num c then Some (x, c # cs)
     else if x > 2 ^ 63 div 10 then None
     else let x = 10 * x + (of_char c - 48) in if x > 2 ^ 63 then None else leadingInt cs x)"

lemma leadingInt_length: "leadingInt s x = Some (v, r) \<Longrightarrow> length r \<le> length s"
  by (induction s x rule: leadingInt.induct) (auto simp: Let_def split: if_splits)

function duration_loop :: "(string \<Rightarrow> nat \<Rightarrow> nat) \<Rightarrow> string \<Rightarrow> nat \<Rightarrow> nat option" where
  "duration_loop fracv s d =
    (if s = [] then Some d
     else case leadingInt s 0 of
        None \<Rightarrow> None
      | Some (v, r) \<Rightarrow>
          let pre = takeWhile is_num s \<noteq> [];
              dot = (r \<noteq> [] \<and> hd r = CHR ''.'');
              fs = (if dot then takeWhile is_num (tl r) else []);
              r = (if dot then dropWhile is_num (tl r) else r);
              u = takeWhile (\<lambda>c. \<not> (c = CHR ''.'' \<or> is_num c)) r;
              rest = dropWhile (\<lambda>c. \<not> (c = CHR ''.'' \<or> is_num c)) r
          in if \<not> pre \<and> fs = [] \<or> u = [] then None
             else case unit_ns u of
                None \<Rightarrow> None
              | Some n \<Rightarrow>
                  if v > 2 ^ 63 div n then None
                  else let v = v * n + (if fs = [] then 0 else fracv fs n); d = (d + v) mod 2 ^ 64
                       in if v > 2 ^ 63 \<or> d > 2 ^ 63 then None
                          else duration_loop fracv rest d)"
  by pat_completeness auto
termination
proof (relation "measure (\<lambda>(_, s, _). length s)", goal_cases)
  case (2 fracv s d x2 v r pre dot fs r' u rest x2a v' d')
  have "length r \<le> length s" using 2(2,3) leadingInt_length by (metis prod.exhaust_sel prod.inject)
  moreover have "length r' \<le> length r"
    using 2(5,7) length_dropWhile_le [of is_num "tl r"] by (cases r) auto
  moreover have "length rest < length r'"
    using 2(8-10) by (metis append_eq_append_conv2 length_append length_greater_0_conv less_add_same_cancel2 takeWhile_dropWhile_id)
  ultimately show ?case by simp
qed simp

declare duration_loop.simps [simp del]

definition ParseDuration :: "(string \<Rightarrow> nat \<Rightarrow> nat) \<Rightarrow> string \<Rightarrow> duration option" where
  "ParseDuration fracv s =
    (let neg = (s \<noteq> [] \<and> hd s = CHR ''-'');
         s = (if s \<noteq> [] \<and> (hd s = CHR ''-'' \<or> hd s = CHR ''+'') then tl s else s)
     in if s = ''0'' then Some 0
        else if s = [] then None
        else case duration_loop fracv s 0 of
            None \<Rightarrow> None
          | Some d \<Rightarrow> if neg then Some (- int d) else if int d > 2 ^ 63 - 1 then None else Some (int d))"

section \<open>Reading the environment\<close>

type_synonym environ = "string \<rightharpoonup> string"

definition parsed :: "(string \<Rightarrow> 'a option) \<Rightarrow> environ \<Rightarrow> string \<Rightarrow> 'a \<Rightarrow> 'a" where
  "parsed f e k def = (case e k of None \<Rightarrow> def | Some v \<Rightarrow> (case f v of None \<Rightarrow> def | Some x \<Rightarrow> x))"

definition env :: "environ \<Rightarrow> string \<Rightarrow> string \<Rightarrow> string" where
  "env e k def = (case e k of None \<Rightarrow> def | Some v \<Rightarrow> v)"

definition atoi :: "environ \<Rightarrow> string \<Rightarrow> int \<Rightarrow> int" where
  "atoi = parsed ParseInt"

definition atoi64 :: "environ \<Rightarrow> string \<Rightarrow> int \<Rightarrow> int" where
  "atoi64 = parsed ParseInt"

definition dur :: "(string \<Rightarrow> nat \<Rightarrow> nat) \<Rightarrow> environ \<Rightarrow> string \<Rightarrow> duration \<Rightarrow> duration" where
  "dur fracv = parsed (ParseDuration fracv)"

definition boolenv :: "environ \<Rightarrow> string \<Rightarrow> bool \<Rightarrow> bool" where
  "boolenv = parsed ParseBool"

text \<open>\<open>strconv.ParseFloat\<close> is the argument \<open>pf\<close>; floating-point values are read as real numbers.\<close>

definition atof :: "(string \<Rightarrow> real option) \<Rightarrow> environ \<Rightarrow> string \<Rightarrow> real \<Rightarrow> real" where
  "atof pf = parsed pf"

record Config =
  cf_Backend :: string
  cf_Workers :: int
  cf_Lease :: duration
  cf_Batch :: int
  cf_DefaultThreshold :: int
  cf_DefaultMaxWait :: duration
  cf_MaxAttempts :: int
  cf_PollMin :: duration
  cf_PollMax :: duration
  cf_Process :: ProcessModel
  cf_PostgresDSN :: string
  cf_PostgresParts :: int
  cf_ValkeyAddr :: string
  cf_LoadKeys :: int
  cf_LoadTasks :: int
  cf_LoadCost :: int
  cf_Seed :: int
  cf_Producers :: int
  cf_Duration :: duration
  cf_Warmup :: duration
  cf_WorkingSet :: int
  cf_ZipfS :: real
  cf_BirthRate :: real
  cf_CostLo :: int
  cf_CostHi :: int
  cf_ResultsDir :: string
  cf_Chaos :: bool
  cf_ChaosEvery :: duration
  cf_Reset :: bool

abbreviation second :: duration where "second \<equiv> 1000000000"
abbreviation millisecond :: duration where "millisecond \<equiv> 1000000"

definition Load :: "(string \<Rightarrow> nat \<Rightarrow> nat) \<Rightarrow> (string \<Rightarrow> real option) \<Rightarrow> environ \<Rightarrow> Config" where
  "Load fracv pf e =
    \<lparr> cf_Backend = env e ''PLQ_BACKEND'' ''memory'',
      cf_Workers = atoi e ''PLQ_WORKERS'' 10,
      cf_Lease = dur fracv e ''PLQ_LEASE'' (30 * second),
      cf_Batch = atoi e ''PLQ_BATCH'' 64,
      cf_DefaultThreshold = atoi64 e ''PLQ_THRESHOLD'' 1000,
      cf_DefaultMaxWait = dur fracv e ''PLQ_MAX_WAIT'' (5 * second),
      cf_MaxAttempts = atoi e ''PLQ_MAX_ATTEMPTS'' 3,
      cf_PollMin = dur fracv e ''PLQ_POLL_MIN'' millisecond,
      cf_PollMax = dur fracv e ''PLQ_POLL_MAX'' second,
      cf_Process = \<lparr> Kind = env e ''PLQ_PROCESS'' ''zero'', Base = dur fracv e ''PLQ_PROCESS_BASE'' 0,
        PerCost = dur fracv e ''PLQ_PROCESS_PERCOST'' 0 \<rparr>,
      cf_PostgresDSN = env e ''PLQ_POSTGRES_DSN'' '''',
      cf_PostgresParts = atoi e ''PLQ_POSTGRES_PARTS'' 2,
      cf_ValkeyAddr = env e ''PLQ_VALKEY_ADDR'' '''',
      cf_LoadKeys = atoi e ''PLQ_LOAD_KEYS'' 100,
      cf_LoadTasks = atoi e ''PLQ_LOAD_TASKS'' 10000,
      cf_LoadCost = atoi64 e ''PLQ_LOAD_COST'' 100,
      cf_Seed = atoi64 e ''PLQ_SEED'' 1,
      cf_Producers = atoi e ''PLQ_PRODUCERS'' 8,
      cf_Duration = dur fracv e ''PLQ_DURATION'' (30 * second),
      cf_Warmup = dur fracv e ''PLQ_WARMUP'' (5 * second),
      cf_WorkingSet = atoi e ''PLQ_WORKING_SET'' 1000,
      cf_ZipfS = atof pf e ''PLQ_ZIPF_S'' 1.2,
      cf_BirthRate = atof pf e ''PLQ_BIRTH_RATE'' 0.02,
      cf_CostLo = atoi64 e ''PLQ_COST_LO'' 10,
      cf_CostHi = atoi64 e ''PLQ_COST_HI'' 50,
      cf_ResultsDir = env e ''PLQ_RESULTS'' ''./results'',
      cf_Chaos = boolenv e ''PLQ_CHAOS'' False,
      cf_ChaosEvery = dur fracv e ''PLQ_CHAOS_EVERY'' (5 * second),
      cf_Reset = boolenv e ''PLQ_RESET'' True \<rparr>"

definition to_WorkerConfig :: "Config \<Rightarrow> WorkerConfig" where
  "to_WorkerConfig c =
    \<lparr> cfg_Lease = cf_Lease c, Batch = cf_Batch c, Backoff = \<lparr>Min = cf_PollMin c, Max = cf_PollMax c\<rparr>,
      Process = cf_Process c \<rparr>"

section \<open>What the command derives\<close>

text \<open>The address lists both networked drivers are given, one entry per primary.\<close>

fun addr_loop :: "string list \<Rightarrow> string list \<Rightarrow> string list" where
  "addr_loop [] addrs = addrs"
| "addr_loop (a # as) addrs =
    (let a = TrimSpace a in addr_loop as (if a \<noteq> '''' then addrs @ [a] else addrs))"

definition newBackend_addrs :: "string \<Rightarrow> string list" where
  "newBackend_addrs s = addr_loop (Split (CHR '','') s) []"

fun count_loop :: "string list \<Rightarrow> int \<Rightarrow> int" where
  "count_loop [] n = n"
| "count_loop (a # as) n = count_loop as (if TrimSpace a \<noteq> '''' then n + 1 else n)"

definition countAddrs :: "string \<Rightarrow> int" where
  "countAddrs s = count_loop (Split (CHR '','') s) 0"

definition shardCount :: "Config \<Rightarrow> int" where
  "shardCount c =
    (let n = countAddrs (cf_ValkeyAddr c) + countAddrs (cf_PostgresDSN c) in if n = 0 then 1 else n)"

definition newBackend_memory :: "Config \<Rightarrow> memory" where
  "newBackend_memory c = mem_New \<lparr> DefaultThreshold = cf_DefaultThreshold c,
     DefaultMaxWait = cf_DefaultMaxWait c, MaxAttempts = cf_MaxAttempts c \<rparr>"

definition processLabel :: "ProcessModel \<Rightarrow> string" where
  "processLabel p =
    (if Kind p = ''zero'' \<or> Kind p = '''' then ''zero'' else fmt_d (go_div (Base p) millisecond) @ ''ms'')"

definition reapInterval :: "Config \<Rightarrow> duration" where
  "reapInterval c = (let d = go_div (cf_Lease c) 3 in if d > 0 then d else second)"

section \<open>Parsing what was printed\<close>

lemma is_num_digit: "d < 10 \<Longrightarrow> is_num (digit d) \<and> of_char (digit d) - 48 = d"
  by (drule less10_cases) (auto simp: is_num_def digit_def)

lemma show_nat_is_num: "c \<in> set (show_nat n) \<Longrightarrow> is_num c"
proof -
  assume "c \<in> set (show_nat n)"
  then have "c \<in> set ''0123456789''" using set_show_nat by blast
  then show ?thesis by (auto simp: is_num_def)
qed

lemma leadingInt_append:
  "list_all is_num xs \<Longrightarrow> leadingInt (xs @ ys) x =
    (case leadingInt xs x of None \<Rightarrow> None | Some (v, _) \<Rightarrow> leadingInt ys v)"
  by (induction xs arbitrary: x) (auto simp: Let_def)

lemma leadingInt_show: "n \<le> 2 ^ 63 \<Longrightarrow> leadingInt (show_nat n) 0 = Some (n, [])"
proof (induction n rule: show_nat.induct)
  case (1 n)
  show ?case
  proof (cases "n < 10")
    case True
    then show ?thesis using is_num_digit [OF True] by (simp add: show_nat.simps [of n])
  next
    case False
    have "leadingInt (show_nat (n div 10)) 0 = Some (n div 10, [])" using 1 False by simp
    moreover have "list_all is_num (show_nat (n div 10))" using show_nat_is_num by (auto simp: list_all_iff)
    moreover have "n div 10 \<le> 2 ^ 63 div 10" using 1(2) by (rule div_le_mono)
    ultimately show ?thesis
      using False 1(2) is_num_digit [of "n mod 10"]
      by (simp add: show_nat.simps [of n] leadingInt_append Let_def)
  qed
qed

lemma takeWhile_num: "takeWhile is_num (show_nat n @ CHR ''n'' # s) = show_nat n"
proof -
  have "\<not> is_num (CHR ''n'')" by (simp add: is_num_def)
  then show ?thesis using show_nat_is_num by (subst takeWhile_append2) auto
qed

lemma ParseDuration_ns:
  assumes "n < 2 ^ 63"
  shows "ParseDuration fracv (show_nat n @ ''ns'') = Some (int n)"
proof -
  let ?s = "show_nat n @ ''ns''"
  have l: "leadingInt ?s 0 = Some (n, ''ns'')"
    using leadingInt_append [of "show_nat n" "''ns''" 0] leadingInt_show [of n] show_nat_is_num assms
    by (simp add: list_all_iff is_num_def)
  have "takeWhile is_num ?s \<noteq> []" using takeWhile_num [of n "''s''"] by simp
  with l assms have "duration_loop fracv ?s 0 = Some n"
    by (subst duration_loop.simps) (simp add: is_num_def unit_ns_def Let_def duration_loop.simps [of _ "[]"])
  moreover have "hd ?s \<noteq> CHR ''-''" "hd ?s \<noteq> CHR ''+''" using show_nat_hd [of _ n] by simp_all
  moreover have "?s \<noteq> ''0''" by (metis append_eq_Cons_conv append_is_Nil_conv list.distinct(1) not_Cons_self2 show_nat_nonempty(1))
  ultimately show ?thesis using assms by (simp add: ParseDuration_def Let_def)
qed

lemma addr_loop_eq: "addr_loop as acc = acc @ filter (\<lambda>a. a \<noteq> '''') (map TrimSpace as)"
  by (induction as arbitrary: acc) (simp_all add: Let_def)

lemma count_loop_eq: "count_loop as n = n + int (length (filter (\<lambda>a. a \<noteq> '''') (map TrimSpace as)))"
  by (induction as arbitrary: n) simp_all

lemma countAddrs_eq: "countAddrs s = int (length (newBackend_addrs s))"
  by (simp add: countAddrs_def newBackend_addrs_def addr_loop_eq count_loop_eq)

lemmas load_defs = Load_def env_def atoi_def atoi64_def dur_def boolenv_def atof_def parsed_def

section \<open>What the configuration guarantees\<close>



text \<open>
  The shard count reported with every result is the number of primaries the drivers are given:
  the lengths of the address lists that \<open>newBackend\<close> hands to the Valkey and the Postgres driver, or 1 when
  both are empty; an entry of white space only counts for neither.
\<close>

theorem shard_count_matches:
  "shardCount c = max 1 (int (length (newBackend_addrs (cf_ValkeyAddr c)) + length (newBackend_addrs (cf_PostgresDSN c)))) \<and>
    '''' \<notin> set (newBackend_addrs s) \<and> newBackend_addrs '''' = []"
proof -
  have "max 1 (int n) = (if n = 0 then 1 else int n)" for n by auto
  then have "shardCount c = max 1 (int (length (newBackend_addrs (cf_ValkeyAddr c)) + length (newBackend_addrs (cf_PostgresDSN c))))"
    by (simp add: shardCount_def countAddrs_eq Let_def)
  then show ?thesis by (simp add: newBackend_addrs_def addr_loop_eq TrimSpace_def)
qed

text \<open>Two primaries behind a list with blanks and a trailing comma.\<close>

lemma newBackend_addrs_example: "newBackend_addrs ''a:1, b:2,'' = [''a:1'', ''b:2'']"
  by code_simp

end
