(* ===== verification/Harness.thy ===== *)
theory Harness
  imports Loadgen Go_Lib
begin

text \<open>
  \<open>internal/loadgen/harness.go\<close>: one sweep point. The specification of a run, the reaper and the sampler that
  run beside producers and workers, the result, and the two CSV formats. What a reading of the counters,
  of the queue depth or of the clock returns is an argument; floating-point values are read as real numbers.
\<close>

section \<open>Formatting\<close>

text \<open>The verbs \<open>%t\<close> and \<open>%.pf\<close>: rounding to the nearest, ties to even, and \<open>p\<close> digits after the point.\<close>

definition fmt_t :: "bool \<Rightarrow> string" where
  "fmt_t b = (if b then ''true'' else ''false'')"

definition round_even :: "real \<Rightarrow> int" where
  "round_even x =
    (let n = \<lfloor>x\<rfloor>; r = x - of_int n
     in if r < 1 / 2 then n else if r > 1 / 2 then n + 1 else if even n then n else n + 1)"

definition pad0 :: "nat \<Rightarrow> string \<Rightarrow> string" where
  "pad0 p s = replicate (p - length s) (CHR ''0'') @ s"

definition fmt_f :: "nat \<Rightarrow> real \<Rightarrow> string" where
  "fmt_f p x =
    (let k = nat (round_even (\<bar>x\<bar> * 10 ^ p))
     in (if x < 0 then ''-'' else '''') @ show_nat (k div 10 ^ p) @
        (if p = 0 then '''' else ''.'' @ pad0 p (show_nat (k mod 10 ^ p))))"

definition millis :: "duration \<Rightarrow> real" where
  "millis d = real_of_int d / 1000000"

definition Seconds :: "duration \<Rightarrow> real" where
  "Seconds d = real_of_int d / 1000000000"

section \<open>Specification and result\<close>

text \<open>\<open>SampleCSV\<close> is a writer or nil: whether it is there.\<close>

record RunSpec =
  rs_Workers :: int
  rs_Producers :: int
  rs_Process :: ProcessModel
  rs_Label :: string
  rs_Workload :: Workload
  rs_Lease :: duration
  rs_Batch :: int
  rs_Duration :: duration
  rs_Warmup :: duration
  rs_Chaos :: bool
  rs_KillEvery :: duration
  rs_SampleCSV :: bool

record Result =
  res_Backend :: string
  res_Shards :: int
  res_Workers :: int
  res_Process :: string
  res_Throughput :: real
  res_ClaimP99 :: duration
  res_LoopP99 :: duration
  res_LoopSamps :: int
  res_MinBacklog :: int
  res_MaxBacklog :: int
  res_Saturated :: bool
  res_Enqueued :: int
  res_Acked :: int
  res_LeaseExp :: int

section \<open>The workers and the reaper of a run\<close>

definition run_WorkerConfig :: "RunSpec \<Rightarrow> WorkerConfig" where
  "run_WorkerConfig spec =
    \<lparr> cfg_Lease = rs_Lease spec, Batch = rs_Batch spec, Backoff = \<lparr>Min = 1000000, Max = 100 * 1000000\<rparr>,
      Process = rs_Process spec \<rparr>"

text \<open>The names the workers of a run claim under, and how long each lives when it is to be crashed.\<close>

definition run_workers :: "RunSpec \<Rightarrow> (WorkerID result \<times> duration option) list" where
  "run_workers spec =
    (if rs_Chaos spec then map (\<lambda>(w, d). (w, Some d)) (RunChaosWorkers (rs_Workers spec) (rs_KillEvery spec))
     else map (\<lambda>w. (Ok w, None)) (pool_ids (rs_Workers spec)))"

text \<open>\<open>reaperLoop\<close>: what the ticks of the run report of reclaimed leases; a failing reap adds nothing.\<close>

fun reaperLoop :: "('o, 's) Backend \<Rightarrow> (('o, 's) turn \<times> time) list \<Rightarrow> Metrics \<times> 's \<Rightarrow> Metrics \<times> 's" where
  "reaperLoop be [] (m, s) = (m, s)"
| "reaperLoop be ((t, now) # ticks) (m, s) =
    (case be_ReapExpired be (reads t) now (interfere t s) of
      (Ok (r, _), s) \<Rightarrow> reaperLoop be ticks (m\<lparr>mt_LeaseExpired := i64 (mt_LeaseExpired m + r)\<rparr>, s)
    | (_, s) \<Rightarrow> reaperLoop be ticks (m, s))"

definition reaper_interval :: "duration \<Rightarrow> duration" where
  "reaper_interval d = (let iv = go_div d 3 in if iv < 100000000 then 100000000 else iv)"

section \<open>The sampler\<close>

text \<open>
  One tick of the sampling loop: the time since the start, the acknowledged tasks, the answer of \<open>Stats\<close>, the
  clock when the measurement starts, and the counters when the sample row is written.
\<close>

record tick =
  tk_elapsed :: duration
  tk_acked :: int
  tk_stats :: "Stats result"
  tk_now :: time
  tk_metrics :: Metrics

definition backlog :: "bool \<Rightarrow> tick \<Rightarrow> int option" where
  "backlog hasStater t =
    (if hasStater then (case tk_stats t of Ok st \<Rightarrow> Some (EligibleUnits st) | _ \<Rightarrow> None) else None)"

record window =
  minB :: int
  maxB :: int
  measAcked :: int
  measStart :: time
  measured :: bool

definition window0 :: window where
  "window0 = \<lparr>minB = 2 ^ 63 - 1, maxB = -1, measAcked = 0, measStart = 0, measured = False\<rparr>"

definition on_tick :: "bool \<Rightarrow> duration \<Rightarrow> tick \<Rightarrow> window \<Rightarrow> window" where
  "on_tick hasStater warmup t w =
    (let w = (case backlog hasStater t of
                None \<Rightarrow> w
              | Some b \<Rightarrow>
                  if tk_elapsed t \<ge> warmup then
                    let w = (if b < minB w then w\<lparr>minB := b\<rparr> else w)
                    in if b > maxB w then w\<lparr>maxB := b\<rparr> else w
                  else w)
     in if \<not> measured w \<and> tk_elapsed t \<ge> warmup
        then w\<lparr>measured := True, measAcked := tk_acked t, measStart := tk_now t\<rparr> else w)"

text \<open>One line of the sample file.\<close>

definition sample_row :: "(int \<Rightarrow> int) \<Rightarrow> bool \<Rightarrow> tick \<Rightarrow> string" where
  "sample_row qn hasStater t =
    fmt_f 0 (Seconds (tk_elapsed t)) @ '','' @ fmt_d (tk_acked t) @ '','' @ fmt_d (mt_Enqueued (tk_metrics t)) @ '','' @
    fmt_d (case backlog hasStater t of Some b \<Rightarrow> b | None \<Rightarrow> -1) @ '','' @
    fmt_f 1 (millis (ClaimP99 qn (tk_metrics t))) @ '','' @ fmt_f 1 (millis (LoopP99 qn (tk_metrics t)))"

definition sample_header :: string where
  "sample_header = ''elapsed_s,acked,enqueued,eligible_backlog,claim_p99_ms,loop_p99_ms''"

text \<open>The loop, with the lines written so far; the list of ticks ends where the context is cancelled.\<close>

fun sample_loop :: "(int \<Rightarrow> int) \<Rightarrow> RunSpec \<Rightarrow> bool \<Rightarrow> tick list \<Rightarrow> window \<times> string list \<Rightarrow> window \<times> string list" where
  "sample_loop qn spec hasStater [] (w, out) = (w, out)"
| "sample_loop qn spec hasStater (t # ts) (w, out) =
    (let w = on_tick hasStater (rs_Warmup spec) t w;
         out = (if rs_SampleCSV spec then out @ [sample_row qn hasStater t] else out)
     in if tk_elapsed t \<ge> rs_Duration spec then (w, out) else sample_loop qn spec hasStater ts (w, out))"

definition finalize :: "(int \<Rightarrow> int) \<Rightarrow> Result \<Rightarrow> Metrics \<Rightarrow> window \<Rightarrow> time \<Rightarrow> bool \<Rightarrow> Result" where
  "finalize qn res m w now hasStater =
    (let res = res\<lparr>res_ClaimP99 := ClaimP99 qn m, res_LoopP99 := LoopP99 qn m, res_LoopSamps := LoopSamples m,
           res_Enqueued := mt_Enqueued m, res_Acked := mt_Acked m, res_LeaseExp := mt_LeaseExpired m\<rparr>;
         secs = Seconds (now - measStart w);
         res = (if measured w \<and> \<not> IsZero (measStart w) \<and> secs > 0
                then res\<lparr>res_Throughput := real_of_int (i64 (res_Acked res - measAcked w)) / secs\<rparr> else res)
     in if hasStater \<and> minB w \<noteq> 2 ^ 63 - 1
        then res\<lparr>res_MinBacklog := minB w, res_MaxBacklog := maxB w, res_Saturated := minB w > 0\<rparr>
        else res)"

text \<open>The result of a run, and the lines of its sample file; \<open>m\<close> and \<open>now\<close> are what \<open>finalize\<close> reads.\<close>

definition sample :: "(int \<Rightarrow> int) \<Rightarrow> RunSpec \<Rightarrow> bool \<Rightarrow> tick list \<Rightarrow> Metrics \<Rightarrow> time \<Rightarrow> Result \<times> string list" where
  "sample qn spec hasStater ticks m now =
    (let res = \<lparr>res_Backend = '''', res_Shards = 0, res_Workers = rs_Workers spec,
           res_Process = (if rs_Label spec = '''' then Kind (rs_Process spec) else rs_Label spec),
           res_Throughput = 0, res_ClaimP99 = 0, res_LoopP99 = 0, res_LoopSamps = 0, res_MinBacklog = -1,
           res_MaxBacklog = -1, res_Saturated = False, res_Enqueued = 0, res_Acked = 0, res_LeaseExp = 0\<rparr>;
         (w, out) = sample_loop qn spec hasStater ticks (window0, if rs_SampleCSV spec then [sample_header] else [])
     in (finalize qn res m w now hasStater, out))"

section \<open>The result file\<close>

definition SweepHeader :: string where
  "SweepHeader = ''backend,shards,workers,process,throughput_acks_s,claim_p99_ms,loop_p99_ms,loop_samples,'' @
    ''min_backlog,max_backlog,saturated,enqueued,acked,lease_expired''"

definition CSVRow :: "Result \<Rightarrow> string" where
  "CSVRow r =
    res_Backend r @ '','' @ fmt_d (res_Shards r) @ '','' @ fmt_d (res_Workers r) @ '','' @ res_Process r @ '','' @
    fmt_f 0 (res_Throughput r) @ '','' @ fmt_f 2 (millis (res_ClaimP99 r)) @ '','' @ fmt_f 2 (millis (res_LoopP99 r)) @ '','' @
    fmt_d (res_LoopSamps r) @ '','' @ fmt_d (res_MinBacklog r) @ '','' @ fmt_d (res_MaxBacklog r) @ '','' @
    fmt_t (res_Saturated r) @ '','' @ fmt_d (res_Enqueued r) @ '','' @ fmt_d (res_Acked r) @ '','' @ fmt_d (res_LeaseExp r)"

section \<open>The sampling window\<close>

text \<open>The ticks the loop has seen: up to and including the first at or past the end of the run.\<close>

fun seen :: "duration \<Rightarrow> tick list \<Rightarrow> tick list" where
  "seen runFor [] = []"
| "seen runFor (t # ts) = t # (if tk_elapsed t \<ge> runFor then [] else seen runFor ts)"

text \<open>The backlogs read after the warm-up.\<close>

definition backlogs :: "bool \<Rightarrow> duration \<Rightarrow> tick list \<Rightarrow> int list" where
  "backlogs st warmup ts = List.map_filter (\<lambda>t. if tk_elapsed t \<ge> warmup then backlog st t else None) ts"

lemma backlogs_simps [simp]:
  "backlogs st warmup [] = []"
  "backlogs st warmup (t # ts) =
    (case backlog st t of Some b \<Rightarrow> if tk_elapsed t \<ge> warmup then b # backlogs st warmup ts else backlogs st warmup ts
     | None \<Rightarrow> backlogs st warmup ts)"
  by (simp_all add: backlogs_def map_filter_simps split: option.split)

lemma backlogs_no_stater [simp]: "backlogs False warmup ts = []"
  by (induction ts) (simp_all add: backlog_def)

lemma sample_loop_fold:
  "sample_loop qn spec st ts (w, out) =
    (fold (on_tick st (rs_Warmup spec)) (seen (rs_Duration spec) ts) w,
     out @ (if rs_SampleCSV spec then map (sample_row qn st) (seen (rs_Duration spec) ts) else []))"
  by (induction ts arbitrary: w out) (simp_all add: Let_def)

lemma on_tick_bounds:
  "minB (on_tick st warmup t w) =
    (case backlog st t of Some b \<Rightarrow> if tk_elapsed t \<ge> warmup then min b (minB w) else minB w | None \<Rightarrow> minB w)"
  "maxB (on_tick st warmup t w) =
    (case backlog st t of Some b \<Rightarrow> if tk_elapsed t \<ge> warmup then max b (maxB w) else maxB w | None \<Rightarrow> maxB w)"
  by (auto simp: on_tick_def Let_def split: option.split)

lemma window_bounds:
  "minB (fold (on_tick st warmup) ts w) = fold min (backlogs st warmup ts) (minB w)"
  "maxB (fold (on_tick st warmup) ts w) = fold max (backlogs st warmup ts) (maxB w)"
  by (induction ts arbitrary: w) (auto simp: on_tick_bounds split: option.split)

lemma fold_min_eq: "fold min bs a = linorder_class.Min (insert a (set bs))" and fold_max_eq: "fold max bs a = linorder_class.Max (insert a (set bs))"
  for a :: int
  by (metis Min.set_eq_fold list.simps(15)) (metis Max.set_eq_fold list.simps(15))

text \<open>The measurement starts at the first tick past the warm-up.\<close>

definition meas_of :: "window \<Rightarrow> (int \<times> time) option" where
  "meas_of w = (if measured w then Some (measAcked w, measStart w) else None)"

lemma meas_of_tick:
  "meas_of (on_tick st warmup t w) =
    (case meas_of w of None \<Rightarrow> if tk_elapsed t \<ge> warmup then Some (tk_acked t, tk_now t) else None | m \<Rightarrow> m)"
  by (auto simp: on_tick_def meas_of_def Let_def split: option.split)

lemma meas_of_fold:
  "meas_of (fold (on_tick st warmup) ts w) =
    (case meas_of w of
      None \<Rightarrow> map_option (\<lambda>t. (tk_acked t, tk_now t)) (find (\<lambda>t. tk_elapsed t \<ge> warmup) ts)
    | m \<Rightarrow> m)"
  by (induction ts arbitrary: w) (auto simp: meas_of_tick split: option.split)

lemma finalize_backlog:
  "res_MinBacklog (finalize qn r m w now st) = (if st \<and> minB w \<noteq> 2 ^ 63 - 1 then minB w else res_MinBacklog r)"
  "res_MaxBacklog (finalize qn r m w now st) = (if st \<and> minB w \<noteq> 2 ^ 63 - 1 then maxB w else res_MaxBacklog r)"
  "res_Saturated (finalize qn r m w now st) = (if st \<and> minB w \<noteq> 2 ^ 63 - 1 then 0 < minB w else res_Saturated r)"
  by (simp_all add: finalize_def Let_def)

section \<open>What a run reports\<close>

text \<open>
  C17. What a run measures: with a \<open>Stater\<close>, the reported backlogs are the least and the greatest eligible
  backlog read after the warm-up, and the run counts as saturated exactly when some backlog was read and none
  of them was zero; without a reading the row says \<open>-1, -1\<close> and not saturated. The throughput is the number of
  tasks acknowledged since the first tick past the warm-up over the seconds since then, and 0 when no tick
  was past it. The sample file has its header and one line for each tick.
\<close>

theorem measurement_correct:
  assumes "ts = seen (rs_Duration spec) ticks" and "bs = backlogs hasStater (rs_Warmup spec) ts"
    and "\<forall>b \<in> set bs. 0 \<le> b \<and> b < 2 ^ 63 - 1"
    and "\<forall>t \<in> set ts. 0 \<le> tk_acked t \<and> tk_acked t \<le> mt_Acked m \<and> 0 < tk_now t" and "mt_Acked m < 2 ^ 63"
  shows "let (r, out) = sample qn spec hasStater ticks m now in
    (if bs \<noteq> []
     then res_MinBacklog r = linorder_class.Min (set bs) \<and> res_MaxBacklog r = linorder_class.Max (set bs) \<and> (res_Saturated r \<longleftrightarrow> 0 \<notin> set bs)
     else res_MinBacklog r = -1 \<and> res_MaxBacklog r = -1 \<and> \<not> res_Saturated r) \<and>
    res_Throughput r = (case find (\<lambda>t. tk_elapsed t \<ge> rs_Warmup spec) ts of
        Some t \<Rightarrow> if tk_now t < now then real_of_int (mt_Acked m - tk_acked t) / Seconds (now - tk_now t) else 0
      | None \<Rightarrow> 0) \<and>
    out = (if rs_SampleCSV spec then sample_header # map (sample_row qn hasStater) ts else [])"
proof -
  let ?w = "fold (on_tick hasStater (rs_Warmup spec)) ts window0"
  have w: "minB ?w = linorder_class.Min (insert (2 ^ 63 - 1) (set bs))" "maxB ?w = linorder_class.Max (insert (- 1) (set bs))"
    by (simp_all only: window_bounds fold_min_eq fold_max_eq assms(2) window0_def window.simps)
  have s: "hasStater" if "bs \<noteq> []" using that assms(2) by (cases hasStater) simp_all
  have b: "(if bs \<noteq> [] then minB ?w = linorder_class.Min (set bs) \<and> maxB ?w = linorder_class.Max (set bs) \<and> minB ?w \<noteq> 2 ^ 63 - 1 \<and>
      (0 < linorder_class.Min (set bs) \<longleftrightarrow> 0 \<notin> set bs) else minB ?w = 2 ^ 63 - 1)"
  proof (cases "bs = []")
    case False
    then have lt: "linorder_class.Min (set bs) < 2 ^ 63 - 1" "0 \<le> linorder_class.Max (set bs)"
      using assms(3) by (auto simp: Min_le_iff Max_ge_iff neq_Nil_conv)
    moreover have "0 < linorder_class.Min (set bs) \<longleftrightarrow> 0 \<notin> set bs" using False assms(3) by (auto simp: order_le_less)
    ultimately show ?thesis using False w by simp
  qed (use w in simp)
  have m: "meas_of ?w = map_option (\<lambda>t. (tk_acked t, tk_now t)) (find (\<lambda>t. tk_elapsed t \<ge> rs_Warmup spec) ts)"
    unfolding meas_of_fold by (simp add: meas_of_def window0_def)
  have th: "res_Throughput (finalize qn r m ?w now hasStater) = (case find (\<lambda>t. tk_elapsed t \<ge> rs_Warmup spec) ts of
        Some t \<Rightarrow> if tk_now t < now then real_of_int (mt_Acked m - tk_acked t) / Seconds (now - tk_now t) else 0
      | None \<Rightarrow> 0)" if "res_Throughput r = 0" for r
  proof (cases "find (\<lambda>t. tk_elapsed t \<ge> rs_Warmup spec) ts")
    case None
    with m that show ?thesis by (auto simp: finalize_def meas_of_def Let_def split: if_splits)
  next
    case (Some t)
    then have t: "t \<in> set ts" by (metis find_Some_iff nth_mem)
    then have "i64 (mt_Acked m - tk_acked t) = mt_Acked m - tk_acked t" "tk_now t \<noteq> 0"
      using assms(4,5) by (auto intro!: i64_id)
    with Some m that show ?thesis
      by (auto simp: finalize_def meas_of_def Let_def IsZero_def Seconds_def split: if_splits)
  qed
  have "sample_loop qn spec hasStater ticks (window0, out) =
      (?w, out @ (if rs_SampleCSV spec then map (sample_row qn hasStater) ts else []))" for out
    by (simp add: sample_loop_fold assms(1))
  with b s th show ?thesis by (cases "bs = []") (simp_all add: sample_def finalize_backlog del: Min_gr_iff)
qed


theorem measurement_correct_witness:
  "let st = (\<lambda>b. Ok \<lparr>TotalUnits = 9, EligibleUnits = b, PendingTasks = 0, DeadLetters = 0, OldestBelowT = 0\<rparr>);
       (r, out) = sample (\<lambda>n. 99 * n div 100)
      \<lparr>rs_Workers = 4, rs_Producers = 1, rs_Process = \<lparr>Kind = ''zero'', Base = 0, PerCost = 0\<rparr>, rs_Label = '''',
       rs_Workload = DefaultWorkload 1, rs_Lease = 30, rs_Batch = 1, rs_Duration = 9, rs_Warmup = 5, rs_Chaos = False,
       rs_KillEvery = 0, rs_SampleCSV = False\<rparr> True
      [\<lparr>tk_elapsed = 1, tk_acked = 3, tk_stats = st 0, tk_now = 1, tk_metrics = NewMetrics\<rparr>,
       \<lparr>tk_elapsed = 6, tk_acked = 9, tk_stats = st 4, tk_now = 6, tk_metrics = NewMetrics\<rparr>,
       \<lparr>tk_elapsed = 9, tk_acked = 20, tk_stats = st 2, tk_now = 9, tk_metrics = NewMetrics\<rparr>] (NewMetrics\<lparr>mt_Acked := 20\<rparr>) 10
   in res_MinBacklog r = 2 \<and> res_MaxBacklog r = 4 \<and> res_Saturated r \<and> res_Throughput r = 11 / Seconds 4"
proof -
  let ?st = "\<lambda>b. Ok \<lparr>TotalUnits = 9, EligibleUnits = b, PendingTasks = 0, DeadLetters = 0, OldestBelowT = 0\<rparr>"
  let ?spec = "\<lparr>rs_Workers = 4, rs_Producers = 1, rs_Process = \<lparr>Kind = ''zero'', Base = 0, PerCost = 0\<rparr>, rs_Label = '''',
       rs_Workload = DefaultWorkload 1, rs_Lease = 30, rs_Batch = 1, rs_Duration = 9, rs_Warmup = 5, rs_Chaos = False,
       rs_KillEvery = 0, rs_SampleCSV = False\<rparr>"
  let ?ts = "[\<lparr>tk_elapsed = 1, tk_acked = 3, tk_stats = ?st 0, tk_now = 1, tk_metrics = NewMetrics\<rparr>,
       \<lparr>tk_elapsed = 6, tk_acked = 9, tk_stats = ?st 4, tk_now = 6, tk_metrics = NewMetrics\<rparr>,
       \<lparr>tk_elapsed = 9, tk_acked = 20, tk_stats = ?st 2, tk_now = 9, tk_metrics = NewMetrics\<rparr>]"
  show ?thesis
    using measurement_correct [of ?ts ?spec ?ts "[4, 2]" True "NewMetrics\<lparr>mt_Acked := 20\<rparr>" "\<lambda>n. 99 * n div 100" 10]
    by (simp add: backlog_def Let_def case_prod_beta)
qed

section \<open>Reading a result row\<close>

lemma Split_free: "c \<notin> set x \<Longrightarrow> Split c x = [x]"
  by (induction x) auto

lemma Split_Cons: "c \<notin> set x \<Longrightarrow> Split c (x @ c # y) = x # Split c y"
  by (induction x) auto

lemma numeral_chars:
  assumes "c \<notin> set ''0123456789''" and "c \<noteq> CHR ''-''"
  shows "c \<notin> set (fmt_d i)" and "c \<noteq> CHR ''.'' \<Longrightarrow> c \<notin> set (fmt_f p x)"
proof -
  have s: "c \<notin> set (show_nat n)" for n using assms(1) by (rule notin_show_nat)
  show "c \<notin> set (fmt_d i)" using assms s by (simp add: fmt_d_def)
  have "c \<notin> set (pad0 n (show_nat m))" for n m using assms(1) s by (auto simp: pad0_def)
  then show "c \<noteq> CHR ''.'' \<Longrightarrow> c \<notin> set (fmt_f p x)" using assms s by (simp add: fmt_f_def Let_def)
qed

lemma no_comma [simp]: "CHR '','' \<notin> set (fmt_d i)" "CHR '','' \<notin> set (fmt_f p x)" "CHR '','' \<notin> set (fmt_t b)"
  by (auto simp: numeral_chars fmt_t_def)

lemma no_newline [simp]: "CHR 0x0A \<notin> set (fmt_d i)" "CHR 0x0A \<notin> set (fmt_f p x)" "CHR 0x0A \<notin> set (fmt_t b)"
  by (auto simp: numeral_chars fmt_t_def)

definition row_ok :: "Result \<Rightarrow> bool" where
  "row_ok r \<longleftrightarrow> list_all (\<lambda>s. CHR '','' \<notin> set s \<and> CHR 0x0A \<notin> set s) [res_Backend r, res_Process r]"

lemma CSVRow_columns:
  assumes "row_ok r"
  shows "Split (CHR '','') (CSVRow r) =
    [res_Backend r, fmt_d (res_Shards r), fmt_d (res_Workers r), res_Process r, fmt_f 0 (res_Throughput r),
     fmt_f 2 (millis (res_ClaimP99 r)), fmt_f 2 (millis (res_LoopP99 r)), fmt_d (res_LoopSamps r),
     fmt_d (res_MinBacklog r), fmt_d (res_MaxBacklog r), fmt_t (res_Saturated r), fmt_d (res_Enqueued r),
     fmt_d (res_Acked r), fmt_d (res_LeaseExp r)]"
  using assms by (simp add: CSVRow_def row_ok_def Split_Cons Split_free)

lemma SweepHeader_columns:
  "Split (CHR '','') SweepHeader =
    [''backend'', ''shards'', ''workers'', ''process'', ''throughput_acks_s'', ''claim_p99_ms'', ''loop_p99_ms'',
     ''loop_samples'', ''min_backlog'', ''max_backlog'', ''saturated'', ''enqueued'', ''acked'', ''lease_expired'']"
  by code_simp

lemma CSV_newline: "CHR 0x0A \<notin> set SweepHeader" "row_ok r \<Longrightarrow> CHR 0x0A \<notin> set (CSVRow r)"
  by (simp add: SweepHeader_def) (simp add: CSVRow_def row_ok_def)

text \<open>A column of a row, looked up under its name in the header as a reader of the file does.\<close>

definition column :: "string \<Rightarrow> string \<Rightarrow> string \<Rightarrow> string option" where
  "column header row name = map_of (zip (Split (CHR '','') header) (Split (CHR '','') row)) name"

lemma column_values:
  assumes "row_ok r"
  shows "column SweepHeader (CSVRow r) ''backend'' = Some (res_Backend r)"
    "column SweepHeader (CSVRow r) ''shards'' = Some (fmt_d (res_Shards r))"
    "column SweepHeader (CSVRow r) ''workers'' = Some (fmt_d (res_Workers r))"
    "column SweepHeader (CSVRow r) ''process'' = Some (res_Process r)"
    "column SweepHeader (CSVRow r) ''loop_samples'' = Some (fmt_d (res_LoopSamps r))"
    "column SweepHeader (CSVRow r) ''min_backlog'' = Some (fmt_d (res_MinBacklog r))"
    "column SweepHeader (CSVRow r) ''max_backlog'' = Some (fmt_d (res_MaxBacklog r))"
    "column SweepHeader (CSVRow r) ''saturated'' = Some (fmt_t (res_Saturated r))"
    "column SweepHeader (CSVRow r) ''enqueued'' = Some (fmt_d (res_Enqueued r))"
    "column SweepHeader (CSVRow r) ''acked'' = Some (fmt_d (res_Acked r))"
    "column SweepHeader (CSVRow r) ''lease_expired'' = Some (fmt_d (res_LeaseExp r))"
  by (simp_all add: column_def CSVRow_columns [OF assms] SweepHeader_columns)

text \<open>
  The rounding of the decimal verb: the integer that \<open>fmt_f\<close> prints is within one half of the scaled number.
\<close>

lemma round_even_near: "\<bar>of_int (round_even x) - x\<bar> \<le> 1 / 2"
  unfolding round_even_def Let_def by (auto simp: abs_le_iff)

end
