(* ===== verification/Plq.thy ===== *)
theory Plq
  imports Config Harness Postgres Valkey
begin

text \<open>
  Command \<open>cmd/plq\<close>: the subcommands, the backends they open, the loggers and the reaper of a worker box, and
  the load run with its result files. Files are a map from directory and name to contents; which system
  calls fail, what ticks and counters a run reads and what its goroutines do to the queue are arguments.
\<close>

section \<open>Opening the backend\<close>

text \<open>Which of the three a binary has is chosen by a build tag.\<close>

definition newBackend_postgres :: "(string \<Rightarrow> pg result) \<Rightarrow> (string \<Rightarrow> pg \<Rightarrow> unit result \<times> pg) \<Rightarrow> string \<Rightarrow> Config \<Rightarrow> pg cluster result" where
  "newBackend_postgres connect exec sql c =
    pg_New connect exec sql (newBackend_addrs (cf_PostgresDSN c)) (cf_DefaultThreshold c) (cf_DefaultMaxWait c) (cf_MaxAttempts c)"

definition newBackend_valkey :: "(string \<Rightarrow> vk result) \<Rightarrow> Config \<Rightarrow> valkey result" where
  "newBackend_valkey connect c =
    valkey_New connect (newBackend_addrs (cf_ValkeyAddr c)) (cf_DefaultThreshold c) (cf_DefaultMaxWait c) (cf_MaxAttempts c)"

section \<open>Subcommands\<close>

datatype command = Work | Produce | Measure | Reap | Wipe

definition subcommand :: "string \<Rightarrow> command option" where
  "subcommand s =
    (if s = ''worker'' then Some Work
     else if s = ''loadgen'' then Some Produce
     else if s = ''loadrun'' then Some Measure
     else if s = ''reap'' then Some Reap
     else if s = ''reset'' then Some Wipe
     else None)"

text \<open>How the process ends; \<open>log.Fatalf\<close> exits with status 1, and the message's prefix tells where.\<close>

datatype outcome = Returns | Exits int | Fatal string

text \<open>
  \<open>main\<close>: the argument count is checked before the backend is opened and the name of the subcommand after.
  \<open>run\<close> is the subcommand's function, \<open>resetter\<close> the backend's \<open>Reset\<close> when it has one. The queue is \<open>None\<close> when it
  was never opened.
\<close>

definition wipe :: "('s \<Rightarrow> unit result \<times> 's) option \<Rightarrow> 's \<Rightarrow> outcome \<times> 's" where
  "wipe resetter s =
    (case resetter of
      None \<Rightarrow> (Returns, s)
    | Some r \<Rightarrow> (case r s of (Ok _, s) \<Rightarrow> (Returns, s) | (_, s) \<Rightarrow> (Fatal ''reset: '', s)))"

definition plq_main :: "(environ \<Rightarrow> Config) \<Rightarrow> (Config \<Rightarrow> 's result) \<Rightarrow> ('s \<Rightarrow> unit result \<times> 's) option
    \<Rightarrow> (command \<Rightarrow> Config \<Rightarrow> 's \<Rightarrow> outcome \<times> 's) \<Rightarrow> string list \<Rightarrow> environ \<Rightarrow> outcome \<times> 's option" where
  "plq_main load newBackend resetter run args e =
    (case args of
      prog # sub # rest \<Rightarrow>
        let cfg = load e
        in (case newBackend cfg of
             Ok s \<Rightarrow>
               (case subcommand sub of
                 None \<Rightarrow> (Exits 2, Some s)
               | Some Wipe \<Rightarrow> (case wipe resetter s of (out, s) \<Rightarrow> (out, Some s))
               | Some c \<Rightarrow> (case run c cfg s of (out, s) \<Rightarrow> (out, Some s)))
           | _ \<Rightarrow> (Fatal ''backend: '', None))
    | _ \<Rightarrow> (Exits 2, None))"

definition workload :: "Config \<Rightarrow> Workload" where
  "workload c =
    \<lparr> wl_Seed = cf_Seed c, wl_WorkingSet = cf_WorkingSet c, wl_ZipfS = cf_ZipfS c, wl_BirthRate = cf_BirthRate c,
      wl_Cost = \<lparr>cd_Kind = ''uniform'', Lo = cf_CostLo c, Hi = cf_CostHi c\<rparr>, wl_Workspaces = 8 \<rparr>"

text \<open>The pool of a worker box: who claims, and with which configuration.\<close>

definition runWorker_pool :: "Config \<Rightarrow> (WorkerID \<times> WorkerConfig) list" where
  "runWorker_pool c = map (\<lambda>w. (w, to_WorkerConfig c)) (pool_ids (cf_Workers c))"

section \<open>The loggers\<close>

text \<open>\<open>everySecond\<close>: \<open>fn\<close> runs once a tick, on a variable it closes over, until the context is cancelled.\<close>

fun everySecond :: "('t \<Rightarrow> 'v \<Rightarrow> 'l \<times> 'v) \<Rightarrow> 't list \<Rightarrow> 'v \<Rightarrow> 'l list" where
  "everySecond fn [] prev = []"
| "everySecond fn (t # ts) prev = (case fn t prev of (l, prev) \<Rightarrow> l # everySecond fn ts prev)"

text \<open>
  The line of a worker box: acknowledgements in this second and in all, backlog, and p99 of the loop. Of a
  tick the logger reads \<open>tk_acked\<close>, \<open>tk_stats\<close> and \<open>tk_metrics\<close>. The line of a producer box has the first two.
\<close>

definition worker_second :: "(int \<Rightarrow> int) \<Rightarrow> bool \<Rightarrow> tick \<Rightarrow> int \<Rightarrow> (int \<times> int \<times> int \<times> duration) \<times> int" where
  "worker_second qn hasStater t prev =
    (let a = tk_acked t;
         b = (case backlog hasStater t of Some b \<Rightarrow> b | None \<Rightarrow> -1)
     in ((i64 (a - prev), a, b, LoopP99 qn (tk_metrics t)), a))"

definition loadgen_second :: "int \<Rightarrow> int \<Rightarrow> (int \<times> int) \<times> int" where
  "loadgen_second n prev = ((i64 (n - prev), n), n)"

section \<open>The reaper\<close>

text \<open>
  A tick of \<open>reapLoopM\<close>: its schedule and time, whether the context is cancelled when an error comes back, and
  the count that comes with the error. An error is logged, unless the context is cancelled.
\<close>

record ('o, 's) reap_tick =
  rp_turn :: "('o, 's) turn"
  rp_now :: time
  rp_cancelled :: bool
  rp_partial :: int

fun reapLoopM :: "('o, 's) Backend \<Rightarrow> ('o, 's) reap_tick list \<Rightarrow> qerror list \<times> Metrics \<times> 's \<Rightarrow> qerror list \<times> Metrics \<times> 's" where
  "reapLoopM be [] (errs, m, s) = (errs, m, s)"
| "reapLoopM be (t # ticks) (errs, m, s) =
    (case be_ReapExpired be (reads (rp_turn t)) (rp_now t) (interfere (rp_turn t) s) of
      (Ok (r, _), s) \<Rightarrow> reapLoopM be ticks (errs, m\<lparr>mt_LeaseExpired := i64 (mt_LeaseExpired m + r)\<rparr>, s)
    | (Err x, s) \<Rightarrow>
        if \<not> rp_cancelled t then reapLoopM be ticks (errs @ [x], m, s)
        else reapLoopM be ticks (errs, m\<lparr>mt_LeaseExpired := i64 (mt_LeaseExpired m + rp_partial t)\<rparr>, s)
    | (Panic, s) \<Rightarrow> (errs, m, s))"

definition runReaper :: "('o, 's) Backend \<Rightarrow> ('o, 's) reap_tick list \<Rightarrow> 's \<Rightarrow> qerror list \<times> Metrics \<times> 's" where
  "runReaper be ticks s = reapLoopM be ticks ([], NewMetrics, s)"

section \<open>The load run\<close>

type_synonym files = "string \<times> string \<rightharpoonup> string"

text \<open>\<open>fmt.Fprintln\<close> on a file: the line and a line feed at its end.\<close>

definition Fprintln :: "string \<Rightarrow> string \<Rightarrow> string" where
  "Fprintln line text = text @ line @ [CHR 0x0A]"

definition sweep_csv :: string where
  "sweep_csv = ''sweep.csv''"

definition appendSweepRow :: "bool \<Rightarrow> string \<Rightarrow> Result \<Rightarrow> files \<Rightarrow> outcome \<times> files" where
  "appendSweepRow openFails dir res fs =
    (let path = (dir, sweep_csv); missing = (fs path = None)
     in if openFails then (Fatal ''sweep.csv: '', fs)
        else
          let text = (case fs path of None \<Rightarrow> '''' | Some t \<Rightarrow> t);
              text = (if missing then Fprintln SweepHeader text else text);
              text = Fprintln (CSVRow res) text
          in (Returns, fs(path \<mapsto> text)))"

text \<open>What a load run meets: failing system calls, the backend's capabilities, and what the run reads and does.\<close>

record 's run_env =
  mkdirFails :: bool
  createFails :: bool
  openFails :: bool
  resetter :: "('s \<Rightarrow> unit result \<times> 's) option"
  hasStater :: bool
  run_ticks :: "tick list"
  run_metrics :: Metrics
  run_now :: time
  run_effect :: "RunSpec \<Rightarrow> 's \<Rightarrow> 's"

definition loadrun_spec :: "Config \<Rightarrow> RunSpec" where
  "loadrun_spec c =
    \<lparr> rs_Workers = cf_Workers c, rs_Producers = cf_Producers c, rs_Process = cf_Process c,
      rs_Label = processLabel (cf_Process c), rs_Workload = workload c, rs_Lease = cf_Lease c, rs_Batch = cf_Batch c,
      rs_Duration = cf_Duration c, rs_Warmup = cf_Warmup c, rs_Chaos = cf_Chaos c, rs_KillEvery = cf_ChaosEvery c,
      rs_SampleCSV = True \<rparr>"

definition sample_csv :: "Config \<Rightarrow> string" where
  "sample_csv c = ''sample-'' @ fmt_d (cf_Workers c) @ ''-'' @ processLabel (cf_Process c) @ ''.csv''"

text \<open>\<open>runLoadrun\<close>: how it ends, the row it has appended, the queue and the files.\<close>

definition runLoadrun :: "(int \<Rightarrow> int) \<Rightarrow> Config \<Rightarrow> 's run_env \<Rightarrow> 's \<times> files \<Rightarrow> outcome \<times> Result option \<times> 's \<times> files" where
  "runLoadrun qn c e st =
    (case st of (s, fs) \<Rightarrow>
      if mkdirFails e then (Fatal ''results dir: '', None, s, fs)
      else case (if cf_Reset c then wipe (resetter e) s else (Returns, s)) of
          (Returns, s) \<Rightarrow>
            if createFails e then (Fatal ''sample file: '', None, s, fs)
            else
              let spec = loadrun_spec c;
                  (res, out) = sample qn spec (hasStater e) (run_ticks e) (run_metrics e) (run_now e);
                  s = run_effect e spec s;
                  fs = fs((cf_ResultsDir c, sample_csv c) \<mapsto> fold Fprintln out '''');
                  res = res\<lparr>res_Backend := cf_Backend c, res_Shards := shardCount c\<rparr>
              in (case appendSweepRow (openFails e) (cf_ResultsDir c) res fs of
                  (Returns, fs) \<Rightarrow> (Returns, Some res, s, fs)
                | (out, fs) \<Rightarrow> (out, None, s, fs))
        | (out, s) \<Rightarrow> (out, None, s, fs))"

text \<open>A sweep is a series of load runs, each a process of its own, on one queue and one directory of results.\<close>

fun sweep :: "(int \<Rightarrow> int) \<Rightarrow> (Config \<times> 's run_env) list \<Rightarrow> 's \<times> files \<Rightarrow> Result list \<times> 's \<times> files" where
  "sweep qn [] st = ([], st)"
| "sweep qn ((c, e) # runs) st =
    (case runLoadrun qn c e st of (out, r, st) \<Rightarrow>
      (case sweep qn runs st of (rs, st) \<Rightarrow> ((case r of None \<Rightarrow> rs | Some r \<Rightarrow> r # rs), st)))"


section \<open>Defaults\<close>

lemma workload_default: "workload (Load fracv (\<lambda>_. None) Map.empty) = DefaultWorkload 1"
  by (simp add: workload_def DefaultWorkload_def load_defs)

section \<open>Rates and exits\<close>

text \<open>
  The rates a logger prints add up to the total it has reached: no second is counted twice or left out.
\<close>

theorem rates_telescope:
  assumes "sorted (map tk_acked ts)" and "\<forall>t \<in> set ts. 0 \<le> tk_acked t \<and> tk_acked t < 2 ^ 63"
    and "ts \<noteq> []" and "0 \<le> prev" and "prev \<le> tk_acked (hd ts)"
  shows "sum_list (map fst (everySecond (worker_second qn st) ts prev)) = tk_acked (last ts) - prev"
  using assms
proof (induction ts arbitrary: prev)
  case (Cons t ts)
  have t: "i64 (tk_acked t - prev) = tk_acked t - prev" using Cons.prems(2,4,5) by (intro i64_id) auto
  show ?case
  proof (cases "ts = []")
    case False
    then have "tk_acked t \<le> tk_acked (hd ts)" using Cons.prems(1) by simp
    with Cons False t show ?thesis by (simp add: worker_second_def Let_def)
  qed (use t in \<open>simp add: worker_second_def Let_def\<close>)
qed simp

text \<open>
  How the command ends: status 2 exactly for a missing or unknown subcommand, when the subcommands
  themselves do not exit so; a missing one is reported without opening the backend.
\<close>

theorem main_usage:
  assumes "\<And>c cfg s. fst (run c cfg s) \<noteq> Exits 2"
  shows "fst (plq_main load nb rst run args e) = Exits 2 \<longleftrightarrow>
      length args < 2 \<or> (\<exists>s. nb (load e) = Ok s) \<and> subcommand (args ! 1) = None"
    and "length args < 2 \<Longrightarrow> plq_main load nb rst run args e = (Exits 2, None)"
proof -
  have w: "fst (wipe rst s) \<noteq> Exits 2" for s
    by (auto simp: wipe_def split: option.split result.split prod.split)
  have c: "args = [] \<or> (\<exists>p. args = [p]) \<or> (\<exists>p s r. args = p # s # r)" by (metis list.exhaust)
  show "fst (plq_main load nb rst run args e) = Exits 2 \<longleftrightarrow>
      length args < 2 \<or> (\<exists>s. nb (load e) = Ok s) \<and> subcommand (args ! 1) = None"
    using c w assms by (auto simp: plq_main_def Let_def case_prod_beta split: result.splits option.splits command.splits)
  show "length args < 2 \<Longrightarrow> plq_main load nb rst run args e = (Exits 2, None)"
    using c by (auto simp: plq_main_def)
qed

section \<open>The result file\<close>

definition text_of :: "string list \<Rightarrow> string" where
  "text_of ls = concat (map (\<lambda>l. l @ [CHR 0x0A]) ls)"

lemma text_of_simps [simp]:
  "text_of [] = ''''" "text_of (l # ls) = l @ CHR 0x0A # text_of ls" "text_of (ls @ ls') = text_of ls @ text_of ls'"
  by (simp_all add: text_of_def)

lemma Split_text: "\<forall>l \<in> set ls. CHR 0x0A \<notin> set l \<Longrightarrow> Split (CHR 0x0A) (text_of ls) = ls @ [[]]"
  by (induction ls) (simp_all add: Split_Cons)

lemma sample_csv_neq: "sample_csv c \<noteq> sweep_csv"
  by (simp add: sample_csv_def sweep_csv_def)

text \<open>The state of the result file after the rows \<open>rs\<close>.\<close>

definition sweep_text :: "Result list \<Rightarrow> string option" where
  "sweep_text rs = (if rs = [] then None else Some (text_of (SweepHeader # map CSVRow rs)))"

lemma appendSweepRow_text:
  assumes "fs (dir, sweep_csv) = sweep_text rs"
  shows "snd (appendSweepRow False dir r fs) (dir, sweep_csv) = sweep_text (rs @ [r])"
  using assms by (auto simp: appendSweepRow_def sweep_text_def Fprintln_def Let_def)

lemma runLoadrun_text:
  assumes "fs (cf_ResultsDir c, sweep_csv) = sweep_text rs" and "runLoadrun qn c e (s, fs) = (out, r, s', fs')"
  shows "fs' (cf_ResultsDir c, sweep_csv) = sweep_text (rs @ (case r of None \<Rightarrow> [] | Some r \<Rightarrow> [r]))"
    and "r \<noteq> None \<longleftrightarrow> out = Returns"
    and "r = Some x \<Longrightarrow> res_Backend x = cf_Backend c \<and> res_Shards x = shardCount c \<and> res_Workers x = cf_Workers c \<and>
      res_Process x = processLabel (cf_Process c)"
proof -
  have app: "appendSweepRow b dir x fs = (out, fs') \<Longrightarrow> fs (dir, sweep_csv) = sweep_text rs \<Longrightarrow>
      (if b then out \<noteq> Returns \<and> fs' = fs else out = Returns \<and> fs' (dir, sweep_csv) = sweep_text (rs @ [x]))"
    for b dir x fs out fs'
    using appendSweepRow_text [of fs dir rs x] by (cases b) (auto simp: appendSweepRow_def Let_def)
  show "fs' (cf_ResultsDir c, sweep_csv) = sweep_text (rs @ (case r of None \<Rightarrow> [] | Some r \<Rightarrow> [r]))"
    using assms sample_csv_neq [of c]
    by (auto simp: runLoadrun_def Let_def split: if_splits prod.splits outcome.splits dest!: app)
  show "r \<noteq> None \<longleftrightarrow> out = Returns"
    using assms(2) by (auto simp: runLoadrun_def Let_def split: if_splits prod.splits outcome.splits)
  have "processLabel p \<noteq> ''''" for p by (simp add: processLabel_def)
  then show "r = Some x \<Longrightarrow> res_Backend x = cf_Backend c \<and> res_Shards x = shardCount c \<and> res_Workers x = cf_Workers c \<and>
      res_Process x = processLabel (cf_Process c)"
    using assms(2) by (auto simp: runLoadrun_def Let_def sample_def finalize_def loadrun_spec_def split: if_splits prod.splits outcome.splits)
qed


definition clean :: "string \<Rightarrow> bool" where
  "clean s \<longleftrightarrow> CHR '','' \<notin> set s \<and> CHR 0x0A \<notin> set s"

lemma clean_processLabel: "clean (processLabel p)"
  by (simp add: clean_def processLabel_def)

lemma sweep_rows:
  assumes "\<forall>(c, e) \<in> set runs. cf_ResultsDir c = dir \<and> clean (cf_Backend c)"
    and "sweep qn runs (s, fs) = (rs, s', fs')" and "fs (dir, sweep_csv) = sweep_text rs0"
  shows "fs' (dir, sweep_csv) = sweep_text (rs0 @ rs) \<and> (\<forall>r \<in> set rs. row_ok r)"
  using assms
proof (induction runs arbitrary: s fs rs rs0)
  case (Cons ce runs)
  obtain c e where ce: "ce = (c, e)" by fastforce
  with Cons.prems(1) have c: "cf_ResultsDir c = dir" "clean (cf_Backend c)" by auto
  obtain out r s1 fs1 where run: "runLoadrun qn c e (s, fs) = (out, r, s1, fs1)" by (metis prod_cases4)
  obtain rs1 where rest: "sweep qn runs (s1, fs1) = (rs1, s', fs')" and rs: "rs = (case r of None \<Rightarrow> [] | Some r \<Rightarrow> [r]) @ rs1"
    using Cons.prems(2) run ce by (auto split: prod.splits option.splits)
  have fs1: "fs1 (dir, sweep_csv) = sweep_text (rs0 @ (case r of None \<Rightarrow> [] | Some r \<Rightarrow> [r]))"
    using runLoadrun_text(1) [OF _ run, of rs0] Cons.prems(3) c by simp
  have "\<forall>x \<in> set (case r of None \<Rightarrow> [] | Some r \<Rightarrow> [r]). row_ok x"
    using runLoadrun_text(3) [OF _ run, of rs0] Cons.prems(3) c clean_processLabel
    by (auto simp: row_ok_def clean_def split: option.splits)
  with Cons.IH [OF _ rest fs1] Cons.prems(1) rs show ?case by auto
qed simp



text \<open>Three runs with the default configuration; the second one cannot create its directory.\<close>

definition demo_runs :: "(Config \<times> unit run_env) list" where
  "demo_runs =
    (let c = Load (\<lambda>_ _. 0) (\<lambda>_. None) Map.empty;
         e = \<lparr>mkdirFails = False, createFails = False, openFails = False, resetter = None, hasStater = False, run_ticks = [],
              run_metrics = NewMetrics, run_now = 9, run_effect = (\<lambda>_ s. s)\<rparr>
     in [(c, e), (c, e\<lparr>mkdirFails := True\<rparr>), (c, e)])"

lemma demo_runs_dir: "\<forall>(c, e) \<in> set demo_runs. cf_ResultsDir c = ''./results'' \<and> clean (cf_Backend c)"
  by (simp add: demo_runs_def Let_def load_defs clean_def)

lemma demo_runs_rows: "length (fst (sweep (\<lambda>n. n) demo_runs ((), Map.empty))) = 2"
  by (simp add: demo_runs_def runLoadrun_def wipe_def appendSweepRow_def Let_def case_prod_beta)


end
