(* ===== verification/Spec2Isabelle.thy ===== *)
theory Spec2Isabelle
  imports Memory_Correct Postgres_Correct Valkey_Correct Load_System Plq
begin

text \<open>
  Verification of the work-unit queue, a Go program under \<open>src/\<close>: a durable queue of tasks grouped into units
  (a unit is a workspace, a session and a peer). Producers enqueue tasks; workers claim a unit under a
  lease, drain its tasks in order, process them and acknowledge; a reaper takes expired leases back and
  releases units whose oldest task has waited long enough. Three backends implement one interface.

  \<^bold>\<open>Parts of the program and how they interact.\<close>
  \<^item> \<open>internal/queue\<close>: the types, the \<open>Backend\<close> interface, and the worker loop and pool that call it.
  \<^item> \<open>internal/memory\<close>: the in-memory backend, a map of units under one mutex.
  \<^item> \<open>internal/postgres\<close>: SQL statements and transactions on one or more primaries, with rows locked.
  \<^item> \<open>internal/valkey\<close>: Lua scripts and stream commands on one or more primaries.
  \<^item> \<open>internal/config\<close>: the configuration read from the environment.
  \<^item> \<open>internal/loadgen\<close>: producers, chaos workers, metrics, and the harness that measures a sweep point.
  \<^item> \<open>cmd/plq\<close>: the command: it opens a backend and runs workers, producers, a reaper or a load run.

  \<^bold>\<open>Theories and the code they model.\<close>
  \<^item> Prelude: results with Go's errors and panics, 64-bit wrap-around (\<open>i64\<close>), Go's division, decimal printing,
    generic lemmas, and the collections of simplification rules.
  \<^item> Go_Lib: what the program uses of \<open>strings\<close>, \<open>strconv\<close> and \<open>hash/fnv\<close>.
  \<^item> Queue_Types: \<open>types.go\<close>, \<open>stats.go\<close>, \<open>backend.go\<close> (the interface as a record of methods), \<open>unimplemented.go\<close>;
    keys are an instance of \<open>linorder\<close>.
  \<^item> Contract: the interface as a locale, \<open>backend_contract\<close>, and \<open>available_backend\<close>, which adds that an undisturbed
    drain and acknowledgement succeed.
  \<^item> Lease_Spec: the abstract lease queue as a step relation (\<open>spec_step\<close>, \<open>spec_run\<close>) and the locale
    \<open>lease_simulation\<close> for its implementations: FIFO, exclusiveness and fencing are proved once there.
  \<^item> Worker: \<open>worker.go\<close>: process model, backoff, heartbeat, \<open>runOnce\<close>, \<open>Run\<close>, the pool's names; its lemmas hold in the
    locale for every backend.
  \<^item> Memory: \<open>memory/backend.go\<close>, one function for each method. Memory_Inv: the invariant \<open>mem_inv\<close> and each
    method under it. Memory_Gate: the flush gate. Memory_System: histories of calls, the interpretation of
    \<open>lease_simulation\<close>. Memory_Contract: the interpretation of the contract. Memory_Laws, Memory_Demo,
    Memory_Correct: effects of the methods, a concrete history, and the properties.
  \<^item> Sharding: routing by FNV hash and the round-robin \<open>Claim\<close> loop that the Postgres and the Valkey driver
    share, over any backend; a cluster of primaries that keep the contract keeps it too.
  \<^item> Postgres: \<open>postgres/backend.go\<close> and \<open>schema.sql\<close>: the tables as a record, each statement a function on them.
    Postgres_Inv, Postgres_System, Postgres_Contract, Postgres_Gate and Postgres_Correct as for the in-memory backend.
  \<^item> Valkey: \<open>valkey/scripts.go\<close> and \<open>valkey/backend.go\<close>: hashes, sorted sets and streams, each script a function on
    them, and the Go methods around. Valkey_Streams: members, sorted sets, streams, the acknowledging scan.
    Valkey_Inv, Valkey_System, Valkey_Contract and Valkey_Correct as above.
  \<^item> Config: \<open>config.go\<close> and what \<open>cmd/plq\<close> derives from it. Loadgen: \<open>workload.go\<close>, \<open>producer.go\<close>, \<open>chaos.go\<close>,
    \<open>metrics.go\<close>. Harness: \<open>harness.go\<close>. Plq: \<open>main.go\<close> and the \<open>newBackend\<close> functions.
  \<^item> Load_System: the producers and a queue that other clients use, as one step relation, for each backend.

  \<^bold>\<open>How state and effects are modelled.\<close> A method takes what it reads from outside (clock, map iteration order,
  UUID, connection faults, lost replies) as a value, its arguments and the state, and returns a result and
  the new state; an error or a panic is a result. The mutex, the row lock and the script make a call
  atomic. The worker loop is a function of a schedule: before each of its calls the schedule may change the
  queue in any way the other actors can. Producers are also a step relation, with one step for each
  atomic operation of any of them.

  \<^bold>\<open>Locales and their interpretations.\<close>
  \<^item> \<open>lease_simulation\<close>: \<open>mem\<close> (in-memory), \<open>pg\<close> (a Postgres primary), \<open>vkl\<close> (a Valkey primary).
  \<^item> \<open>backend_contract\<close> and \<open>available_backend\<close>: \<open>memq\<close>, \<open>pgq\<close>, \<open>vkq\<close> for one backend or primary, \<open>pgc\<close> and \<open>vkc\<close> for
    clusters of primaries.
  \<^item> \<open>fed_queue\<close>, which extends \<open>lease_simulation\<close> by what a queue owes its producers: \<open>mem_fed\<close>, \<open>pg_fed\<close>, \<open>vk_fed\<close>.

  \<^bold>\<open>What is proved.\<close>
  \<^item> In-memory backend (C1 to C12): tasks of a unit leave in the order they entered and none is lost; every
    history is one of the abstract lease queue; one holder at a time; a lost lease stays lost; the
    threshold and age gate; no panics; the worker processes a prefix in order and returns; oldest deadline
    first; recovery and redelivery after a crash; the effect of \<open>Ack\<close> on every branch.
  \<^item> Result file of a sweep (C13), configuration round trip (C14), the load meets what the backends ask (C15),
    quantiles against their definition (C16), measurement (C17), counters of interleaved producers (C18), and
    producers and queue together: no accepted task is lost (C19).
  \<^item> Postgres (C20 to C28): FIFO, refinement, fencing, gate, reaper, worker over shards, completeness of the
    cross-shard claim, \<open>Ack\<close> and \<open>Fail\<close>; connection faults and lost replies included.
  \<^item> Valkey (C29 to C40): FIFO, refinement, fencing, well-formed keyspace, one-pass form of the scan, members,
    reaper, \<open>Ack\<close>, worker over shards; and three histories that the contract rules out and the code has: a
    unit claimed twice (C32), tasks skipped when one command of \<open>Drain\<close> fails (C33), and tasks skipped when a lease
    is lost in the middle of a \<open>Drain\<close> (C37). The refinement therefore lets a claim take over a lease, and has
    none where no enqueue leaves an eligible unit below the threshold. Histories may interleave the
    commands of \<open>Drain\<close>; the worker's order (C40) needs its own \<open>Drain\<close> to run uninterrupted and without faults.

  \<^bold>\<open>Bounds and fuel.\<close> Counters are 64-bit and wrap; the theorems bound the length of a history by \<open>2^63 - 1\<close>, which a
  queue does not reach, so that no counter wraps. \<open>drain_loop\<close> and \<open>Run\<close> consume a schedule and return \<open>None\<close> when it
  is too short; C8 shows how long is enough. The scan of \<open>luaAck\<close> and the printing and parsing loops have
  termination proofs. Numbers in Lua are integers: costs and times stay below \<open>2^53\<close>, where Lua's are exact.
  Stream IDs are ranks, as \<open>XADD *\<close> gives increasing ones. Tokens drawn by a claim are new (UUIDs; the Valkey
  counter within one process); the histories carry the set of those issued.

  \<^bold>\<open>Parameters.\<close> Opening a connection, running a statement of the schema, \<open>strconv.ParseFloat\<close>, the fractional
  digits of a duration, and the floating-point product in \<open>quantile\<close>. Other floating-point values are read as
  real numbers. SQL statements and Valkey commands follow their documentation.

  \<^bold>\<open>Not modelled.\<close> \<open>Close\<close>, contexts beyond their being cancelled, signals, and the wording of log lines: they touch
  no state of the queue. Starting and joining goroutines: what runs concurrently is the schedule. Tests under \<open>tests/\<close> are not code of the program.
\<close>

section \<open>The load fits the queues\<close>

lemma in_range_fits:
  assumes "in_range w b (k, cost)" and "1 \<le> Lo (wl_Cost w)" and "Hi (wl_Cost w) < 2 ^ 63 - 1" and "Lo (wl_Cost w) < 2 ^ 63"
  shows "slash_free k" "bar_free k" "1 \<le> cost" "cost \<le> max (Lo (wl_Cost w)) (Hi (wl_Cost w))" "int8 cost"
proof -
  from assms(1) obtain j d where k: "k = keyFor j (wl_Workspaces w)" and d: "draws d" "sample_cost d (wl_Cost w) = Ok cost"
    by (auto simp: in_range_def)
  have "1 \<le> cost \<and> cost \<le> max (Lo (wl_Cost w)) (Hi (wl_Cost w))"
    using workload_wellformed [OF d(1) assms(2,3), of 0] d(2) by simp
  then show "slash_free k" "bar_free k" "1 \<le> cost" "cost \<le> max (Lo (wl_Cost w)) (Hi (wl_Cost w))" "int8 cost"
    using assms(3,4) k slash_free_keyFor keyFor_free by (auto simp: int8_def max_def split: if_splits)
qed



section \<open>Producers and queue together\<close>

text \<open>
  C19. No accepted task is lost: producers load a Postgres primary that workers and reapers use at the same
  time, in any interleaving, with failing connections and lost replies. For every unit, the tasks whose \<open>Enqueue\<close>
  was answered with a sequence number are, in the order of acceptance, among those acknowledged or
  dead-lettered so far followed by those still pending; and the \<open>Enqueued\<close> counter of the load generator never
  exceeds the number of accepted tasks and equals it when the producers have returned.
\<close>

theorem postgres_nothing_lost:
  assumes "pg_fresh s0"
    and "system_run pg_Backend fst pg_step pg_event pg_enq w n (RunProducers s0 m, (s0, {})) ks evs (l, (s, U))"
    and "0 \<le> m" and "m + int (length ks) < 2 ^ 63" and "int (length ks) + wl_WorkingSet w < 2 ^ 63" and "0 \<le> wl_WorkingSet w"
  shows "subseq (accepted k (concat ks)) (map Cost (concat (map (finished k) evs) @ pg_pending s k)) \<and>
    ld_enqueued l \<le> m + int (length (concat ks)) \<and>
    ((\<forall>i < n. ld_pc l i = Stopped) \<longrightarrow> ld_enqueued l = m + int (length (concat ks)))"
proof -
  note fresh = pg_fresh_ok [OF assms(1)]
  then show ?thesis
    using pg_fed.nothing_accepted_is_lost [OF _ fresh(1) order.refl, of w n m ks evs l "(s, U)" k] assms by simp
qed

text \<open>One producer enqueues a task and returns.\<close>

lemma pg_load_demo:
  obtains l s evs where "system_run pg_Backend fst pg_step pg_event pg_enq (DefaultWorkload 1) 1 (RunProducers pg_demo0 0, (pg_demo0, {}))
      [[], [], [(keyFor 8 8, 10)], [], []] evs (l, (s, {}))" and "ld_pc l 0 = Stopped"
proof -
  let ?w = "DefaultWorkload 1" and ?e = "pg_demo_env 5" and ?k = "keyFor 8 8"
  let ?q = "snd (pg_Enqueue ?e ?k payload 10 pg_demo0)"
  let ?r = "system_run pg_Backend fst pg_step pg_event pg_enq ?w 1 (RunProducers pg_demo0 0, (pg_demo0, {}))"
  have "fst (pg_Enqueue ?e ?k payload 10 pg_demo0) = Ok 0" by code_simp
  then have e: "be_Enqueue pg_Backend ?e ?k payload 10 pg_demo0 = (Ok 0, ?q)"
    by (simp add: pg_Backend_def) (metis prod.collapse)
  have st: "pg_step (pg_demo0, {}) (pg_enq ?e ?k 10) (?q, {})"
    by (simp add: pg_step_iff pg_enq_def pg_next_def pg_event_other)
  note d = demo_steps [OF e]
  have 0: "?r [] [] (demo_load 0 0 pg_demo0 AtHead, (pg_demo0, {}))" unfolding demo_load_simps by (rule system_run.start)
  have 1: "?r [[]] [] (demo_load 1 0 pg_demo0 AtLoad, (pg_demo0, {}))" using system_run.local [OF 0 d(1)] by simp
  have 2: "?r [[], []] [] (demo_load 1 0 pg_demo0 (AtEnqueue 8), (pg_demo0, {}))" using system_run.local [OF 1 d(2)] by simp
  let ?evs = "[pg_event (pg_demo0, {}) (pg_enq ?e ?k 10)]"
  have 3: "?r [[], [], [(?k, 10)]] ?evs (demo_load 1 0 ?q AtCount, (?q, {}))"
    using system_run.accept [where store = fst and enq = pg_enq and e = ?e and seq = 0 and t' = "(?q, {})", OF 2 d(3)] e st by simp
  have 4: "?r [[], [], [(?k, 10)], []] ?evs (demo_load 1 1 ?q AtHead, (?q, {}))" using system_run.local [OF 3 d(4)] by simp
  have "?r [[], [], [(?k, 10)], [], []] ?evs (demo_load 1 1 ?q Stopped, (?q, {}))" using system_run.local [OF 4 d(5)] by simp
  then show thesis by (rule that) simp
qed

theorem postgres_nothing_lost_witness:
  "\<exists>l s evs. ld_enqueued l = 1 \<and> subseq [10] (map Cost (concat (map (finished (keyFor 8 8)) evs) @ pg_pending s (keyFor 8 8))) \<and>
    system_run pg_Backend fst pg_step pg_event pg_enq (DefaultWorkload 1) 1 (RunProducers pg_demo0 0, (pg_demo0, {}))
      [[], [], [(keyFor 8 8, 10)], [], []] evs (l, (s, {}))"
proof -
  obtain l s evs where r: "system_run pg_Backend fst pg_step pg_event pg_enq (DefaultWorkload 1) 1 (RunProducers pg_demo0 0, (pg_demo0, {}))
      [[], [], [(keyFor 8 8, 10)], [], []] evs (l, (s, {}))" and p: "ld_pc l 0 = Stopped" by (rule pg_load_demo)
  from postgres_nothing_lost [OF pg_demo_fresh r, of "keyFor 8 8"] p
  have "ld_enqueued l = 1 \<and> subseq [10] (map Cost (concat (map (finished (keyFor 8 8)) evs) @ pg_pending s (keyFor 8 8)))"
    by (simp add: DefaultWorkload_def)
  with r show ?thesis by blast
qed

end
